(* ===== verification/Prelude.thy ===== *)
theory Prelude
  imports Main "HOL-Library.Monad_Syntax" "HOL-Library.Word" "HOL-Library.Signed_Division"
begin

text \<open>
  Shared vocabulary of the development: the fixed-width C++ integer types as
  machine words, the C++ rules for signed 64-bit arithmetic (overflow is
  undefined behaviour, division truncates), generic facts about lists, masks
  and modular indexes, and the reachability interface that every concurrent
  component of the program instantiates.
\<close>

unbundle bit_operations_syntax

section \<open>Integer types\<close>

text \<open>
  An unsigned type is a word. A signed type is the same word read with
  \<open>sint\<close>: \<^verbatim>\<open>static_cast\<close> between \<^verbatim>\<open>std::uint32_t\<close> and \<^verbatim>\<open>std::int32_t\<close> keeps the
  bits (C++20), so it is the identity on words.
\<close>

type_synonym u8 = "8 word"
type_synonym u16 = "16 word"
type_synonym u32 = "32 word"
type_synonym u64 = "64 word"
type_synonym i32 = "32 word"
type_synonym i64 = "64 word"

abbreviation INT32_MIN :: int where "INT32_MIN \<equiv> - 2147483648"
abbreviation INT32_MAX :: int where "INT32_MAX \<equiv> 2147483647"
abbreviation INT64_MIN :: int where "INT64_MIN \<equiv> - 9223372036854775808"
abbreviation INT64_MAX :: int where "INT64_MAX \<equiv> 9223372036854775807"

named_theorems cxx_arith \<open>the C++ signed 64-bit operations, unfolded\<close>

section \<open>Signed 64-bit arithmetic of C++\<close>

text \<open>
  Signed overflow is undefined in C++. An operation that would overflow has
  no value: \<open>None\<close> stands for undefined behaviour, \<open>Some\<close> for the
  mathematical result. Division truncates toward zero; dividing by zero and
  \<open>INT64_MIN / -1\<close> are undefined too.
\<close>

definition in_i64 :: "int \<Rightarrow> bool" where
  "in_i64 x \<longleftrightarrow> INT64_MIN \<le> x \<and> x \<le> INT64_MAX"

definition i64_result :: "int \<Rightarrow> int option" where
  "i64_result x = (if in_i64 x then Some x else None)"

definition i64_add :: "int \<Rightarrow> int \<Rightarrow> int option" where
  "i64_add a b = i64_result (a + b)"

definition i64_sub :: "int \<Rightarrow> int \<Rightarrow> int option" where
  "i64_sub a b = i64_result (a - b)"

definition i64_neg :: "int \<Rightarrow> int option" where
  "i64_neg a = i64_result (- a)"

definition i64_mul :: "int \<Rightarrow> int \<Rightarrow> int option" where
  "i64_mul a b = i64_result (a * b)"

definition i64_div :: "int \<Rightarrow> int \<Rightarrow> int option" where
  "i64_div a b = (if b = 0 then None else i64_result (a sdiv b))"

declare in_i64_def [cxx_arith] i64_result_def [cxx_arith] i64_add_def [cxx_arith]
  i64_sub_def [cxx_arith] i64_neg_def [cxx_arith] i64_mul_def [cxx_arith] i64_div_def [cxx_arith]

lemma sint_i32_bounds: "INT32_MIN \<le> sint (x :: i32)" "sint (x :: i32) \<le> INT32_MAX"
  using sint_range_size [of x] by (auto simp: word_size)

lemma sint_i64_bounds: "INT64_MIN \<le> sint (x :: i64)" "sint (x :: i64) \<le> INT64_MAX"
  using sint_range_size [of x] by (auto simp: word_size)

lemma sint_of_int_i32:
  "INT32_MIN \<le> z \<Longrightarrow> z \<le> INT32_MAX \<Longrightarrow> sint (word_of_int z :: i32) = z"
  by (simp add: signed_of_int signed_take_bit_int_eq_self)


section \<open>Bits of a word\<close>

lemma bit_beyond [simp]: "LENGTH('a) \<le> n \<Longrightarrow> \<not> bit (w :: 'a :: len word) n"
  by (auto dest: bit_imp_le_length)

lemma and_one_even: "(w :: 'a :: len word) AND 1 = 0 \<longleftrightarrow> even (unat w)"
proof -
  have "w AND 1 = 0 \<longleftrightarrow> \<not> bit w 0"
    using and_exp_eq_0_iff_not_bit [of w 0] by simp
  also have "\<dots> \<longleftrightarrow> \<not> bit (unat w) 0" by (simp add: bit_unsigned_iff)
  finally show ?thesis by (simp add: bit_0)
qed

section \<open>Power-of-two capacities and index masks\<close>

text \<open>The static assertion \<open>(Capacity & (Capacity - 1)) == 0\<close> says: a power of two.\<close>

lemma and_pred_zero_pow2:
  "0 < n \<Longrightarrow> n AND (n - 1) = (0 :: nat) \<Longrightarrow> \<exists>k. n = 2 ^ k"
proof (induction n rule: less_induct)
  case (less n)
  show ?case
  proof (cases "even n")
    case True
    then obtain m where m: "n = 2 * m" by blast
    with less.prems have "0 < m" by simp
    have "n - 1 = 1 + 2 * (m - 1)" using m \<open>0 < m\<close> by simp
    then have "n AND (n - 1) = 2 * (m AND (m - 1))"
      using m by (simp add: and_rec [of "2 * m"])
    with less.prems have "m AND (m - 1) = 0" by simp
    moreover have "m < n" using m \<open>0 < m\<close> by simp
    ultimately obtain k where "m = 2 ^ k" using less.IH \<open>0 < m\<close> by blast
    then have "n = 2 ^ Suc k" using m by simp
    then show ?thesis by blast
  next
    case False
    then obtain m where m: "n = 2 * m + 1" by (blast elim: oddE)
    then have "n AND (n - 1) = 2 * m"
      by (simp add: and_rec [of "Suc (2 * m)"])
    with less.prems m have "n = 2 ^ 0" by simp
    then show ?thesis by blast
  qed
qed

lemma unat_and_pred:
  fixes x c :: "'a :: len word"
  assumes "c \<noteq> 0" and "c AND (c - 1) = 0"
  shows "unat (x AND (c - 1)) = unat x mod unat c"
proof -
  have pos: "0 < unat c" using assms(1) by (simp add: unat_gt_0)
  have pred: "unat (c - 1) = unat c - 1"
    using assms(1) by (rule unat_minus_one)
  have "unat (c AND (c - 1)) = unat c AND unat (c - 1)"
    by (rule unsigned_and_eq)
  with assms(2) pred have "unat c AND (unat c - 1) = 0" by simp
  with pos obtain k where k: "unat c = 2 ^ k" using and_pred_zero_pow2 by blast
  have "unat (x AND (c - 1)) = unat x AND unat (c - 1)"
    by (rule unsigned_and_eq)
  also have "\<dots> = unat x AND mask k" by (simp add: pred k mask_eq_exp_minus_1)
  also have "\<dots> = unat x mod unat c"
    by (simp add: k take_bit_eq_mod flip: take_bit_eq_mask)
  finally show ?thesis .
qed

section \<open>Modular indexes\<close>

text \<open>Two positions less than one lap apart share a slot only when they are equal.\<close>

lemma mod_eq_within_lap:
  fixes i j c :: nat
  assumes "i mod c = j mod c" and "i \<le> j" and "j < i + c"
  shows "i = j"
proof -
  from assms(1,2) have "c dvd j - i" by (metis mod_eq_dvd_iff_nat)
  moreover have "j - i < c" using assms(2,3) by simp
  ultimately have "j - i = 0" by (metis dvd_imp_le less_le_not_le neq0_conv)
  with assms(2) show ?thesis by simp
qed

lemma mod_neq_within_lap:
  fixes i j c :: nat
  assumes "i < j" and "j < i + c"
  shows "i mod c \<noteq> j mod c"
  using mod_eq_within_lap [of i c j] assms by auto

section \<open>Reachable states\<close>

text \<open>
  Every concurrent object below is a step relation on a state that holds the
  shared memory, the program counter of each thread and some history
  variables. The contract of such a machine is an invariant that holds
  initially and that each step keeps.
\<close>

locale step_machine =
  fixes start :: "'s \<Rightarrow> bool"
    and step :: "'s \<Rightarrow> 's \<Rightarrow> bool"
    and inv :: "'s \<Rightarrow> bool"
  assumes inv_start: "start s \<Longrightarrow> inv s"
    and inv_step: "inv s \<Longrightarrow> step s t \<Longrightarrow> inv t"
begin

lemma inv_run: "step\<^sup>*\<^sup>* s t \<Longrightarrow> inv s \<Longrightarrow> inv t"
  by (induction rule: rtranclp_induct) (auto intro: inv_step)

lemma inv_reachable: "start s \<Longrightarrow> step\<^sup>*\<^sup>* s t \<Longrightarrow> inv t"
  by (blast intro: inv_run inv_start)

end

text \<open>A run written out as the list of states it visits.\<close>

fun step_path :: "('s \<Rightarrow> 's \<Rightarrow> bool) \<Rightarrow> 's \<Rightarrow> 's list \<Rightarrow> bool" where
  "step_path r s [] \<longleftrightarrow> True"
| "step_path r s (t # ts) \<longleftrightarrow> r s t \<and> step_path r t ts"

lemma step_path_run: "step_path r s ts \<Longrightarrow> r\<^sup>*\<^sup>* s (last (s # ts))"
proof (induction ts arbitrary: s)
  case (Cons t ts)
  then have "r s t" and "r\<^sup>*\<^sup>* t (last (t # ts))" by simp_all
  then show ?case by (simp add: converse_rtranclp_into_rtranclp)
qed simp

text \<open>A schedule: run the given thread functions one after the other.\<close>

fun run_threads :: "('s \<Rightarrow> 's option) list \<Rightarrow> 's \<Rightarrow> 's option" where
  "run_threads [] s = Some s"
| "run_threads (f # fs) s = (case f s of None \<Rightarrow> None | Some t \<Rightarrow> run_threads fs t)"

lemma run_threads_run:
  assumes "\<And>f s t. f \<in> set fs \<Longrightarrow> f s = Some t \<Longrightarrow> r s t"
  shows "run_threads fs s = Some t \<Longrightarrow> r\<^sup>*\<^sup>* s t"
  using assms
proof (induction fs arbitrary: s)
  case (Cons f fs)
  then obtain u where "f s = Some u" "run_threads fs u = Some t" by (auto split: option.splits)
  with Cons have "r s u" "r\<^sup>*\<^sup>* u t" by auto
  then show ?case by (rule converse_rtranclp_into_rtranclp)
qed simp

text \<open>A run of a part is a run of the whole it is put into.\<close>

lemma rtranclp_image:
  assumes "\<And>s t. r s t \<Longrightarrow> q (f s) (f t)" and "r\<^sup>*\<^sup>* s t"
  shows "q\<^sup>*\<^sup>* (f s) (f t)"
  using assms(2) by (induction rule: rtranclp_induct) (auto intro: rtranclp.rtrancl_into_rtrancl assms(1))

text \<open>
  \<open>interleaved own other n s t\<close>: a run from \<open>s\<close> to \<open>t\<close> in which one thread
  takes \<open>n\<close> steps (\<open>own\<close>) and the rest of the system any number (\<open>other\<close>).
\<close>

inductive interleaved ::
  "('s \<Rightarrow> 's \<Rightarrow> bool) \<Rightarrow> ('s \<Rightarrow> 's \<Rightarrow> bool) \<Rightarrow> nat \<Rightarrow> 's \<Rightarrow> 's \<Rightarrow> bool"
  for own other where
  none: "interleaved own other 0 s s"
| mine: "interleaved own other n s t \<Longrightarrow> own t u \<Longrightarrow> interleaved own other (Suc n) s u"
| theirs: "interleaved own other n s t \<Longrightarrow> other t u \<Longrightarrow> interleaved own other n s u"

text \<open>
  A thread that makes progress on its own has a rank that each of its steps
  lowers and no other step raises; it then takes at most that many steps,
  whatever else runs.
\<close>

locale ranked_steps =
  fixes own :: "'s \<Rightarrow> 's \<Rightarrow> bool"
    and other :: "'s \<Rightarrow> 's \<Rightarrow> bool"
    and rank :: "'s \<Rightarrow> nat"
  assumes own_lowers: "own s t \<Longrightarrow> rank t < rank s"
    and other_keeps: "other s t \<Longrightarrow> rank t \<le> rank s"
begin

lemma interleaved_rank: "interleaved own other n s t \<Longrightarrow> n + rank t \<le> rank s"
  by (induction rule: interleaved.induct) (auto dest: own_lowers other_keeps)

lemma own_steps_bounded: "interleaved own other n s t \<Longrightarrow> n \<le> rank s"
  using interleaved_rank by fastforce

end

text \<open>
  A system in which every good state that is not at its goal can go on to a
  good state of smaller rank can always be brought to the goal.
\<close>

locale ranked_goal =
  fixes step :: "'s \<Rightarrow> 's \<Rightarrow> bool"
    and good :: "'s \<Rightarrow> bool"
    and goal :: "'s \<Rightarrow> bool"
    and rank :: "'s \<Rightarrow> nat"
  assumes advance: "good s \<Longrightarrow> \<not> goal s \<Longrightarrow> \<exists>t. step\<^sup>*\<^sup>* s t \<and> good t \<and> rank t < rank s"
begin

lemma goal_reachable: "good s \<Longrightarrow> \<exists>t. step\<^sup>*\<^sup>* s t \<and> good t \<and> goal t"
proof (induction "rank s" arbitrary: s rule: less_induct)
  case less
  show ?case
  proof (cases "goal s")
    case False
    then obtain t where t: "step\<^sup>*\<^sup>* s t" "good t" "rank t < rank s" using advance [OF less.prems] by blast
    from less.hyps [OF t(3,2)] obtain u where "step\<^sup>*\<^sup>* t u" "good u" "goal u" by blast
    with t(1) show ?thesis by (meson rtranclp_trans)
  qed (use less.prems in blast)
qed

end

end
