(* ===== verification/Types.thy ===== *)
theory Types
  imports Prelude
begin

text \<open>
  The bounds, records and status values every component shares:
  \<^verbatim>\<open>include/ratehub/types.hpp\<close>, and the row types of \<^verbatim>\<open>include/ratehub/layout.hpp\<close>.
  A record field carries a prefix for the struct it belongs to, because the
  C++ structs reuse each other's field names.
\<close>

section \<open>Shared bounds\<close>

definition kMaxSources :: u32 where "kMaxSources = 64"

definition kSchemaVersion :: u16 where "kSchemaVersion = 3"

definition kFrameMagic :: u16 where "kFrameMagic = 0xA15C"

definition kFrameBytes :: nat where "kFrameBytes = 38"

definition kFastPeriodNs :: i64 where "kFastPeriodNs = 5000000"

definition kWindowPeriodNs :: i64 where "kWindowPeriodNs = 25000000"

definition kSnapshotPeriodNs :: i64 where "kSnapshotPeriodNs = 100000000"

definition kRingCapacity :: u32 where "kRingCapacity = 1024"

section \<open>Native records\<close>

text \<open>\<^verbatim>\<open>struct Record\<close>: one decoded sample. Positions in mm, velocities in mm/s.\<close>

record Record =
  r_source_id :: u32
  r_sequence :: u32
  r_time_ns :: i64
  r_pos_x :: i32
  r_pos_y :: i32
  r_vel_x :: i32
  r_vel_y :: i32

definition Record_default :: Record where
  "Record_default = \<lparr>r_source_id = 0, r_sequence = 0, r_time_ns = 0,
     r_pos_x = 0, r_pos_y = 0, r_vel_x = 0, r_vel_y = 0\<rparr>"

datatype ParseStatus = Ok | Truncated | BadMagic | BadVersion | BadSource | BadChecksum

datatype IntegrateStatus = IntegrateOk | IntegrateBadSource | IntegrateBadDt | IntegrateOutOfRange

text \<open>\<^verbatim>\<open>struct SourceState\<close>: what the 5 ms thread publishes per source.\<close>

record SourceState =
  s_pos_x :: i32
  s_pos_y :: i32
  s_vel_x :: i32
  s_vel_y :: i32
  s_sequence :: u32
  s_publishes :: u32
  s_time_ns :: i64
  s_valid :: u32

definition SourceState_default :: SourceState where
  "SourceState_default = \<lparr>s_pos_x = 0, s_pos_y = 0, s_vel_x = 0, s_vel_y = 0,
     s_sequence = 0, s_publishes = 0, s_time_ns = 0, s_valid = 0\<rparr>"

text \<open>\<^verbatim>\<open>struct WindowState\<close>: the 25 ms sample of that publication.\<close>

record WindowState =
  w_pos_x :: i32
  w_pos_y :: i32
  w_sequence :: u32
  w_publishes :: u32

definition WindowState_default :: WindowState where
  "WindowState_default = \<lparr>w_pos_x = 0, w_pos_y = 0, w_sequence = 0, w_publishes = 0\<rparr>"

text \<open>\<^verbatim>\<open>struct Snapshot\<close>: the fleet table publish copies out.\<close>

record Snapshot =
  sn_generation :: u32
  sn_rows :: "WindowState list"

definition Snapshot_default :: Snapshot where
  "Snapshot_default = \<lparr>sn_generation = 0, sn_rows = replicate (unat kMaxSources) WindowState_default\<rparr>"

lemmas bound_defs = kMaxSources_def kSchemaVersion_def kFrameMagic_def kFrameBytes_def
  kFastPeriodNs_def kWindowPeriodNs_def kSnapshotPeriodNs_def kRingCapacity_def

lemma unat_kMaxSources [simp]: "unat kMaxSources = 64"
  by (simp add: kMaxSources_def)

lemma less_kMaxSources_iff: "i < kMaxSources \<longleftrightarrow> unat i < 64"
  by (simp add: word_less_nat_alt)

end
