(* ===== verification/Fifo_Contract.thy ===== *)
theory Fifo_Contract
  imports Prelude
begin

text \<open>
  The contract of a bounded first-in first-out buffer, which the record ring
  and the ingest queue both promise, and what a client can conclude from it:
  a run of pushes stores a prefix of what it is given, and draining returns
  the stored elements in order and leaves the buffer empty.
\<close>

section \<open>Client loops\<close>

text \<open>Push one value after the other until the buffer refuses one.\<close>

fun push_until_full :: "('a \<Rightarrow> 'q \<Rightarrow> bool \<times> 'q) \<Rightarrow> 'a list \<Rightarrow> 'q \<Rightarrow> 'a list \<times> 'q" where
  "push_until_full push [] q = ([], q)"
| "push_until_full push (v # vs) q =
     (case push v q of
        (False, q') \<Rightarrow> (v # vs, q')
      | (True, q') \<Rightarrow> push_until_full push vs q')"

text \<open>Pop until the buffer is empty; \<open>None\<close> when the fuel runs out first.\<close>

fun drain :: "('q \<Rightarrow> ('a \<times> 'q) option) \<Rightarrow> nat \<Rightarrow> 'q \<Rightarrow> ('a list \<times> 'q) option" where
  "drain pop 0 q = None"
| "drain pop (Suc fuel) q =
     (case pop q of
        None \<Rightarrow> Some ([], q)
      | Some (x, q') \<Rightarrow> map_option (\<lambda>(xs, q''). (x # xs, q'')) (drain pop fuel q'))"

section \<open>Contract\<close>

locale bounded_fifo =
  fixes push :: "'a \<Rightarrow> 'q \<Rightarrow> bool \<times> 'q"
    and pop :: "'q \<Rightarrow> ('a \<times> 'q) option"
    and items :: "'q \<Rightarrow> 'a list"
    and ok :: "'q \<Rightarrow> bool"
    and limit :: nat
  assumes items_bounded: "ok q \<Longrightarrow> length (items q) \<le> limit"
    and push_full: "ok q \<Longrightarrow> length (items q) = limit \<Longrightarrow> push v q = (False, q)"
    and push_room: "ok q \<Longrightarrow> length (items q) < limit \<Longrightarrow>
      \<exists>q'. push v q = (True, q') \<and> ok q' \<and> items q' = items q @ [v]"
    and pop_empty: "ok q \<Longrightarrow> items q = [] \<Longrightarrow> pop q = None"
    and pop_first: "ok q \<Longrightarrow> items q = x # xs \<Longrightarrow>
      \<exists>q'. pop q = Some (x, q') \<and> ok q' \<and> items q' = xs"
begin

lemma push_until_full_stores:
  "ok q \<Longrightarrow> \<exists>q'. push_until_full push vs q = (drop (limit - length (items q)) vs, q') \<and>
     ok q' \<and> items q' = items q @ take (limit - length (items q)) vs"
proof (induction vs arbitrary: q)
  case (Cons v vs)
  show ?case
  proof (cases "length (items q) < limit")
    case True
    then obtain q' where q': "push v q = (True, q')" "ok q'" "items q' = items q @ [v]"
      using push_room [OF Cons.prems] by blast
    have left: "limit - length (items q) = Suc (limit - length (items q'))"
      using True q'(3) by simp
    show ?thesis
      using Cons.IH [OF q'(2)] q' by (simp add: left)
  next
    case False
    then have "length (items q) = limit" using items_bounded [OF Cons.prems] by simp
    then show ?thesis using push_full [OF Cons.prems] Cons.prems by simp
  qed
qed simp

lemma drain_returns_items:
  "ok q \<Longrightarrow> length (items q) < fuel \<Longrightarrow>
     \<exists>q'. drain pop fuel q = Some (items q, q') \<and> ok q' \<and> items q' = []"
proof (induction fuel arbitrary: q)
  case (Suc fuel)
  show ?case
  proof (cases "items q")
    case Nil
    then show ?thesis using pop_empty [OF Suc.prems(1)] Suc.prems(1) by simp
  next
    case (Cons x xs)
    then obtain q' where q': "pop q = Some (x, q')" "ok q'" "items q' = xs"
      using pop_first [OF Suc.prems(1)] by blast
    then show ?thesis using Suc.IH [of q'] Suc.prems(2) Cons by auto
  qed
qed simp

lemma drain_after_push:
  assumes "ok q" and "items q = []" and "length vs \<le> limit" and "length vs < fuel"
  shows "\<exists>q' q''. push_until_full push vs q = ([], q') \<and> drain pop fuel q' = Some (vs, q'') \<and>
    ok q'' \<and> items q'' = []"
proof -
  from push_until_full_stores [OF assms(1), of vs] assms(2,3)
  obtain q' where "push_until_full push vs q = ([], q')" "ok q'" "items q' = vs" by auto
  with drain_returns_items [of q' fuel] assms(4) show ?thesis by auto
qed

end

end
