(* ===== verification/Spsc_Ring.thy ===== *)
theory Spsc_Ring
  imports Types Fifo_Contract
begin

text \<open>
  \<^verbatim>\<open>include/ratehub/spsc_ring.hpp\<close>. The template parameter \<open>Capacity\<close> is an
  argument. The first part is the ring as one thread sees it: \<open>try_push\<close>,
  \<open>try_pop\<close> and \<open>occupied\<close> with their 32-bit index arithmetic, shown to be a
  bounded queue of \<open>Capacity - 1\<close> elements. The second part is the ring under
  concurrency: the producer and the consumer as two program counters that
  interleave at each atomic access, where the acquire load of the other
  side's index may return any value not older than the one seen before.
\<close>

section \<open>The ring\<close>

record 'a SpscRing =
  rb_slots :: "'a list"
  rb_write :: u32
  rb_read :: u32

text \<open>The two static assertions on \<open>Capacity\<close>.\<close>

definition valid_capacity :: "u32 \<Rightarrow> bool" where
  "valid_capacity cap \<longleftrightarrow> cap \<ge> 2 \<and> cap AND (cap - 1) = 0"

definition kMask :: "u32 \<Rightarrow> u32" where
  "kMask cap = cap - 1"

definition SpscRing_init :: "u32 \<Rightarrow> 'a \<Rightarrow> 'a SpscRing" where
  "SpscRing_init cap d = \<lparr>rb_slots = replicate (unat cap) d, rb_write = 0, rb_read = 0\<rparr>"

definition SpscRing_try_push :: "u32 \<Rightarrow> 'a \<Rightarrow> 'a SpscRing \<Rightarrow> bool \<times> 'a SpscRing" where
  "SpscRing_try_push cap v r =
     (let write = rb_write r;
          next = (write + 1) AND kMask cap
      in if next = rb_read r then (False, r)
         else (True, r\<lparr>rb_slots := (rb_slots r)[unat write := v], rb_write := next\<rparr>))"

text \<open>The third component is the ring, the second the caller's \<open>out\<close> afterwards.\<close>

definition SpscRing_try_pop :: "u32 \<Rightarrow> 'a SpscRing \<Rightarrow> 'a \<Rightarrow> bool \<times> 'a \<times> 'a SpscRing" where
  "SpscRing_try_pop cap r out =
     (let read = rb_read r
      in if read = rb_write r then (False, out, r)
         else (True, rb_slots r ! unat read, r\<lparr>rb_read := (read + 1) AND kMask cap\<rparr>))"

definition SpscRing_occupied :: "u32 \<Rightarrow> 'a SpscRing \<Rightarrow> u32" where
  "SpscRing_occupied cap r = (rb_write r - rb_read r) AND kMask cap"

section \<open>Abstraction to a list\<close>

definition ring_wf :: "u32 \<Rightarrow> 'a SpscRing \<Rightarrow> bool" where
  "ring_wf cap r \<longleftrightarrow> valid_capacity cap \<and> length (rb_slots r) = unat cap \<and>
     rb_write r < cap \<and> rb_read r < cap"

definition ring_items :: "u32 \<Rightarrow> 'a SpscRing \<Rightarrow> 'a list" where
  "ring_items cap r =
     map (\<lambda>i. rb_slots r ! ((unat (rb_read r) + i) mod unat cap)) [0..<unat (SpscRing_occupied cap r)]"

text \<open>\<open>try_pop\<close> in the shape of the queue contract, for a default \<open>out\<close>.\<close>

definition ring_take :: "u32 \<Rightarrow> 'a \<Rightarrow> 'a SpscRing \<Rightarrow> ('a \<times> 'a SpscRing) option" where
  "ring_take cap d r =
     (case SpscRing_try_pop cap r d of (b, x, r') \<Rightarrow> if b then Some (x, r') else None)"

lemma valid_capacity_nat:
  assumes "valid_capacity cap"
  shows "2 \<le> unat cap" and "unat cap \<le> 2 ^ 31" and "unat cap dvd 2 ^ 32"
    and "unat (x AND kMask cap) = unat x mod unat cap"
proof -
  have c2: "cap \<ge> 2" and p2: "cap AND (cap - 1) = 0"
    using assms by (simp_all add: valid_capacity_def)
  then show two: "2 \<le> unat cap" by (simp add: word_le_nat_alt)
  then have ne: "cap \<noteq> 0" by (metis not_numeral_le_zero unsigned_0)
  show "unat (x AND kMask cap) = unat x mod unat cap"
    unfolding kMask_def by (rule unat_and_pred [OF ne p2])
  have "unat cap AND (unat cap - 1) = 0"
    using p2 by (metis ne unat_minus_one unsigned_and_eq unsigned_0)
  then obtain k where k: "unat cap = 2 ^ k" using and_pred_zero_pow2 two by force
  have "unat cap < 2 ^ 32" using unsigned_less [of cap] by simp
  with k have "k < 32" using power_less_imp_less_exp [of "2 :: nat" k 32] by simp
  with k show "unat cap \<le> 2 ^ 31" using power_increasing [of k 31 "2 :: nat"] by simp
  from k \<open>k < 32\<close> show "unat cap dvd 2 ^ 32"
    using le_imp_power_dvd [of k 32 "2 :: nat"] by simp
qed

lemma unat_succ_masked:
  assumes "valid_capacity cap" and "i < cap"
  shows "unat ((i + 1) AND kMask cap) = Suc (unat i) mod unat cap"
proof -
  have "Suc (unat i) < 2 ^ 32"
    using assms valid_capacity_nat(2) [OF assms(1)] by (simp add: word_less_nat_alt)
  then have "unat (i + 1) = Suc (unat i)"
    by (simp add: unat_word_ariths)
  then show ?thesis by (simp add: valid_capacity_nat(4) [OF assms(1)])
qed

text \<open>
  The occupancy is the one distance below a lap that leads from the read
  index to the write index.
\<close>

lemma occupied_nat:
  assumes "ring_wf cap r"
  shows "unat (SpscRing_occupied cap r) < unat cap"
    and "(unat (rb_read r) + unat (SpscRing_occupied cap r)) mod unat cap = unat (rb_write r)"
proof -
  define c where "c = unat cap"
  have vc: "valid_capacity cap" and w: "unat (rb_write r) < c" and rd: "unat (rb_read r) < c"
    using assms by (simp_all add: ring_wf_def c_def word_less_nat_alt)
  note cn = valid_capacity_nat [OF vc, folded c_def]
  have occ: "unat (SpscRing_occupied cap r) = unat (rb_write r - rb_read r) mod c"
    by (simp add: SpscRing_occupied_def cn)
  then show "unat (SpscRing_occupied cap r) < unat cap"
    using cn(1) by (simp add: c_def [symmetric])
  have "(unat (rb_read r) + unat (rb_write r - rb_read r)) mod 2 ^ 32 = unat (rb_write r)"
    using unat_word_ariths(1) [of "rb_read r" "rb_write r - rb_read r"] by simp
  then have "(unat (rb_read r) + unat (rb_write r - rb_read r)) mod c = unat (rb_write r) mod c"
    using mod_mod_cancel [OF cn(3), of "unat (rb_read r) + unat (rb_write r - rb_read r)"] by simp
  with w show "(unat (rb_read r) + unat (SpscRing_occupied cap r)) mod unat cap = unat (rb_write r)"
    by (simp add: occ c_def [symmetric] mod_add_right_eq)
qed

lemma occupied_unique:
  assumes "ring_wf cap r" and "n < unat cap"
    and "(unat (rb_read r) + n) mod unat cap = unat (rb_write r)"
  shows "unat (SpscRing_occupied cap r) = n"
proof -
  note occ = occupied_nat [OF assms(1)]
  have "(unat (rb_read r) + n) mod unat cap = (unat (rb_read r) + unat (SpscRing_occupied cap r)) mod unat cap"
    using assms(3) occ(2) by simp
  then show ?thesis
    using mod_eq_within_lap [of "unat (rb_read r) + n" "unat cap" "unat (rb_read r) + unat (SpscRing_occupied cap r)"]
      mod_eq_within_lap [of "unat (rb_read r) + unat (SpscRing_occupied cap r)" "unat cap" "unat (rb_read r) + n"]
      occ(1) assms(2) by linarith
qed

lemma length_ring_items [simp]: "length (ring_items cap r) = unat (SpscRing_occupied cap r)"
  by (simp add: ring_items_def)

lemma ring_empty_iff:
  assumes "ring_wf cap r"
  shows "rb_read r = rb_write r \<longleftrightarrow> ring_items cap r = []"
proof
  assume "rb_read r = rb_write r"
  then have "SpscRing_occupied cap r = 0" by (simp add: SpscRing_occupied_def)
  then show "ring_items cap r = []" by (simp add: ring_items_def)
next
  assume "ring_items cap r = []"
  then have "unat (SpscRing_occupied cap r) = 0" by (metis length_ring_items list.size(3))
  then have "unat (rb_write r) = unat (rb_read r) mod unat cap" using occupied_nat(2) [OF assms] by simp
  moreover have "unat (rb_read r) < unat cap" using assms by (simp add: ring_wf_def word_less_nat_alt)
  ultimately show "rb_read r = rb_write r" by (simp add: word_unat_eq_iff)
qed

lemma ring_full_iff:
  assumes "ring_wf cap r"
  shows "(rb_write r + 1) AND kMask cap = rb_read r \<longleftrightarrow> length (ring_items cap r) = unat cap - 1"
proof -
  define c n rd where "c = unat cap" and "n = unat (SpscRing_occupied cap r)" and "rd = unat (rb_read r)"
  have vc: "valid_capacity cap" and lt: "rb_write r < cap" and rdc: "rd < c"
    using assms by (auto simp: ring_wf_def rd_def c_def word_less_nat_alt)
  have n: "n < c" and w: "(rd + n) mod c = unat (rb_write r)"
    using occupied_nat [OF assms] by (simp_all add: n_def c_def rd_def)
  have "unat ((rb_write r + 1) AND kMask cap) = Suc (rd + n) mod c"
    using unat_succ_masked [OF vc lt] w by (simp add: c_def mod_Suc_eq flip: w)
  then have "(rb_write r + 1) AND kMask cap = rb_read r \<longleftrightarrow> (rd + Suc n) mod c = rd mod c"
    using rdc by (simp add: word_unat_eq_iff rd_def)
  also have "\<dots> \<longleftrightarrow> Suc n = c"
  proof (cases "Suc n = c")
    case True
    then show ?thesis by (simp only: mod_add_self2 simp_thms)
  next
    case False
    with n have "rd mod c \<noteq> (rd + Suc n) mod c" by (intro mod_neq_within_lap) simp_all
    with False show ?thesis by simp
  qed
  finally show ?thesis using n by (auto simp: n_def c_def)
qed

lemma ring_push_room:
  assumes wf: "ring_wf cap r" and room: "length (ring_items cap r) < unat cap - 1"
  shows "\<exists>r'. SpscRing_try_push cap v r = (True, r') \<and> ring_wf cap r' \<and>
    ring_items cap r' = ring_items cap r @ [v]"
proof -
  define c n rd where "c = unat cap" and "n = unat (SpscRing_occupied cap r)" and "rd = unat (rb_read r)"
  define r' where "r' = r\<lparr>rb_slots := (rb_slots r)[unat (rb_write r) := v],
    rb_write := (rb_write r + 1) AND kMask cap\<rparr>"
  have vc: "valid_capacity cap" and lt: "rb_write r < cap" and len: "length (rb_slots r) = c"
    using wf by (auto simp: ring_wf_def c_def)
  have n: "Suc n < c" and w: "(rd + n) mod c = unat (rb_write r)"
    using occupied_nat [OF wf] room by (simp_all add: n_def c_def rd_def)
  have push: "SpscRing_try_push cap v r = (True, r')"
    using ring_full_iff [OF wf] room by (auto simp: SpscRing_try_push_def Let_def r'_def)
  have nxt: "unat ((rb_write r + 1) AND kMask cap) = (rd + Suc n) mod c"
    using unat_succ_masked [OF vc lt] w by (simp add: c_def mod_Suc_eq flip: w)
  then have wf': "ring_wf cap r'"
    using wf n by (auto simp: ring_wf_def r'_def word_less_nat_alt c_def)
  have occ: "unat (SpscRing_occupied cap r') = Suc n"
    using occupied_unique [OF wf', of "Suc n"] n nxt by (simp add: r'_def c_def rd_def)
  have old: "unat (rb_write r) \<noteq> (rd + i) mod c" if "i < n" for i
    using mod_neq_within_lap [of "rd + i" "rd + n" c] that n w by simp
  have "map (\<lambda>i. rb_slots r' ! ((rd + i) mod c)) [0..<n] = map (\<lambda>i. rb_slots r ! ((rd + i) mod c)) [0..<n]"
    using old by (intro map_cong) (auto simp: r'_def)
  moreover have "rb_slots r' ! ((rd + n) mod c) = v"
    using w lt len by (simp add: r'_def c_def word_less_nat_alt)
  moreover have "rb_read r' = rb_read r" by (simp add: r'_def)
  ultimately have "ring_items cap r' = ring_items cap r @ [v]"
    by (simp add: ring_items_def occ n_def c_def rd_def)
  with push wf' show ?thesis by blast
qed

lemma ring_pop_first:
  assumes wf: "ring_wf cap r" and first: "ring_items cap r = x # xs"
  shows "\<exists>r'. SpscRing_try_pop cap r d = (True, x, r') \<and> ring_wf cap r' \<and> ring_items cap r' = xs"
proof -
  define c n rd where "c = unat cap" and "n = unat (SpscRing_occupied cap r)" and "rd = unat (rb_read r)"
  define r' where "r' = r\<lparr>rb_read := (rb_read r + 1) AND kMask cap\<rparr>"
  have vc: "valid_capacity cap" and lt: "rb_read r < cap"
    using wf by (auto simp: ring_wf_def)
  have n: "n < c" and w: "(rd + n) mod c = unat (rb_write r)"
    using occupied_nat [OF wf] by (simp_all add: n_def c_def rd_def)
  have "n = length (x # xs)" using first length_ring_items [of cap r] by (simp add: n_def)
  then obtain m where m: "n = Suc m" by simp
  have rd': "unat ((rb_read r + 1) AND kMask cap) = Suc rd mod c"
    using unat_succ_masked [OF vc lt] by (simp add: c_def rd_def)
  then have wf': "ring_wf cap r'"
    using wf n by (auto simp: ring_wf_def r'_def word_less_nat_alt c_def)
  have occ: "unat (SpscRing_occupied cap r') = m"
    using occupied_unique [OF wf', of m] n w rd' m
    by (simp add: r'_def c_def mod_add_left_eq)
  have items: "x # xs = map (\<lambda>i. rb_slots r ! ((rd + i) mod c)) [0..<Suc m]"
    using first by (simp add: ring_items_def n_def [symmetric] m c_def rd_def)
  have "map (\<lambda>i. rb_slots r ! ((rd + i) mod c)) [0..<Suc m] =
      rb_slots r ! rd # map (\<lambda>i. rb_slots r ! ((Suc rd + i) mod c)) [0..<m]"
    using lt by (simp add: upt_conv_Cons map_Suc_upt [symmetric] o_def c_def rd_def word_less_nat_alt
        del: upt_Suc)
  with items have x: "x = rb_slots r ! rd" and xs: "xs = map (\<lambda>i. rb_slots r ! ((Suc rd + i) mod c)) [0..<m]"
    by simp_all
  have "ring_items cap r' = xs"
    by (simp add: ring_items_def occ xs) (simp add: r'_def rd' c_def [symmetric] mod_add_left_eq)
  moreover have "SpscRing_try_pop cap r d = (True, x, r')"
    using ring_empty_iff [OF wf] first by (auto simp: SpscRing_try_pop_def Let_def r'_def x rd_def)
  ultimately show ?thesis using wf' by blast
qed

lemma valid_kRingCapacity [simp]: "valid_capacity kRingCapacity"
  by (simp add: valid_capacity_def kRingCapacity_def word_le_nat_alt)

lemma ring_wf_init: "valid_capacity cap \<Longrightarrow> ring_wf cap (SpscRing_init cap d)"
  using valid_capacity_nat(1) [of cap] by (simp add: ring_wf_def SpscRing_init_def word_less_nat_alt)

lemma ring_items_init [simp]: "ring_items cap (SpscRing_init cap d) = []"
  by (simp add: ring_items_def SpscRing_occupied_def SpscRing_init_def)

text \<open>Any valid ring meets the bounded queue contract with one slot kept free.\<close>

lemma ring_is_fifo:
  assumes "valid_capacity cap"
  shows "bounded_fifo (SpscRing_try_push cap) (ring_take cap d) (ring_items cap) (ring_wf cap) (unat cap - 1)"
proof unfold_locales
  fix q :: "'a SpscRing" and v x xs
  assume wf: "ring_wf cap q"
  show "length (ring_items cap q) \<le> unat cap - 1"
    using occupied_nat(1) [OF wf] by simp
  show "SpscRing_try_push cap v q = (False, q)" if "length (ring_items cap q) = unat cap - 1"
    using ring_full_iff [OF wf] that by (simp add: SpscRing_try_push_def)
  show "\<exists>q'. SpscRing_try_push cap v q = (True, q') \<and> ring_wf cap q' \<and> ring_items cap q' = ring_items cap q @ [v]"
    if "length (ring_items cap q) < unat cap - 1"
    using ring_push_room [OF wf that] .
  show "ring_take cap d q = None" if "ring_items cap q = []"
    using ring_empty_iff [OF wf] that by (simp add: ring_take_def SpscRing_try_pop_def)
  show "\<exists>q'. ring_take cap d q = Some (x, q') \<and> ring_wf cap q' \<and> ring_items cap q' = xs"
    if "ring_items cap q = x # xs"
    using ring_pop_first [OF wf that, of d] by (auto simp: ring_take_def)
qed

interpretation record_ring: bounded_fifo "SpscRing_try_push kRingCapacity"
  "ring_take kRingCapacity Record_default" "ring_items kRingCapacity" "ring_wf kRingCapacity"
  "unat kRingCapacity - 1"
  by (rule ring_is_fifo) simp

text \<open>
  (C19) The ring is a bounded queue: on a well-formed ring \<open>try_push\<close> succeeds
  exactly when fewer than \<open>Capacity - 1\<close> records are stored and appends the
  value, and is a no-op returning false otherwise; \<open>try_pop\<close> removes the
  oldest record, and on an empty ring returns false and leaves \<open>out\<close> and the
  ring unchanged; both keep the ring well formed.
\<close>

theorem ring_refines_queue:
  assumes "ring_wf cap r"
  shows "(\<exists>r'. SpscRing_try_push cap v r = (length (ring_items cap r) < unat cap - 1, r') \<and> ring_wf cap r' \<and>
      ring_items cap r' = (if length (ring_items cap r) < unat cap - 1 then ring_items cap r @ [v] else ring_items cap r)) \<and>
    (\<exists>r'. SpscRing_try_pop cap r out =
        (ring_items cap r \<noteq> [], case ring_items cap r of [] \<Rightarrow> out | x # xs \<Rightarrow> x, r') \<and>
      ring_wf cap r' \<and> ring_items cap r' = tl (ring_items cap r))"
proof -
  have "bounded_fifo (SpscRing_try_push cap) (ring_take cap out) (ring_items cap) (ring_wf cap) (unat cap - 1)"
    using assms by (intro ring_is_fifo) (simp add: ring_wf_def)
  note fifo = bounded_fifo.items_bounded [OF this assms] bounded_fifo.push_full [OF this assms]
    bounded_fifo.push_room [OF this assms]
  have push: "\<exists>r'. SpscRing_try_push cap v r = (length (ring_items cap r) < unat cap - 1, r') \<and> ring_wf cap r' \<and>
      ring_items cap r' = (if length (ring_items cap r) < unat cap - 1 then ring_items cap r @ [v] else ring_items cap r)"
    using fifo assms by (cases "length (ring_items cap r) < unat cap - 1") auto
  have pop: "\<exists>r'. SpscRing_try_pop cap r out =
        (ring_items cap r \<noteq> [], case ring_items cap r of [] \<Rightarrow> out | x # xs \<Rightarrow> x, r') \<and>
      ring_wf cap r' \<and> ring_items cap r' = tl (ring_items cap r)"
  proof (cases "ring_items cap r")
    case Nil
    then show ?thesis using ring_empty_iff [OF assms] assms by (simp add: SpscRing_try_pop_def)
  next
    case (Cons x xs)
    then show ?thesis using ring_pop_first [OF assms Cons, of out] by auto
  qed
  from push pop show ?thesis ..
qed

theorem ring_refines_queue_witness:
  "\<exists>r'. SpscRing_try_push kRingCapacity Record_default (SpscRing_init kRingCapacity Record_default) = (True, r') \<and>
     ring_items kRingCapacity r' = [Record_default]"
  using ring_refines_queue [OF ring_wf_init [OF valid_kRingCapacity, of Record_default], of Record_default Record_default]
  by (auto simp: kRingCapacity_def)


section \<open>The ring under concurrency\<close>

text \<open>
  Program counters. A producer inside \<open>try_push(v)\<close> has loaded its own index
  (\<open>PHave\<close>), has passed the full test (\<open>PWrite\<close>), has written the slot and is
  about to release the new index (\<open>PStore\<close>); the consumer likewise.
\<close>

datatype 'a ring_producer = PIdle | PHave 'a u32 | PWrite 'a u32 u32 | PStore 'a u32

datatype 'a ring_consumer = CIdle | CHave u32 | CRead u32 | CStore 'a u32

text \<open>
  \<open>pushed\<close> and \<open>popped\<close> record the values whose index store has happened;
  \<open>seen_read\<close> and \<open>seen_write\<close> are how far each side has observed the other.
\<close>

record 'a ring_sys =
  rmem :: "'a SpscRing"
  prod :: "'a ring_producer"
  cons :: "'a ring_consumer"
  seen_read :: nat
  seen_write :: nat
  pushed :: "'a list"
  popped :: "'a list"

text \<open>The value an index holds after \<open>k\<close> increments.\<close>

definition idx :: "u32 \<Rightarrow> nat \<Rightarrow> u32" where
  "idx cap k = of_nat (k mod unat cap)"

definition ring_start :: "u32 \<Rightarrow> 'a \<Rightarrow> 'a ring_sys" where
  "ring_start cap d = \<lparr>rmem = SpscRing_init cap d, prod = PIdle, cons = CIdle,
     seen_read = 0, seen_write = 0, pushed = [], popped = []\<rparr>"

text \<open>
  One rule per atomic access of \<open>try_push\<close> and \<open>try_pop\<close>. An acquire load of
  the other index returns the value at some point \<open>k\<close> of its modification
  order, not before the point already seen and not after the current one.
\<close>

inductive ring_step :: "u32 \<Rightarrow> 'a ring_sys \<Rightarrow> 'a ring_sys \<Rightarrow> bool" for cap where
  p_load_own: "prod s = PIdle \<Longrightarrow>
    ring_step cap s (s\<lparr>prod := PHave v (rb_write (rmem s))\<rparr>)"
| p_full: "prod s = PHave v w \<Longrightarrow> seen_read s \<le> k \<Longrightarrow> k \<le> length (popped s) \<Longrightarrow>
    (w + 1) AND kMask cap = idx cap k \<Longrightarrow>
    ring_step cap s (s\<lparr>prod := PIdle, seen_read := k\<rparr>)"
| p_room: "prod s = PHave v w \<Longrightarrow> seen_read s \<le> k \<Longrightarrow> k \<le> length (popped s) \<Longrightarrow>
    (w + 1) AND kMask cap \<noteq> idx cap k \<Longrightarrow>
    ring_step cap s (s\<lparr>prod := PWrite v w ((w + 1) AND kMask cap), seen_read := k\<rparr>)"
| p_slot: "prod s = PWrite v w nxt \<Longrightarrow>
    ring_step cap s (s\<lparr>rmem := (rmem s)\<lparr>rb_slots := (rb_slots (rmem s))[unat w := v]\<rparr>,
      prod := PStore v nxt\<rparr>)"
| p_release: "prod s = PStore v nxt \<Longrightarrow>
    ring_step cap s (s\<lparr>rmem := (rmem s)\<lparr>rb_write := nxt\<rparr>, prod := PIdle, pushed := pushed s @ [v]\<rparr>)"
| c_load_own: "cons s = CIdle \<Longrightarrow>
    ring_step cap s (s\<lparr>cons := CHave (rb_read (rmem s))\<rparr>)"
| c_empty: "cons s = CHave rd \<Longrightarrow> seen_write s \<le> k \<Longrightarrow> k \<le> length (pushed s) \<Longrightarrow>
    rd = idx cap k \<Longrightarrow>
    ring_step cap s (s\<lparr>cons := CIdle, seen_write := k\<rparr>)"
| c_data: "cons s = CHave rd \<Longrightarrow> seen_write s \<le> k \<Longrightarrow> k \<le> length (pushed s) \<Longrightarrow>
    rd \<noteq> idx cap k \<Longrightarrow>
    ring_step cap s (s\<lparr>cons := CRead rd, seen_write := k\<rparr>)"
| c_slot: "cons s = CRead rd \<Longrightarrow>
    ring_step cap s (s\<lparr>cons := CStore (rb_slots (rmem s) ! unat rd) rd\<rparr>)"
| c_release: "cons s = CStore x rd \<Longrightarrow>
    ring_step cap s (s\<lparr>rmem := (rmem s)\<lparr>rb_read := (rd + 1) AND kMask cap\<rparr>, cons := CIdle,
      popped := popped s @ [x]\<rparr>)"

text \<open>
  The invariant. Shared memory: the indexes are the counts, the consumer is
  never ahead, the producer never laps what it has seen, and every record in
  flight sits in its slot.
\<close>

definition ring_mem_inv :: "u32 \<Rightarrow> 'a ring_sys \<Rightarrow> bool" where
  "ring_mem_inv cap s \<longleftrightarrow> valid_capacity cap \<and> length (rb_slots (rmem s)) = unat cap \<and>
     rb_write (rmem s) = idx cap (length (pushed s)) \<and> rb_read (rmem s) = idx cap (length (popped s)) \<and>
     length (popped s) \<le> seen_write s \<and> seen_write s \<le> length (pushed s) \<and>
     seen_read s \<le> length (popped s) \<and> length (pushed s) < seen_read s + unat cap \<and>
     take (length (popped s)) (pushed s) = popped s \<and>
     (\<forall>i. length (popped s) \<le> i \<longrightarrow> i < length (pushed s) \<longrightarrow>
        rb_slots (rmem s) ! (i mod unat cap) = pushed s ! i)"

fun ring_prod_inv :: "u32 \<Rightarrow> 'a ring_sys \<Rightarrow> 'a ring_producer \<Rightarrow> bool" where
  "ring_prod_inv cap s PIdle = True"
| "ring_prod_inv cap s (PHave v w) = (w = idx cap (length (pushed s)))"
| "ring_prod_inv cap s (PWrite v w nxt) =
     (w = idx cap (length (pushed s)) \<and> nxt = idx cap (Suc (length (pushed s))) \<and>
      Suc (length (pushed s)) < seen_read s + unat cap)"
| "ring_prod_inv cap s (PStore v nxt) =
     (nxt = idx cap (Suc (length (pushed s))) \<and> Suc (length (pushed s)) < seen_read s + unat cap \<and>
      rb_slots (rmem s) ! (length (pushed s) mod unat cap) = v)"

fun ring_cons_inv :: "u32 \<Rightarrow> 'a ring_sys \<Rightarrow> 'a ring_consumer \<Rightarrow> bool" where
  "ring_cons_inv cap s CIdle = True"
| "ring_cons_inv cap s (CHave rd) = (rd = idx cap (length (popped s)))"
| "ring_cons_inv cap s (CRead rd) =
     (rd = idx cap (length (popped s)) \<and> length (popped s) < seen_write s)"
| "ring_cons_inv cap s (CStore x rd) =
     (rd = idx cap (length (popped s)) \<and> length (popped s) < seen_write s \<and>
      x = pushed s ! length (popped s))"

definition ring_inv :: "u32 \<Rightarrow> 'a ring_sys \<Rightarrow> bool" where
  "ring_inv cap s \<longleftrightarrow> ring_mem_inv cap s \<and> ring_prod_inv cap s (prod s) \<and> ring_cons_inv cap s (cons s)"

lemma unat_idx:
  assumes "valid_capacity cap"
  shows "unat (idx cap k) = k mod unat cap"
proof -
  have "k mod unat cap < unat cap" using valid_capacity_nat(1) [OF assms] by simp
  then have "k mod unat cap < 2 ^ 32" using valid_capacity_nat(2) [OF assms] by simp
  then show ?thesis by (simp add: idx_def unat_of_nat)
qed

lemma idx_succ:
  assumes "valid_capacity cap"
  shows "(idx cap k + 1) AND kMask cap = idx cap (Suc k)"
proof -
  have "idx cap k < cap"
    using valid_capacity_nat(1) [OF assms] by (simp add: word_less_nat_alt unat_idx [OF assms])
  then show ?thesis
    using unat_succ_masked [OF assms, of "idx cap k"]
    by (simp add: word_unat_eq_iff unat_idx [OF assms] mod_Suc_eq)
qed

lemma idx_lap: "idx cap (k + unat cap) = idx cap k"
  by (simp add: idx_def)

lemma ring_inv_start: "valid_capacity cap \<Longrightarrow> ring_inv cap (ring_start cap d)"
  using valid_capacity_nat(1) [of cap]
  by (simp add: ring_inv_def ring_mem_inv_def ring_start_def SpscRing_init_def idx_def)

lemma ring_inv_room:
  assumes "ring_inv cap s" and "prod s = PHave v w" and "seen_read s \<le> k" and "k \<le> length (popped s)"
    and "(w + 1) AND kMask cap \<noteq> idx cap k"
  shows "Suc (length (pushed s)) < k + unat cap"
proof -
  have vc: "valid_capacity cap" and w: "w = idx cap (length (pushed s))"
    and lt: "length (pushed s) < seen_read s + unat cap"
    using assms(1,2) by (auto simp: ring_inv_def ring_mem_inv_def)
  from assms(5) have "Suc (length (pushed s)) \<noteq> k + unat cap"
    using idx_succ [OF vc] idx_lap [of cap k] by (auto simp: w)
  with lt assms(3) show ?thesis by simp
qed

lemma ring_slot_kept:
  assumes "ring_inv cap s" and "prod s = PWrite v w nxt"
    and "length (popped s) \<le> i" and "i < length (pushed s)"
  shows "(rb_slots (rmem s))[unat w := v] ! (i mod unat cap) = pushed s ! i"
proof -
  have vc: "valid_capacity cap" and w: "w = idx cap (length (pushed s))"
    and lt: "Suc (length (pushed s)) < length (popped s) + unat cap"
    and slot: "rb_slots (rmem s) ! (i mod unat cap) = pushed s ! i"
    using assms by (auto simp: ring_inv_def ring_mem_inv_def)
  have "i mod unat cap \<noteq> length (pushed s) mod unat cap"
    using assms(3,4) lt by (intro mod_neq_within_lap) auto
  then show ?thesis using slot by (simp add: w unat_idx [OF vc])
qed

lemma ring_inv_step:
  assumes "ring_inv cap s" and "ring_step cap s t"
  shows "ring_inv cap t"
  using assms(2)
proof cases
  case (p_full v w k)
  with assms(1) show ?thesis by (cases "cons s") (auto simp: ring_inv_def ring_mem_inv_def)
next
  case (p_room v w k)
  then show ?thesis
    using assms(1) ring_inv_room [OF assms(1) p_room(2-5)] idx_succ [of cap]
    by (cases "cons s") (auto simp: ring_inv_def ring_mem_inv_def)
next
  case (p_slot v w nxt)
  then show ?thesis
    using assms(1) ring_slot_kept [OF assms(1) p_slot(2)] valid_capacity_nat(1) [of cap]
    by (cases "cons s") (auto simp: ring_inv_def ring_mem_inv_def unat_idx)
next
  case (p_release v nxt)
  with assms(1) show ?thesis
    by (cases "cons s") (auto simp: ring_inv_def ring_mem_inv_def nth_append less_Suc_eq)
next
  case (c_empty rd k)
  with assms(1) show ?thesis by (cases "prod s") (auto simp: ring_inv_def ring_mem_inv_def)
next
  case (c_data rd k)
  with assms(1) have "rd = idx cap (length (popped s))" "length (popped s) \<le> seen_write s"
    by (auto simp: ring_inv_def ring_mem_inv_def)
  with c_data have "length (popped s) < k" by (cases "length (popped s) = k") auto
  with c_data assms(1) show ?thesis by (cases "prod s") (auto simp: ring_inv_def ring_mem_inv_def)
next
  case (c_slot rd)
  with assms(1) show ?thesis by (cases "prod s") (auto simp: ring_inv_def ring_mem_inv_def unat_idx)
next
  case (c_release x rd)
  with assms(1) show ?thesis
    using idx_succ [of cap]
    by (cases "prod s") (auto simp: ring_inv_def ring_mem_inv_def take_Suc_conv_app_nth)
next
  case (p_load_own v)
  with assms(1) show ?thesis by (cases "cons s") (auto simp: ring_inv_def ring_mem_inv_def)
next
  case c_load_own
  with assms(1) show ?thesis by (cases "prod s") (auto simp: ring_inv_def ring_mem_inv_def)
qed

interpretation record_ring_machine: step_machine "\<lambda>s. s = ring_start kRingCapacity Record_default"
  "ring_step kRingCapacity" "ring_inv kRingCapacity"
  by unfold_locales (auto intro: ring_inv_start ring_inv_step)

text \<open>A run in which both sides stand right before their slot accesses, one record in flight.\<close>

lemma ring_demo_run:
  "\<exists>s. (ring_step kRingCapacity)\<^sup>*\<^sup>* (ring_start kRingCapacity Record_default) s \<and>
     pushed s = [Record_default] \<and> popped s = [] \<and>
     prod s = PWrite Record_default 1 2 \<and> cons s = CRead 0"
proof -
  define s0 where "s0 = ring_start kRingCapacity Record_default"
  define s1 where "s1 = s0\<lparr>prod := PHave Record_default (rb_write (rmem s0))\<rparr>"
  define s2 where "s2 = s1\<lparr>prod := PWrite Record_default 0 ((0 + 1) AND kMask kRingCapacity), seen_read := 0\<rparr>"
  define s3 where "s3 = s2\<lparr>rmem := (rmem s2)\<lparr>rb_slots := (rb_slots (rmem s2))[unat (0 :: u32) := Record_default]\<rparr>,
    prod := PStore Record_default 1\<rparr>"
  define s4 where "s4 = s3\<lparr>rmem := (rmem s3)\<lparr>rb_write := 1\<rparr>, prod := PIdle, pushed := pushed s3 @ [Record_default]\<rparr>"
  define s5 where "s5 = s4\<lparr>prod := PHave Record_default (rb_write (rmem s4))\<rparr>"
  define s6 where "s6 = s5\<lparr>prod := PWrite Record_default 1 ((1 + 1) AND kMask kRingCapacity), seen_read := 0\<rparr>"
  define s7 where "s7 = s6\<lparr>cons := CHave (rb_read (rmem s6))\<rparr>"
  define s8 where "s8 = s7\<lparr>cons := CRead 0, seen_write := 1\<rparr>"
  note defs = s1_def s2_def s3_def s4_def s5_def s6_def s7_def s8_def s0_def ring_start_def
    SpscRing_init_def kMask_def kRingCapacity_def idx_def
  have "ring_step kRingCapacity s0 s1" unfolding s1_def by (rule p_load_own) (simp add: defs)
  moreover have "ring_step kRingCapacity s1 s2" unfolding s2_def by (rule p_room) (simp_all add: defs)
  moreover have "ring_step kRingCapacity s2 s3" unfolding s3_def by (rule p_slot) (simp add: defs)
  moreover have "ring_step kRingCapacity s3 s4" unfolding s4_def by (rule p_release) (simp add: defs)
  moreover have "ring_step kRingCapacity s4 s5" unfolding s5_def by (rule p_load_own) (simp add: defs)
  moreover have "ring_step kRingCapacity s5 s6" unfolding s6_def by (rule p_room) (simp_all add: defs)
  moreover have "ring_step kRingCapacity s6 s7" unfolding s7_def by (rule c_load_own) (simp add: defs)
  moreover have "ring_step kRingCapacity s7 s8" unfolding s8_def by (rule c_data) (simp_all add: defs)
  ultimately have "step_path (ring_step kRingCapacity) s0 [s1, s2, s3, s4, s5, s6, s7, s8]" by simp
  then have "(ring_step kRingCapacity)\<^sup>*\<^sup>* s0 s8" using step_path_run by fastforce
  then show ?thesis unfolding s0_def [symmetric] by (rule exI [of _ s8, OF conjI]) (simp add: defs)
qed

text \<open>
  (C6) Under every interleaving of one producer and one consumer, and with
  index loads that may lag behind, the record ring neither loses, duplicates
  nor reorders: what has been popped is a prefix of what has been pushed, the
  rest is in the slots in order, and at most 1023 records are in flight.
\<close>

theorem ring_concurrent_fifo:
  assumes "(ring_step kRingCapacity)\<^sup>*\<^sup>* (ring_start kRingCapacity Record_default) s"
  shows "pushed s = popped s @ map (\<lambda>i. rb_slots (rmem s) ! (i mod 1024)) [length (popped s)..<length (pushed s)] \<and>
    length (pushed s) - length (popped s) \<le> 1023"
proof -
  from assms have inv: "ring_inv kRingCapacity s" by (rule record_ring_machine.inv_reachable [OF refl])
  then have cap: "take (length (popped s)) (pushed s) = popped s"
    "length (popped s) \<le> length (pushed s)" "length (pushed s) < length (popped s) + 1024"
    and slot: "\<And>i. length (popped s) \<le> i \<Longrightarrow> i < length (pushed s) \<Longrightarrow>
      rb_slots (rmem s) ! (i mod 1024) = pushed s ! i"
    by (auto simp: ring_inv_def ring_mem_inv_def kRingCapacity_def)
  have "map (\<lambda>i. rb_slots (rmem s) ! (i mod 1024)) [length (popped s)..<length (pushed s)] =
      map ((!) (pushed s)) [length (popped s)..<length (pushed s)]"
    using slot by (intro map_cong) auto
  also have "\<dots> = drop (length (popped s)) (pushed s)"
    using drop_map [of "length (popped s)" "(!) (pushed s)" "[0..<length (pushed s)]"] by (simp add: map_nth)
  finally show ?thesis using cap append_take_drop_id [of "length (popped s)" "pushed s"] by simp
qed

theorem ring_concurrent_fifo_witness:
  "\<exists>s. (ring_step kRingCapacity)\<^sup>*\<^sup>* (ring_start kRingCapacity Record_default) s \<and>
     pushed s = [Record_default] \<and>
     pushed s = popped s @ map (\<lambda>i. rb_slots (rmem s) ! (i mod 1024)) [length (popped s)..<length (pushed s)]"
  using ring_demo_run ring_concurrent_fifo by blast

text \<open>
  No data race on the slots: whenever the producer is about to write a
  slot and the consumer is about to read one, they are different slots inside
  the array.
\<close>

theorem ring_race_free:
  assumes "(ring_step kRingCapacity)\<^sup>*\<^sup>* (ring_start kRingCapacity Record_default) s"
    and "prod s = PWrite v w nxt" and "cons s = CRead rd"
  shows "unat w \<noteq> unat rd \<and> unat w < length (rb_slots (rmem s)) \<and> unat rd < length (rb_slots (rmem s))"
proof -
  from assms(1) have inv: "ring_inv kRingCapacity s" by (rule record_ring_machine.inv_reachable [OF refl])
  then have idxs: "w = idx kRingCapacity (length (pushed s))" "rd = idx kRingCapacity (length (popped s))"
    and lt: "length (popped s) < length (pushed s)" "length (pushed s) < length (popped s) + unat kRingCapacity"
    and len: "length (rb_slots (rmem s)) = unat kRingCapacity"
    using assms(2,3) by (auto simp: ring_inv_def ring_mem_inv_def)
  from lt have "length (popped s) mod unat kRingCapacity \<noteq> length (pushed s) mod unat kRingCapacity"
    by (rule mod_neq_within_lap)
  then show ?thesis by (simp add: idxs unat_idx len) (simp add: kRingCapacity_def)
qed

theorem ring_race_free_witness:
  "\<exists>s. (ring_step kRingCapacity)\<^sup>*\<^sup>* (ring_start kRingCapacity Record_default) s \<and>
     prod s = PWrite Record_default 1 2 \<and> cons s = CRead 0 \<and>
     unat (1 :: u32) < length (rb_slots (rmem s)) \<and> unat (0 :: u32) < length (rb_slots (rmem s))"
  using ring_demo_run ring_race_free by blast

end
