(* ===== verification/Seqlock.thy ===== *)
theory Seqlock
  imports Types
begin

text \<open>
  \<^verbatim>\<open>include/ratehub/seqlock.hpp\<close>. A payload is its image in 64-bit words; the
  copy through \<^verbatim>\<open>memcpy\<close> is a pair of functions between a value and its words,
  given below for the two payload types of the program with the struct layout
  of a little-endian 64-bit host. The first part is \<open>publish\<close> and \<open>load\<close> run
  to completion; the second part interleaves one writer and one reader at
  every atomic access, each access taking effect at once (the release and
  acquire fences of the source forbid the reorderings this excludes).
\<close>

section \<open>Payload images\<close>

text \<open>Two 32-bit fields share a word, the first one in the lower half.\<close>

definition word_pair :: "u32 \<Rightarrow> u32 \<Rightarrow> u64" where
  "word_pair lo hi = ucast lo OR push_bit 32 (ucast hi)"

definition word_lo :: "u64 \<Rightarrow> u32" where "word_lo w = ucast w"

definition word_hi :: "u64 \<Rightarrow> u32" where "word_hi w = ucast (drop_bit 32 w)"

definition SourceState_words :: "SourceState \<Rightarrow> u64 list" where
  "SourceState_words s =
     [word_pair (s_pos_x s) (s_pos_y s), word_pair (s_vel_x s) (s_vel_y s),
      word_pair (s_sequence s) (s_publishes s), s_time_ns s, word_pair (s_valid s) 0]"

definition SourceState_of_words :: "u64 list \<Rightarrow> SourceState" where
  "SourceState_of_words ws = \<lparr>s_pos_x = word_lo (ws ! 0), s_pos_y = word_hi (ws ! 0),
     s_vel_x = word_lo (ws ! 1), s_vel_y = word_hi (ws ! 1),
     s_sequence = word_lo (ws ! 2), s_publishes = word_hi (ws ! 2),
     s_time_ns = ws ! 3, s_valid = word_lo (ws ! 4)\<rparr>"

definition WindowState_words :: "WindowState \<Rightarrow> u64 list" where
  "WindowState_words w =
     [word_pair (w_pos_x w) (w_pos_y w), word_pair (w_sequence w) (w_publishes w)]"

definition WindowState_of_words :: "u64 list \<Rightarrow> WindowState" where
  "WindowState_of_words ws = \<lparr>w_pos_x = word_lo (ws ! 0), w_pos_y = word_hi (ws ! 0),
     w_sequence = word_lo (ws ! 1), w_publishes = word_hi (ws ! 1)\<rparr>"

text \<open>\<open>kWords = (sizeof(T) + 7) / 8\<close> for the two types (40 and 16 bytes).\<close>

definition kWords_of_bytes :: "nat \<Rightarrow> nat" where
  "kWords_of_bytes sz = (sz + 8 - 1) div 8"

section \<open>The lock\<close>

record Seqlock =
  sl_seq :: u32
  sl_words :: "u64 list"

definition Seqlock_init :: "nat \<Rightarrow> Seqlock" where
  "Seqlock_init kWords = \<lparr>sl_seq = 0, sl_words = replicate kWords 0\<rparr>"

fun store_words :: "nat list \<Rightarrow> u64 list \<Rightarrow> Seqlock \<Rightarrow> Seqlock" where
  "store_words [] raw s = s"
| "store_words (i # is) raw s = store_words is raw (s\<lparr>sl_words := (sl_words s)[i := raw ! i]\<rparr>)"

definition Seqlock_publish :: "('a \<Rightarrow> u64 list) \<Rightarrow> 'a \<Rightarrow> Seqlock \<Rightarrow> Seqlock" where
  "Seqlock_publish to_words v s =
     (let raw = to_words v;
          seq = sl_seq s;
          s = s\<lparr>sl_seq := seq + 1\<rparr>;
          s = store_words [0..<length (sl_words s)] raw s
      in s\<lparr>sl_seq := seq + 2\<rparr>)"

text \<open>The attempt loop; the first argument counts the attempts left.\<close>

fun Seqlock_load_loop :: "nat \<Rightarrow> (u64 list \<Rightarrow> 'a) \<Rightarrow> Seqlock \<Rightarrow> 'a \<Rightarrow> bool \<times> 'a" where
  "Seqlock_load_loop 0 of_words s out = (False, out)"
| "Seqlock_load_loop (Suc left) of_words s out =
     (let begin = sl_seq s in
      if begin AND 1 \<noteq> 0 then Seqlock_load_loop left of_words s out
      else let raw = map (\<lambda>i. sl_words s ! i) [0..<length (sl_words s)];
               end = sl_seq s
           in if begin = end then (True, of_words raw)
              else Seqlock_load_loop left of_words s out)"

definition Seqlock_load :: "(u64 list \<Rightarrow> 'a) \<Rightarrow> Seqlock \<Rightarrow> 'a \<Rightarrow> bool \<times> 'a" where
  "Seqlock_load of_words s out = Seqlock_load_loop 64 of_words s out"

section \<open>Contract of a latest-value cell\<close>

locale payload_image =
  fixes to_words :: "'a \<Rightarrow> u64 list"
    and of_words :: "u64 list \<Rightarrow> 'a"
    and kWords :: nat
    and dflt :: 'a
  assumes words_length: "length (to_words v) = kWords"
    and words_inverse: "of_words (to_words v) = v"
    and words_zero: "of_words (replicate kWords 0) = dflt"

text \<open>What a client of the lock relies on: a stable cell always yields its value.\<close>

locale latest_value_cell =
  fixes publish :: "'a \<Rightarrow> 'c \<Rightarrow> 'c"
    and load :: "'c \<Rightarrow> 'a \<Rightarrow> bool \<times> 'a"
    and cell_value :: "'c \<Rightarrow> 'a"
    and stable :: "'c \<Rightarrow> bool"
  assumes load_value: "stable c \<Longrightarrow> load c out = (True, cell_value c)"
    and publish_value: "stable c \<Longrightarrow> cell_value (publish v c) = v"
    and publish_stable: "stable c \<Longrightarrow> stable (publish v c)"
begin

lemma publish_all_stable: "stable c \<Longrightarrow> stable (fold publish vs c)"
  by (induction vs arbitrary: c) (simp_all add: publish_stable)

lemma publish_all_value: "stable c \<Longrightarrow> cell_value (fold publish vs c) = last (cell_value c # vs)"
  by (induction vs arbitrary: c) (simp_all add: publish_stable publish_value)

text \<open>A reader sees the latest of any sequence of publishes.\<close>

lemma load_after_publishes:
  "stable c \<Longrightarrow> load (fold publish vs c) out = (True, last (cell_value c # vs))"
  by (simp add: load_value publish_all_stable publish_all_value)

end

definition seqlock_stable :: "nat \<Rightarrow> Seqlock \<Rightarrow> bool" where
  "seqlock_stable kWords s \<longleftrightarrow> length (sl_words s) = kWords \<and> sl_seq s AND 1 = 0"

lemma store_words_all:
  assumes "length raw = length (sl_words s)"
  shows "store_words [0..<length (sl_words s)] raw s = s\<lparr>sl_words := raw\<rparr>"
proof -
  have "store_words [i..<n] raw t = t\<lparr>sl_words := take i (sl_words t) @ drop i raw\<rparr>"
    if "n - i = k" "length raw = n" "length (sl_words t) = n" "i \<le> n" for i n k t
    using that
  proof (induction k arbitrary: i t)
    case 0
    then show ?case by simp
  next
    case (Suc k)
    then have "i < n" by simp
    define t' where "t' = t\<lparr>sl_words := (sl_words t)[i := raw ! i]\<rparr>"
    have "store_words [i..<n] raw t = store_words [Suc i..<n] raw t'"
      using \<open>i < n\<close> by (simp add: upt_conv_Cons t'_def)
    also have "\<dots> = t'\<lparr>sl_words := take (Suc i) (sl_words t') @ drop (Suc i) raw\<rparr>"
      using Suc.prems \<open>i < n\<close> by (intro Suc.IH) (simp_all add: t'_def)
    also have "\<dots> = t\<lparr>sl_words := take i (sl_words t) @ drop i raw\<rparr>"
      using Suc.prems \<open>i < n\<close>
      by (simp add: t'_def take_Suc_conv_app_nth Cons_nth_drop_Suc)
    finally show ?case .
  qed
  from this [of "length (sl_words s)" 0 "length (sl_words s)" s] assms show ?thesis by simp
qed

lemma seqlock_load_stable:
  "seqlock_stable k s \<Longrightarrow> Seqlock_load of_words s out = (True, of_words (sl_words s))"
  unfolding Seqlock_load_def seqlock_stable_def
  by (subst numeral_eq_Suc, subst Seqlock_load_loop.simps)
    (auto simp: Let_def map_nth [of "sl_words s", simplified])

lemma seqlock_load_odd_loop:
  "sl_seq s AND 1 \<noteq> 0 \<Longrightarrow> Seqlock_load_loop n of_words s out = (False, out)"
  by (induction n) simp_all

context payload_image
begin

lemma publish_eq:
  "length (sl_words s) = kWords \<Longrightarrow>
     Seqlock_publish to_words v s = \<lparr>sl_seq = sl_seq s + 2, sl_words = to_words v\<rparr>"
  using store_words_all [of "to_words v" "s\<lparr>sl_seq := sl_seq s + 1\<rparr>"]
  by (simp add: Seqlock_publish_def words_length)

lemma even_plus_two: "even (unat (x + 2 :: u32)) = even (unat x)"
  by (simp add: unat_word_ariths dvd_mod_iff)

sublocale cell: latest_value_cell "Seqlock_publish to_words" "Seqlock_load of_words"
  "\<lambda>s. of_words (sl_words s)" "seqlock_stable kWords"
  by unfold_locales
    (auto simp: seqlock_load_stable publish_eq seqlock_stable_def words_inverse words_length
      and_one_even even_plus_two)

end

lemma word_pair_parts [simp]:
  "word_lo (word_pair a b) = a" "word_hi (word_pair a b) = b"
  "word_lo 0 = 0" "word_hi 0 = 0"
  by (auto simp: word_lo_def word_hi_def word_pair_def bit_simps intro!: bit_word_eqI)

interpretation source_cell: payload_image SourceState_words SourceState_of_words
  "kWords_of_bytes 40" SourceState_default
  by unfold_locales (simp_all add: SourceState_words_def SourceState_of_words_def kWords_of_bytes_def
      SourceState_default_def)

interpretation window_cell: payload_image WindowState_words WindowState_of_words
  "kWords_of_bytes 16" WindowState_default
  by unfold_locales (simp_all add: WindowState_words_def WindowState_of_words_def kWords_of_bytes_def
      WindowState_default_def)

section \<open>One writer and one reader, access by access\<close>

text \<open>
  The writer inside \<open>publish\<close> has loaded the sequence (\<open>WLoaded\<close>) or is
  storing word \<open>i\<close> between the odd and the even store (\<open>WCopy\<close>). The reader
  inside \<open>load\<close> is at the start of an attempt, or has loaded \<open>begin\<close> and some of
  the words; the third component of \<open>RCopy\<close> and the last two of \<open>RGot\<close> only
  remember how many publishes were complete at the \<open>begin\<close> and at the \<open>end\<close>
  load.
\<close>

datatype sl_writer = WIdle | WLoaded "u64 list" u32 | WCopy "u64 list" u32 nat

datatype sl_reader = RIdle | RBegin nat | RCopy nat u32 nat "u64 list" | RFail
  | RGot "u64 list" nat nat

record sl_sys =
  sl_mem :: Seqlock
  sl_w :: sl_writer
  sl_r :: sl_reader
  sl_done :: "u64 list list"

definition sl_start :: "nat \<Rightarrow> sl_sys" where
  "sl_start kWords = \<lparr>sl_mem = Seqlock_init kWords, sl_w = WIdle, sl_r = RIdle, sl_done = []\<rparr>"

text \<open>The payload after the first \<open>k\<close> publishes; zero words before the first.\<close>

definition sl_value :: "nat \<Rightarrow> sl_sys \<Rightarrow> nat \<Rightarrow> u64 list" where
  "sl_value kWords s k = (replicate kWords 0 # sl_done s) ! k"

inductive sl_write_step :: "nat \<Rightarrow> sl_sys \<Rightarrow> sl_sys \<Rightarrow> bool" for kWords where
  w_load: "sl_w s = WIdle \<Longrightarrow> length raw = kWords \<Longrightarrow>
    sl_write_step kWords s (s\<lparr>sl_w := WLoaded raw (sl_seq (sl_mem s))\<rparr>)"
| w_odd: "sl_w s = WLoaded raw seq \<Longrightarrow>
    sl_write_step kWords s (s\<lparr>sl_mem := (sl_mem s)\<lparr>sl_seq := seq + 1\<rparr>, sl_w := WCopy raw seq 0\<rparr>)"
| w_word: "sl_w s = WCopy raw seq i \<Longrightarrow> i < kWords \<Longrightarrow>
    sl_write_step kWords s (s\<lparr>sl_mem := (sl_mem s)\<lparr>sl_words := (sl_words (sl_mem s))[i := raw ! i]\<rparr>,
      sl_w := WCopy raw seq (Suc i)\<rparr>)"
| w_even: "sl_w s = WCopy raw seq i \<Longrightarrow> i = kWords \<Longrightarrow>
    sl_write_step kWords s (s\<lparr>sl_mem := (sl_mem s)\<lparr>sl_seq := seq + 2\<rparr>, sl_w := WIdle,
      sl_done := sl_done s @ [raw]\<rparr>)"

text \<open>The next attempt, or \<open>return false\<close> after the 64th.\<close>

definition sl_retry :: "nat \<Rightarrow> sl_reader" where
  "sl_retry attempt = (if Suc attempt < 64 then RBegin (Suc attempt) else RFail)"

inductive sl_read_step :: "nat \<Rightarrow> sl_sys \<Rightarrow> sl_sys \<Rightarrow> bool" for kWords where
  r_odd: "sl_r s = RBegin a \<Longrightarrow> sl_seq (sl_mem s) AND 1 \<noteq> 0 \<Longrightarrow>
    sl_read_step kWords s (s\<lparr>sl_r := sl_retry a\<rparr>)"
| r_even: "sl_r s = RBegin a \<Longrightarrow> sl_seq (sl_mem s) AND 1 = 0 \<Longrightarrow>
    sl_read_step kWords s (s\<lparr>sl_r := RCopy a (sl_seq (sl_mem s)) (length (sl_done s)) []\<rparr>)"
| r_word: "sl_r s = RCopy a b m raw \<Longrightarrow> length raw < kWords \<Longrightarrow>
    sl_read_step kWords s (s\<lparr>sl_r := RCopy a b m (raw @ [sl_words (sl_mem s) ! length raw])\<rparr>)"
| r_match: "sl_r s = RCopy a b m raw \<Longrightarrow> length raw = kWords \<Longrightarrow> b = sl_seq (sl_mem s) \<Longrightarrow>
    sl_read_step kWords s (s\<lparr>sl_r := RGot raw m (length (sl_done s))\<rparr>)"
| r_changed: "sl_r s = RCopy a b m raw \<Longrightarrow> length raw = kWords \<Longrightarrow> b \<noteq> sl_seq (sl_mem s) \<Longrightarrow>
    sl_read_step kWords s (s\<lparr>sl_r := sl_retry a\<rparr>)"

text \<open>A reader calls \<open>load\<close> and, after it returned, may call again.\<close>

inductive sl_call_step :: "sl_sys \<Rightarrow> sl_sys \<Rightarrow> bool" where
  r_call: "sl_r s = RIdle \<Longrightarrow> sl_call_step s (s\<lparr>sl_r := RBegin 0\<rparr>)"
| r_return: "sl_r s = RFail \<or> sl_r s = RGot raw m k \<Longrightarrow> sl_call_step s (s\<lparr>sl_r := RIdle\<rparr>)"

definition sl_step :: "nat \<Rightarrow> sl_sys \<Rightarrow> sl_sys \<Rightarrow> bool" where
  "sl_step kWords s t \<longleftrightarrow> sl_write_step kWords s t \<or> sl_read_step kWords s t \<or> sl_call_step s t"

text \<open>
  The invariant: outside a publish the words are the latest value and the
  sequence is twice the number of publishes; during one it is odd. A reader
  whose \<open>begin\<close> is still current has collected words of that value only.
\<close>

fun sl_quiet :: "sl_writer \<Rightarrow> bool" where
  "sl_quiet (WCopy raw seq i) = False"
| "sl_quiet _ = True"

definition sl_write_inv :: "nat \<Rightarrow> sl_sys \<Rightarrow> bool" where
  "sl_write_inv kWords s \<longleftrightarrow> length (sl_words (sl_mem s)) = kWords \<and>
     (case sl_w s of
        WIdle \<Rightarrow> sl_seq (sl_mem s) = of_nat (2 * length (sl_done s)) \<and>
          sl_words (sl_mem s) = sl_value kWords s (length (sl_done s))
      | WLoaded raw seq \<Rightarrow> sl_seq (sl_mem s) = of_nat (2 * length (sl_done s)) \<and>
          seq = sl_seq (sl_mem s) \<and> length raw = kWords \<and>
          sl_words (sl_mem s) = sl_value kWords s (length (sl_done s))
      | WCopy raw seq i \<Rightarrow> seq = of_nat (2 * length (sl_done s)) \<and> sl_seq (sl_mem s) = seq + 1 \<and>
          length raw = kWords \<and> i \<le> kWords \<and> take i (sl_words (sl_mem s)) = take i raw)"

definition sl_read_inv :: "nat \<Rightarrow> sl_sys \<Rightarrow> bool" where
  "sl_read_inv kWords s \<longleftrightarrow>
     (case sl_r s of
        RCopy a b m raw \<Rightarrow> m \<le> length (sl_done s) \<and> b = of_nat (2 * m) \<and> length raw \<le> kWords \<and>
          (m = length (sl_done s) \<and> sl_quiet (sl_w s) \<longrightarrow> raw = take (length raw) (sl_words (sl_mem s)))
      | RGot raw m k \<Rightarrow> m \<le> k \<and> k \<le> length (sl_done s) \<and>
          (k < m + 2 ^ 31 \<longrightarrow> m = k \<and> raw = sl_value kWords s k)
      | _ \<Rightarrow> True)"

definition sl_inv :: "nat \<Rightarrow> sl_sys \<Rightarrow> bool" where
  "sl_inv kWords s \<longleftrightarrow> sl_write_inv kWords s \<and> sl_read_inv kWords s"

lemma odd_plus_one: "even (unat x) \<Longrightarrow> odd (unat (x + 1 :: u32))"
  using unat_word_ariths(1) [of x 1] by (simp add: dvd_mod_iff)

lemma of_nat_double_u32:
  "unat (of_nat (2 * n) :: u32) = 2 * n mod 2 ^ 32"
  "even (unat (of_nat (2 * n) :: u32))"
  "odd (unat (of_nat (2 * n) + 1 :: u32))"
proof -
  show u: "unat (of_nat (2 * n) :: u32) = 2 * n mod 2 ^ 32" by (simp add: unat_of_nat del: of_nat_mult)
  have "even (2 * n mod (2 :: nat) ^ 32)" by (intro dvd_mod dvd_triv_left dvd_power) simp
  then show ev: "even (unat (of_nat (2 * n) :: u32))" by (simp only: u)
  then show "odd (unat (of_nat (2 * n) + 1 :: u32))" by (rule odd_plus_one)
qed

lemma double_u32_inj:
  assumes "(of_nat (2 * m) :: u32) = of_nat (2 * n)" and "m \<le> n" and "n < m + 2 ^ 31"
  shows "m = n"
proof -
  have "2 * m mod 2 ^ 32 = 2 * n mod 2 ^ 32"
    using assms(1) of_nat_double_u32(1) by metis
  then have "2 * m = 2 * n" by (rule mod_eq_within_lap) (use assms(2,3) in simp_all)
  then show ?thesis by simp
qed

lemma sl_value_done: "k \<le> length (sl_done s) \<Longrightarrow>
    sl_value kWords (s\<lparr>sl_mem := mem, sl_w := w, sl_done := sl_done s @ [raw]\<rparr>) k = sl_value kWords s k"
  by (auto simp: sl_value_def nth_append nth_Cons split: nat.splits)

lemma sl_inv_start: "sl_inv kWords (sl_start kWords)"
  by (simp add: sl_inv_def sl_write_inv_def sl_read_inv_def sl_start_def Seqlock_init_def sl_value_def)

lemma sl_write_inv_write:
  assumes "sl_write_inv kWords s" and "sl_write_step kWords s t"
  shows "sl_write_inv kWords t"
  using assms(2)
proof cases
  case (w_word raw seq i)
  with assms(1) show ?thesis
    by (auto simp: sl_write_inv_def take_Suc_conv_app_nth)
next
  case (w_even raw seq i)
  then have inv: "seq = of_nat (2 * length (sl_done s))" "length (sl_words (sl_mem s)) = kWords"
      "length raw = kWords" "take kWords (sl_words (sl_mem s)) = take kWords raw"
    using assms(1) by (simp_all add: sl_write_inv_def)
  then have "sl_words (sl_mem s) = raw" by (metis order_refl take_all)
  note inv = this inv(1,3)
  have "seq + 2 = of_nat (2 * Suc (length (sl_done s)))" by (simp add: inv)
  with w_even inv show ?thesis
    by (simp add: sl_write_inv_def sl_value_def nth_append)
qed (use assms(1) in \<open>auto simp: sl_write_inv_def sl_value_def\<close>)

lemma sl_read_inv_write:
  assumes "sl_read_inv kWords s" and "sl_write_step kWords s t"
  shows "sl_read_inv kWords t"
  using assms(2)
proof cases
  case (w_even raw seq i)
  with assms(1) show ?thesis
    by (auto simp: sl_read_inv_def sl_value_done split: sl_reader.splits)
qed (use assms(1) in \<open>auto simp: sl_read_inv_def sl_value_def split: sl_reader.splits\<close>)

text \<open>The \<open>end\<close> load matches only when no publish ran since \<open>begin\<close>, unless the counter lapped.\<close>

lemma sl_match:
  assumes "sl_inv kWords s" and "sl_r s = RCopy a b m raw" and "length raw = kWords"
    and "b = sl_seq (sl_mem s)" and "length (sl_done s) < m + 2 ^ 31"
  shows "m = length (sl_done s) \<and> raw = sl_value kWords s m"
proof -
  have b: "b = of_nat (2 * m)" and le: "m \<le> length (sl_done s)"
    using assms(1,2) by (simp_all add: sl_inv_def sl_read_inv_def)
  have quiet: "sl_quiet (sl_w s)"
  proof (cases "sl_w s")
    case (WCopy raw' seq i)
    then have "sl_seq (sl_mem s) = of_nat (2 * length (sl_done s)) + 1"
      using assms(1) by (simp add: sl_inv_def sl_write_inv_def)
    then have "odd (unat b)" using of_nat_double_u32(3) assms(4) by metis
    then show ?thesis using of_nat_double_u32(2) [of m] b by simp
  qed simp_all
  then have seq: "sl_seq (sl_mem s) = of_nat (2 * length (sl_done s))"
    and cur: "sl_words (sl_mem s) = sl_value kWords s (length (sl_done s))"
    and len: "length (sl_words (sl_mem s)) = kWords"
    using assms(1) by (auto simp: sl_inv_def sl_write_inv_def split: sl_writer.splits)
  have m: "m = length (sl_done s)"
    using double_u32_inj [OF _ le assms(5)] b assms(4) seq by metis
  then have "raw = take (length raw) (sl_words (sl_mem s))"
    using assms(1,2) quiet by (simp add: sl_inv_def sl_read_inv_def)
  then show ?thesis using m cur len assms(3) by simp
qed

lemma sl_retry_cases: "sl_retry a = RFail \<or> sl_retry a = RBegin (Suc a)"
  by (simp add: sl_retry_def)

lemma sl_read_inv_read:
  assumes inv: "sl_inv kWords s" and "sl_read_step kWords s t"
  shows "sl_read_inv kWords t"
  using assms(2)
proof cases
  case (r_odd a)
  then show ?thesis using sl_retry_cases [of a] by (auto simp: sl_read_inv_def)
next
  case (r_changed a b m raw)
  then show ?thesis using sl_retry_cases [of a] by (auto simp: sl_read_inv_def)
next
  case (r_even a)
  have "sl_quiet (sl_w s)"
  proof (cases "sl_w s")
    case (WCopy raw seq i)
    then have "sl_seq (sl_mem s) = of_nat (2 * length (sl_done s)) + 1"
      using inv by (simp add: sl_inv_def sl_write_inv_def)
    then have "odd (unat (sl_seq (sl_mem s)))" using of_nat_double_u32(3) by metis
    then show ?thesis using r_even(3) by (simp add: and_one_even)
  qed simp_all
  then have "sl_seq (sl_mem s) = of_nat (2 * length (sl_done s))"
    using inv by (auto simp: sl_inv_def sl_write_inv_def split: sl_writer.splits)
  with r_even(1) show ?thesis by (simp add: sl_read_inv_def)
next
  case (r_word a b m raw)
  have len: "length (sl_words (sl_mem s)) = kWords" using inv by (simp add: sl_inv_def sl_write_inv_def)
  have "raw @ [sl_words (sl_mem s) ! length raw] = take (Suc (length raw)) (sl_words (sl_mem s))"
    if "raw = take (length raw) (sl_words (sl_mem s))"
    using that r_word(3) len by (metis take_Suc_conv_app_nth)
  with r_word inv len show ?thesis by (auto simp: sl_inv_def sl_read_inv_def)
next
  case (r_match a b m raw)
  have "m = length (sl_done s) \<and> raw = sl_value kWords s (length (sl_done s))"
    if "length (sl_done s) < m + 2 ^ 31"
    using sl_match [OF inv r_match(2-4) that] by auto
  moreover have "m \<le> length (sl_done s)" using inv r_match(2) by (simp add: sl_inv_def sl_read_inv_def)
  ultimately show ?thesis using r_match(1) by (simp add: sl_read_inv_def sl_value_def)
qed

lemma sl_write_inv_read: "sl_read_step kWords s t \<Longrightarrow> sl_write_inv kWords t = sl_write_inv kWords s"
  by (erule sl_read_step.cases) (simp_all add: sl_write_inv_def sl_value_def split: sl_writer.split)

lemma sl_inv_step: "sl_inv kWords s \<Longrightarrow> sl_step kWords s t \<Longrightarrow> sl_inv kWords t"
proof -
  assume inv: "sl_inv kWords s" and "sl_step kWords s t"
  then consider "sl_write_step kWords s t" | "sl_read_step kWords s t" | "sl_call_step s t"
    by (auto simp: sl_step_def)
  then show ?thesis
  proof cases
    case 1
    with inv show ?thesis unfolding sl_inv_def by (blast intro: sl_write_inv_write sl_read_inv_write)
  next
    case 2
    with inv show ?thesis using sl_read_inv_read [OF inv 2] by (simp add: sl_inv_def sl_write_inv_read)
  next
    case 3
    from 3 inv show ?thesis
      by (cases rule: sl_call_step.cases)
        (auto simp: sl_inv_def sl_write_inv_def sl_read_inv_def sl_value_def split: sl_writer.splits)
  qed
qed

interpretation seqlock_machine: step_machine "\<lambda>s. s = sl_start kWords" "sl_step kWords" "sl_inv kWords" for kWords
  by unfold_locales (auto intro: sl_inv_start sl_inv_step)

text \<open>Steps a reader still has in the worst case: every attempt copies all words and retries.\<close>

fun sl_rank_pc :: "nat \<Rightarrow> sl_reader \<Rightarrow> nat" where
  "sl_rank_pc kWords (RBegin a) = Suc (63 - a) * (kWords + 2)"
| "sl_rank_pc kWords (RCopy a b m raw) = (63 - a) * (kWords + 2) + Suc (kWords - length raw)"
| "sl_rank_pc kWords _ = 0"

definition sl_rank :: "nat \<Rightarrow> sl_sys \<Rightarrow> nat" where
  "sl_rank kWords s = sl_rank_pc kWords (sl_r s)"

lemma sl_rank_retry: "sl_rank_pc kWords (sl_retry a) \<le> (63 - a) * (kWords + 2)"
proof (cases "Suc a < 64")
  case True
  then have "Suc (63 - Suc a) = 63 - a" by simp
  with True show ?thesis by (simp only: sl_retry_def if_True sl_rank_pc.simps)
qed (simp add: sl_retry_def)

lemma sl_rank_read: "sl_read_step kWords s t \<Longrightarrow> sl_rank kWords t < sl_rank kWords s"
  by (erule sl_read_step.cases)
    (auto simp: sl_rank_def intro!: le_less_trans [OF sl_rank_retry])

lemma sl_rank_write: "sl_write_step kWords s t \<Longrightarrow> sl_rank kWords t = sl_rank kWords s"
  by (erule sl_write_step.cases) (simp_all add: sl_rank_def)

interpretation seqlock_reader: ranked_steps "sl_read_step kWords" "sl_write_step kWords" "sl_rank kWords" for kWords
  by unfold_locales (simp_all add: sl_rank_read sl_rank_write)

text \<open>A run on a one-word payload: the writer publishes 7, then the reader loads it.\<close>

definition sl_demo :: "nat \<Rightarrow> sl_sys" where
  "sl_demo n = [
     sl_start 1,
     (sl_start 1)\<lparr>sl_w := WLoaded [7] 0\<rparr>,
     (sl_start 1)\<lparr>sl_mem := \<lparr>sl_seq = 1, sl_words = [0]\<rparr>, sl_w := WCopy [7] 0 0\<rparr>,
     (sl_start 1)\<lparr>sl_mem := \<lparr>sl_seq = 1, sl_words = [7]\<rparr>, sl_w := WCopy [7] 0 1\<rparr>,
     (sl_start 1)\<lparr>sl_mem := \<lparr>sl_seq = 2, sl_words = [7]\<rparr>, sl_done := [[7]]\<rparr>,
     (sl_start 1)\<lparr>sl_mem := \<lparr>sl_seq = 2, sl_words = [7]\<rparr>, sl_done := [[7]], sl_r := RBegin 0\<rparr>,
     (sl_start 1)\<lparr>sl_mem := \<lparr>sl_seq = 2, sl_words = [7]\<rparr>, sl_done := [[7]], sl_r := RCopy 0 2 1 []\<rparr>,
     (sl_start 1)\<lparr>sl_mem := \<lparr>sl_seq = 2, sl_words = [7]\<rparr>, sl_done := [[7]], sl_r := RCopy 0 2 1 [7]\<rparr>,
     (sl_start 1)\<lparr>sl_mem := \<lparr>sl_seq = 2, sl_words = [7]\<rparr>, sl_done := [[7]], sl_r := RGot [7] 1 1\<rparr>] ! n"

lemma sl_demo_steps:
  "sl_write_step 1 (sl_demo 0) (sl_demo 1)" "sl_write_step 1 (sl_demo 1) (sl_demo 2)"
  "sl_write_step 1 (sl_demo 2) (sl_demo 3)" "sl_write_step 1 (sl_demo 3) (sl_demo 4)"
  "sl_call_step (sl_demo 4) (sl_demo 5)" "sl_read_step 1 (sl_demo 5) (sl_demo 6)"
  "sl_read_step 1 (sl_demo 6) (sl_demo 7)" "sl_read_step 1 (sl_demo 7) (sl_demo 8)"
proof -
  note d = sl_demo_def sl_start_def Seqlock_init_def
  show "sl_write_step 1 (sl_demo 0) (sl_demo 1)"
    using w_load [of "sl_demo 0" "[7]" 1] by (simp add: d)
  show "sl_write_step 1 (sl_demo 1) (sl_demo 2)"
    using w_odd [of "sl_demo 1" "[7]" 0 1] by (simp add: d)
  show "sl_write_step 1 (sl_demo 2) (sl_demo 3)"
    using w_word [of "sl_demo 2" "[7]" 0 0 1] by (simp add: d)
  show "sl_write_step 1 (sl_demo 3) (sl_demo 4)"
    using w_even [of "sl_demo 3" "[7]" 0 1 1] by (simp add: d)
  show "sl_call_step (sl_demo 4) (sl_demo 5)"
    using r_call [of "sl_demo 4"] by (simp add: d)
  show "sl_read_step 1 (sl_demo 5) (sl_demo 6)"
    using r_even [of "sl_demo 5" 0 1] by (simp add: d)
  show "sl_read_step 1 (sl_demo 6) (sl_demo 7)"
    using r_word [of "sl_demo 6" 0 2 1 "[]" 1] by (simp add: d)
  have last: "sl_demo 8 = (sl_demo 7)\<lparr>sl_r := RGot [7] 1 (length (sl_done (sl_demo 7)))\<rparr>" by (simp add: d)
  have pc: "sl_r (sl_demo 7) = RCopy 0 2 1 [7]" and seq: "sl_seq (sl_mem (sl_demo 7)) = 2" by (simp_all add: d)
  show "sl_read_step 1 (sl_demo 7) (sl_demo 8)"
    unfolding last by (rule r_match [OF pc _ seq [symmetric]]) simp
qed

lemma sl_demo_run:
  "(sl_step 1)\<^sup>*\<^sup>* (sl_start 1) (sl_demo 2)" "(sl_step 1)\<^sup>*\<^sup>* (sl_start 1) (sl_demo 8)"
proof -
  have s0: "sl_demo 0 = sl_start 1" by (simp add: sl_demo_def)
  have p: "step_path (sl_step 1) (sl_demo 0) [sl_demo 1, sl_demo 2]"
    "step_path (sl_step 1) (sl_demo 2) [sl_demo 3, sl_demo 4, sl_demo 5, sl_demo 6, sl_demo 7, sl_demo 8]"
    using sl_demo_steps by (simp_all add: sl_step_def)
  show a: "(sl_step 1)\<^sup>*\<^sup>* (sl_start 1) (sl_demo 2)" using step_path_run [OF p(1)] s0 by simp
  also have "(sl_step 1)\<^sup>*\<^sup>* (sl_demo 2) (sl_demo 8)" using step_path_run [OF p(2)] by simp
  finally show "(sl_step 1)\<^sup>*\<^sup>* (sl_start 1) (sl_demo 8)" .
qed

section \<open>Properties\<close>

text \<open>
  \<open>publish\<close> then \<open>load\<close> is a round trip for both payload types, field by
  field, and after any sequence of publishes a load that runs alone succeeds
  with the last value published.
\<close>

theorem seqlock_publish_load:
  "Seqlock_load SourceState_of_words (fold (Seqlock_publish SourceState_words) ss (Seqlock_init 5)) out =
     (True, last (SourceState_default # ss)) \<and>
   Seqlock_load WindowState_of_words (fold (Seqlock_publish WindowState_words) ws (Seqlock_init 2)) out' =
     (True, last (WindowState_default # ws))"
  using source_cell.cell.load_after_publishes [of "Seqlock_init 5" ss out]
    window_cell.cell.load_after_publishes [of "Seqlock_init 2" ws out']
    source_cell.words_zero window_cell.words_zero
  by (simp add: seqlock_stable_def Seqlock_init_def kWords_of_bytes_def)

text \<open>
  (C7) No torn value: in every interleaving of one writer and one reader, a
  load that returns true, with fewer than \<open>2 ^ 31\<close> publishes completed since its
  \<open>begin\<close> load, returns exactly the payload of one publish (or the initial
  zeros), and that payload was the latest complete one at its \<open>end\<close> load.
\<close>

theorem seqlock_not_torn:
  assumes "(sl_step kWords)\<^sup>*\<^sup>* (sl_start kWords) s" and "sl_r s = RGot raw m k" and "k < m + 2 ^ 31"
  shows "raw = sl_value kWords s k \<and> m = k \<and> k \<le> length (sl_done s)"
proof -
  from assms(1) have "sl_inv kWords s" by (rule seqlock_machine.inv_reachable [OF refl])
  with assms(2,3) show ?thesis by (auto simp: sl_inv_def sl_read_inv_def)
qed

theorem seqlock_not_torn_witness:
  "(sl_step 1)\<^sup>*\<^sup>* (sl_start 1) (sl_demo 8) \<and> sl_r (sl_demo 8) = RGot [7] 1 1 \<and>
   [7] = sl_value 1 (sl_demo 8) 1"
proof -
  have got: "sl_r (sl_demo 8) = RGot [7] 1 1" by (simp add: sl_demo_def)
  show ?thesis using seqlock_not_torn [OF sl_demo_run(2) got] sl_demo_run(2) got by simp
qed

text \<open>
  (C25) The reader is wait-free: from the call of \<open>load\<close> it takes at most
  \<open>64 * (kWords + 2)\<close> steps of its own, however the writer's steps fall between
  them, so it cannot spin forever on a stuck or fast writer.
\<close>

theorem seqlock_load_bounded:
  assumes "interleaved (sl_read_step kWords) (sl_write_step kWords) n s t" and "sl_r s = RBegin 0"
  shows "n \<le> 64 * (kWords + 2)"
  using seqlock_reader.own_steps_bounded [OF assms(1)] assms(2) by (simp add: sl_rank_def)

theorem seqlock_load_bounded_witness:
  "interleaved (sl_read_step 1) (sl_write_step 1) 3 (sl_demo 5) (sl_demo 8) \<and> (3 :: nat) \<le> 64 * (1 + 2)"
proof -
  have run: "interleaved (sl_read_step 1) (sl_write_step 1) (Suc (Suc (Suc 0))) (sl_demo 5) (sl_demo 8)"
    using interleaved.none [of "sl_read_step 1" "sl_write_step 1" "sl_demo 5"]
    by (blast intro: interleaved.mine sl_demo_steps(6-8))
  have "sl_r (sl_demo 5) = RBegin 0" by (simp add: sl_demo_def)
  from seqlock_load_bounded [OF run this] run show ?thesis by (simp add: numeral_3_eq_3)
qed

text \<open>
  A writer stuck between its odd and its even store makes every attempt
  fail: \<open>load\<close> returns false after its 64 attempts and \<open>out\<close> keeps the caller's
  previous sample.
\<close>

theorem seqlock_stuck_writer:
  assumes "(sl_step kWords)\<^sup>*\<^sup>* (sl_start kWords) s" and "sl_w s = WCopy raw seq i"
  shows "Seqlock_load of_words (sl_mem s) out = (False, out)"
proof -
  from assms(1) have "sl_inv kWords s" by (rule seqlock_machine.inv_reachable [OF refl])
  with assms(2) have "sl_seq (sl_mem s) = of_nat (2 * length (sl_done s)) + 1"
    by (simp add: sl_inv_def sl_write_inv_def)
  then have "odd (unat (sl_seq (sl_mem s)))" using of_nat_double_u32(3) by metis
  then have "sl_seq (sl_mem s) AND 1 \<noteq> 0" by (simp add: and_one_even)
  then show ?thesis unfolding Seqlock_load_def by (rule seqlock_load_odd_loop)
qed

theorem seqlock_stuck_writer_witness:
  "(sl_step 1)\<^sup>*\<^sup>* (sl_start 1) (sl_demo 2) \<and>
   Seqlock_load (\<lambda>ws. ws) (sl_mem (sl_demo 2)) [42] = (False, [42])"
proof -
  have "sl_w (sl_demo 2) = WCopy [7] 0 0" by (simp add: sl_demo_def)
  from sl_demo_run(1) seqlock_stuck_writer [OF sl_demo_run(1) this] show ?thesis by simp
qed

end
