(* ===== verification/Triple_Buffer.thy ===== *)
theory Triple_Buffer
  imports Types
begin

text \<open>
  \<^verbatim>\<open>include/ratehub/triple_buffer.hpp\<close>. First the operations as one thread sees
  them, with the contract a client of the buffer uses; then one writer and one
  reader that interleave at each atomic access of \<open>middle_\<close>, where the writer
  fills its slot in any number of partial stores.
\<close>

section \<open>The buffer\<close>

record 'a TripleBuffer =
  tb_slots :: "'a list"
  tb_write :: nat
  tb_read :: nat
  tb_middle :: u32

definition kIndexMask :: u32 where "kIndexMask = 3"

definition kFresh :: u32 where "kFresh = 4"

definition TripleBuffer_init :: "'a \<Rightarrow> 'a TripleBuffer" where
  "TripleBuffer_init d = \<lparr>tb_slots = [d, d, d], tb_write = 0, tb_read = 1, tb_middle = 2\<rparr>"

text \<open>An assignment through the reference \<open>write_slot()\<close> returns.\<close>

definition TripleBuffer_write_slot :: "'a \<Rightarrow> 'a TripleBuffer \<Rightarrow> 'a TripleBuffer" where
  "TripleBuffer_write_slot v b = b\<lparr>tb_slots := (tb_slots b)[tb_write b := v]\<rparr>"

definition TripleBuffer_read_slot :: "'a TripleBuffer \<Rightarrow> 'a" where
  "TripleBuffer_read_slot b = tb_slots b ! tb_read b"

definition TripleBuffer_publish :: "'a TripleBuffer \<Rightarrow> 'a TripleBuffer" where
  "TripleBuffer_publish b =
     (let old = tb_middle b;
          b = b\<lparr>tb_middle := of_nat (tb_write b) OR kFresh\<rparr>
      in b\<lparr>tb_write := unat (old AND kIndexMask)\<rparr>)"

definition TripleBuffer_consume :: "'a TripleBuffer \<Rightarrow> bool \<times> 'a TripleBuffer" where
  "TripleBuffer_consume b =
     (if tb_middle b AND kFresh = 0 then (False, b)
      else
        let old = tb_middle b;
            b = b\<lparr>tb_middle := of_nat (tb_read b)\<rparr>
        in (True, b\<lparr>tb_read := unat (old AND kIndexMask)\<rparr>))"

section \<open>One writer and one reader, access by access\<close>

text \<open>
  Between the exchange and the assignment of the private index a thread holds
  the value that came back (\<open>TWGot\<close>, \<open>TRGot\<close>); \<open>TRFresh\<close> is the reader between
  its load of the fresh bit and its exchange. \<open>tb_published\<close> is every slot
  handed over so far, \<open>tb_taken\<close> the newest of them when the reader exchanged.
\<close>

datatype tb_writer = TWFill | TWGot u32

datatype tb_reader = TRIdle | TRFresh | TRGot u32

record 'a tb_sys =
  tb_mem :: "'a TripleBuffer"
  tb_w :: tb_writer
  tb_r :: tb_reader
  tb_published :: "'a list"
  tb_taken :: "'a option"

definition tb_start :: "'a \<Rightarrow> 'a tb_sys" where
  "tb_start d = \<lparr>tb_mem = TripleBuffer_init d, tb_w = TWFill, tb_r = TRIdle,
     tb_published = [], tb_taken = None\<rparr>"

inductive tb_step :: "'a tb_sys \<Rightarrow> 'a tb_sys \<Rightarrow> bool" where
  tw_fill: "tb_w s = TWFill \<Longrightarrow>
    tb_step s (s\<lparr>tb_mem := TripleBuffer_write_slot v (tb_mem s)\<rparr>)"
| tw_exchange: "tb_w s = TWFill \<Longrightarrow>
    tb_step s (s\<lparr>tb_mem := (tb_mem s)\<lparr>tb_middle := of_nat (tb_write (tb_mem s)) OR kFresh\<rparr>,
      tb_w := TWGot (tb_middle (tb_mem s)),
      tb_published := tb_published s @ [tb_slots (tb_mem s) ! tb_write (tb_mem s)]\<rparr>)"
| tw_adopt: "tb_w s = TWGot old \<Longrightarrow>
    tb_step s (s\<lparr>tb_mem := (tb_mem s)\<lparr>tb_write := unat (old AND kIndexMask)\<rparr>, tb_w := TWFill\<rparr>)"
| tr_stale: "tb_r s = TRIdle \<Longrightarrow> tb_middle (tb_mem s) AND kFresh = 0 \<Longrightarrow> tb_step s s"
| tr_fresh: "tb_r s = TRIdle \<Longrightarrow> tb_middle (tb_mem s) AND kFresh \<noteq> 0 \<Longrightarrow>
    tb_step s (s\<lparr>tb_r := TRFresh\<rparr>)"
| tr_exchange: "tb_r s = TRFresh \<Longrightarrow>
    tb_step s (s\<lparr>tb_mem := (tb_mem s)\<lparr>tb_middle := of_nat (tb_read (tb_mem s))\<rparr>,
      tb_r := TRGot (tb_middle (tb_mem s)), tb_taken := Some (last (tb_published s))\<rparr>)"
| tr_adopt: "tb_r s = TRGot old \<Longrightarrow>
    tb_step s (s\<lparr>tb_mem := (tb_mem s)\<lparr>tb_read := unat (old AND kIndexMask)\<rparr>, tb_r := TRIdle\<rparr>)"

section \<open>Index arithmetic\<close>

text \<open>The slot index held in a value of \<open>middle_\<close>.\<close>

definition mid_index :: "u32 \<Rightarrow> nat" where
  "mid_index m = unat (m AND kIndexMask)"

lemma mid_of_write:
  assumes "i < 3"
  shows "mid_index (of_nat i OR kFresh) = i" "(of_nat i OR kFresh) AND kFresh \<noteq> 0"
    "mid_index (of_nat i) = i" "of_nat i AND kFresh = 0"
proof -
  from assms consider "i = 0" | "i = 1" | "i = 2" by linarith
  then have "mid_index (of_nat i OR kFresh) = i \<and> (of_nat i OR kFresh) AND kFresh \<noteq> 0 \<and>
      mid_index (of_nat i) = i \<and> of_nat i AND kFresh = 0"
    by cases (simp_all add: mid_index_def kFresh_def kIndexMask_def)
  then show "mid_index (of_nat i OR kFresh) = i" "(of_nat i OR kFresh) AND kFresh \<noteq> 0"
    "mid_index (of_nat i) = i" "of_nat i AND kFresh = 0" by simp_all
qed

section \<open>Contract of a latest-snapshot buffer\<close>

text \<open>
  \<open>put\<close> hands a complete value over, \<open>take\<close> adopts the newest one not yet
  taken, \<open>peek\<close> reads the last one taken; \<open>unread\<close> is what \<open>take\<close> would adopt.
\<close>

locale latest_snapshot =
  fixes put :: "'a \<Rightarrow> 'b \<Rightarrow> 'b"
    and take :: "'b \<Rightarrow> bool \<times> 'b"
    and peek :: "'b \<Rightarrow> 'a"
    and unread :: "'b \<Rightarrow> 'a option"
    and ok :: "'b \<Rightarrow> bool"
  assumes put_unread: "ok b \<Longrightarrow> unread (put v b) = Some v \<and> peek (put v b) = peek b \<and> ok (put v b)"
    and take_none: "ok b \<Longrightarrow> unread b = None \<Longrightarrow> take b = (False, b)"
    and take_some: "ok b \<Longrightarrow> unread b = Some v \<Longrightarrow>
      \<exists>b'. take b = (True, b') \<and> peek b' = v \<and> unread b' = None \<and> ok b'"
begin

lemma puts_unread: "ok b \<Longrightarrow> vs \<noteq> [] \<Longrightarrow> unread (fold put vs b) = Some (last vs) \<and> ok (fold put vs b)"
proof (induction vs arbitrary: b)
  case (Cons v vs)
  then show ?case using put_unread [OF Cons.prems(1), of v] by (cases "vs = []") auto
qed simp

text \<open>However many snapshots were handed over, the reader adopts the newest, once.\<close>

lemma take_after_puts:
  assumes "ok b" and "vs \<noteq> []"
  shows "\<exists>b'. take (fold put vs b) = (True, b') \<and> peek b' = last vs \<and> take b' = (False, b')"
  using take_some puts_unread [OF assms] take_none by metis

end

definition tb_put :: "'a \<Rightarrow> 'a TripleBuffer \<Rightarrow> 'a TripleBuffer" where
  "tb_put v b = TripleBuffer_publish (TripleBuffer_write_slot v b)"

definition tb_unread :: "'a TripleBuffer \<Rightarrow> 'a option" where
  "tb_unread b = (if tb_middle b AND kFresh = 0 then None else Some (tb_slots b ! mid_index (tb_middle b)))"

definition tb_wf :: "'a TripleBuffer \<Rightarrow> bool" where
  "tb_wf b \<longleftrightarrow> length (tb_slots b) = 3 \<and> tb_write b < 3 \<and> tb_read b < 3 \<and> mid_index (tb_middle b) < 3 \<and>
     tb_write b \<noteq> tb_read b \<and> tb_write b \<noteq> mid_index (tb_middle b) \<and> tb_read b \<noteq> mid_index (tb_middle b)"

lemma tb_wf_init [simp]: "tb_wf (TripleBuffer_init d)"
  by (simp add: tb_wf_def TripleBuffer_init_def mid_index_def kIndexMask_def)

interpretation snapshot_buffer: latest_snapshot tb_put TripleBuffer_consume TripleBuffer_read_slot tb_unread tb_wf
proof unfold_locales
  fix b :: "'a TripleBuffer" and v
  assume wf: "tb_wf b"
  show "tb_unread (tb_put v b) = Some v \<and> TripleBuffer_read_slot (tb_put v b) = TripleBuffer_read_slot b \<and> tb_wf (tb_put v b)"
    using wf mid_of_write [of "tb_write b"]
    by (auto simp: tb_put_def tb_unread_def tb_wf_def TripleBuffer_publish_def TripleBuffer_write_slot_def
        TripleBuffer_read_slot_def mid_index_def)
  show "TripleBuffer_consume b = (False, b)" if "tb_unread b = None"
    using that by (simp add: tb_unread_def TripleBuffer_consume_def split: if_splits)
  show "\<exists>b'. TripleBuffer_consume b = (True, b') \<and> TripleBuffer_read_slot b' = v \<and> tb_unread b' = None \<and> tb_wf b'"
    if "tb_unread b = Some v"
    using that wf mid_of_write [of "tb_read b"]
    by (auto simp: tb_unread_def TripleBuffer_consume_def TripleBuffer_read_slot_def tb_wf_def mid_index_def
        split: if_splits)
qed

section \<open>Ownership\<close>

text \<open>The slot each side owns, also while its private index is about to change.\<close>

fun tb_w_owns :: "'a TripleBuffer \<Rightarrow> tb_writer \<Rightarrow> nat" where
  "tb_w_owns b TWFill = tb_write b"
| "tb_w_owns b (TWGot old) = mid_index old"

fun tb_r_owns :: "'a TripleBuffer \<Rightarrow> tb_reader \<Rightarrow> nat" where
  "tb_r_owns b (TRGot old) = mid_index old"
| "tb_r_owns b _ = tb_read b"

abbreviation tb_writer_slot :: "'a tb_sys \<Rightarrow> nat" where
  "tb_writer_slot s \<equiv> tb_w_owns (tb_mem s) (tb_w s)"

abbreviation tb_reader_slot :: "'a tb_sys \<Rightarrow> nat" where
  "tb_reader_slot s \<equiv> tb_r_owns (tb_mem s) (tb_r s)"

abbreviation tb_middle_slot :: "'a tb_sys \<Rightarrow> nat" where
  "tb_middle_slot s \<equiv> mid_index (tb_middle (tb_mem s))"

definition tb_owners_inv :: "'a tb_sys \<Rightarrow> bool" where
  "tb_owners_inv s \<longleftrightarrow> length (tb_slots (tb_mem s)) = 3 \<and>
     tb_writer_slot s < 3 \<and> tb_reader_slot s < 3 \<and> tb_middle_slot s < 3 \<and>
     tb_writer_slot s \<noteq> tb_reader_slot s \<and> tb_writer_slot s \<noteq> tb_middle_slot s \<and>
     tb_reader_slot s \<noteq> tb_middle_slot s"

definition tb_contents_inv :: "'a tb_sys \<Rightarrow> bool" where
  "tb_contents_inv s \<longleftrightarrow>
     (tb_middle (tb_mem s) AND kFresh \<noteq> 0 \<longrightarrow> tb_published s \<noteq> [] \<and>
        tb_slots (tb_mem s) ! tb_middle_slot s = last (tb_published s)) \<and>
     (tb_r s = TRFresh \<longrightarrow> tb_middle (tb_mem s) AND kFresh \<noteq> 0) \<and>
     (\<forall>v. tb_taken s = Some v \<longrightarrow> tb_slots (tb_mem s) ! tb_reader_slot s = v \<and> v \<in> set (tb_published s))"

definition tb_inv :: "'a tb_sys \<Rightarrow> bool" where
  "tb_inv s \<longleftrightarrow> tb_owners_inv s \<and> tb_contents_inv s"

lemma tb_inv_start: "tb_inv (tb_start d)"
  by (simp add: tb_inv_def tb_owners_inv_def tb_contents_inv_def tb_start_def TripleBuffer_init_def
      mid_index_def kIndexMask_def kFresh_def)

lemma tb_owners_step:
  assumes "tb_owners_inv s" and "tb_step s t"
  shows "tb_owners_inv t"
  using assms(2)
proof cases
  case tw_exchange
  with assms(1) show ?thesis
    using mid_of_write [of "tb_write (tb_mem s)"] by (cases "tb_r s") (auto simp: tb_owners_inv_def)
next
  case tr_exchange
  with assms(1) show ?thesis
    using mid_of_write [of "tb_read (tb_mem s)"] by (cases "tb_w s") (auto simp: tb_owners_inv_def)
next
  case (tw_adopt old)
  with assms(1) show ?thesis by (cases "tb_r s") (auto simp: tb_owners_inv_def mid_index_def)
next
  case (tr_adopt old)
  with assms(1) show ?thesis by (cases "tb_w s") (auto simp: tb_owners_inv_def mid_index_def)
next
  case (tw_fill v)
  with assms(1) show ?thesis by (cases "tb_r s") (auto simp: tb_owners_inv_def TripleBuffer_write_slot_def)
next
  case tr_fresh
  with assms(1) show ?thesis by (cases "tb_w s") (auto simp: tb_owners_inv_def)
qed (use assms(1) in simp)

lemma tb_contents_step:
  assumes inv: "tb_inv s" and "tb_step s t"
  shows "tb_contents_inv t"
  using assms(2)
proof cases
  case (tw_fill v)
  then have "tb_reader_slot s \<noteq> tb_write (tb_mem s)" "tb_middle_slot s \<noteq> tb_write (tb_mem s)"
    using inv by (auto simp: tb_inv_def tb_owners_inv_def)
  with tw_fill inv show ?thesis
    by (cases "tb_r s") (auto simp: tb_inv_def tb_contents_inv_def TripleBuffer_write_slot_def)
next
  case tw_exchange
  with inv show ?thesis
    using mid_of_write [of "tb_write (tb_mem s)"]
    by (cases "tb_r s") (auto simp: tb_inv_def tb_owners_inv_def tb_contents_inv_def)
next
  case tr_exchange
  with inv show ?thesis
    using mid_of_write [of "tb_read (tb_mem s)"]
    by (auto simp: tb_inv_def tb_owners_inv_def tb_contents_inv_def)
next
  case (tw_adopt old)
  with inv show ?thesis by (cases "tb_r s") (auto simp: tb_inv_def tb_contents_inv_def)
next
  case (tr_adopt old)
  with inv show ?thesis by (auto simp: tb_inv_def tb_contents_inv_def mid_index_def)
next
  case tr_fresh
  with inv show ?thesis by (auto simp: tb_inv_def tb_contents_inv_def)
qed (use inv in \<open>simp add: tb_inv_def\<close>)

lemma tb_inv_step: "tb_inv s \<Longrightarrow> tb_step s t \<Longrightarrow> tb_inv t"
  using tb_owners_step tb_contents_step by (auto simp: tb_inv_def)

interpretation snapshot_machine: step_machine "\<lambda>s. s = tb_start d" tb_step tb_inv for d
  by unfold_locales (auto intro: tb_inv_start tb_inv_step)

text \<open>A run: 7 is published and consumed, then the writer starts to fill its next slot.\<close>

definition tb_demo :: "nat \<Rightarrow> int tb_sys" where
  "tb_demo n = [
     tb_start 0,
     \<lparr>tb_mem = \<lparr>tb_slots = [7, 0, 0], tb_write = 0, tb_read = 1, tb_middle = 2\<rparr>,
       tb_w = TWFill, tb_r = TRIdle, tb_published = [], tb_taken = None\<rparr>,
     \<lparr>tb_mem = \<lparr>tb_slots = [7, 0, 0], tb_write = 0, tb_read = 1, tb_middle = 4\<rparr>,
       tb_w = TWGot 2, tb_r = TRIdle, tb_published = [7], tb_taken = None\<rparr>,
     \<lparr>tb_mem = \<lparr>tb_slots = [7, 0, 0], tb_write = 2, tb_read = 1, tb_middle = 4\<rparr>,
       tb_w = TWFill, tb_r = TRIdle, tb_published = [7], tb_taken = None\<rparr>,
     \<lparr>tb_mem = \<lparr>tb_slots = [7, 0, 0], tb_write = 2, tb_read = 1, tb_middle = 4\<rparr>,
       tb_w = TWFill, tb_r = TRFresh, tb_published = [7], tb_taken = None\<rparr>,
     \<lparr>tb_mem = \<lparr>tb_slots = [7, 0, 0], tb_write = 2, tb_read = 1, tb_middle = 1\<rparr>,
       tb_w = TWFill, tb_r = TRGot 4, tb_published = [7], tb_taken = Some 7\<rparr>,
     \<lparr>tb_mem = \<lparr>tb_slots = [7, 0, 0], tb_write = 2, tb_read = 0, tb_middle = 1\<rparr>,
       tb_w = TWFill, tb_r = TRIdle, tb_published = [7], tb_taken = Some 7\<rparr>,
     \<lparr>tb_mem = \<lparr>tb_slots = [7, 0, 9], tb_write = 2, tb_read = 0, tb_middle = 1\<rparr>,
       tb_w = TWFill, tb_r = TRIdle, tb_published = [7], tb_taken = Some 7\<rparr>] ! n"

lemma tb_demo_run: "tb_step\<^sup>*\<^sup>* (tb_start 0) (tb_demo 7)"
proof -
  note d = tb_demo_def tb_start_def TripleBuffer_init_def TripleBuffer_write_slot_def kFresh_def kIndexMask_def
  have "tb_step (tb_demo 0) (tb_demo 1)" using tw_fill [of "tb_demo 0" 7] by (simp add: d)
  moreover have "tb_step (tb_demo 1) (tb_demo 2)" using tw_exchange [of "tb_demo 1"] by (simp add: d)
  moreover have "tb_step (tb_demo 2) (tb_demo 3)" using tw_adopt [of "tb_demo 2" 2] by (simp add: d)
  moreover have "tb_step (tb_demo 3) (tb_demo 4)" using tr_fresh [of "tb_demo 3"] by (simp add: d)
  moreover have "tb_step (tb_demo 4) (tb_demo 5)" using tr_exchange [of "tb_demo 4"] by (simp add: d)
  moreover have "tb_step (tb_demo 5) (tb_demo 6)" using tr_adopt [of "tb_demo 5" 4] by (simp add: d)
  moreover have "tb_step (tb_demo 6) (tb_demo 7)" using tw_fill [of "tb_demo 6" 9] by (simp add: d)
  ultimately have "step_path tb_step (tb_demo 0)
      [tb_demo 1, tb_demo 2, tb_demo 3, tb_demo 4, tb_demo 5, tb_demo 6, tb_demo 7]" by simp
  then show ?thesis using step_path_run by (fastforce simp: tb_demo_def [of 0])
qed

section \<open>Properties\<close>

text \<open>
  Sequentially the buffer is latest-value: after any positive number of
  filled and published snapshots, \<open>consume\<close> succeeds once and \<open>read_slot\<close> is the
  newest of them; a second \<open>consume\<close> returns false and changes nothing.
\<close>

theorem triple_buffer_latest:
  assumes "tb_wf b" and "vs \<noteq> []"
  shows "\<exists>b'. TripleBuffer_consume (fold tb_put vs b) = (True, b') \<and>
    TripleBuffer_read_slot b' = last vs \<and> TripleBuffer_consume b' = (False, b')"
  by (rule snapshot_buffer.take_after_puts [OF assms])

theorem triple_buffer_latest_witness:
  "\<exists>b'. TripleBuffer_consume (fold tb_put [7, 8] (TripleBuffer_init (0 :: int))) = (True, b') \<and>
     TripleBuffer_read_slot b' = 8 \<and> TripleBuffer_consume b' = (False, b')"
  using triple_buffer_latest [OF tb_wf_init, of "[7, 8]" 0] by simp

text \<open>
  (C11) The two sides never own the same slot: in every reachable state of one
  writer and one reader the slot being filled, the slot being read and the
  spare are three different slots of the array, also between an exchange and
  the update of the private index.
\<close>

theorem triple_buffer_exclusive:
  assumes "tb_step\<^sup>*\<^sup>* (tb_start d) s"
  shows "{tb_writer_slot s, tb_reader_slot s, tb_middle_slot s} = {0, 1, 2}"
proof -
  from assms have "tb_inv s" by (rule snapshot_machine.inv_reachable [OF refl])
  then have "distinct [tb_writer_slot s, tb_reader_slot s, tb_middle_slot s]"
    and "set [tb_writer_slot s, tb_reader_slot s, tb_middle_slot s] \<subseteq> {0, 1, 2}"
    by (auto simp: tb_inv_def tb_owners_inv_def)
  then have "card (set [tb_writer_slot s, tb_reader_slot s, tb_middle_slot s]) = card {0, 1, 2 :: nat}"
    using distinct_card by fastforce
  then have "set [tb_writer_slot s, tb_reader_slot s, tb_middle_slot s] = {0, 1, 2}"
    using \<open>set _ \<subseteq> {0, 1, 2}\<close> by (intro card_subset_eq) simp_all
  then show ?thesis by simp
qed

theorem triple_buffer_exclusive_witness:
  "tb_step\<^sup>*\<^sup>* (tb_start 0) (tb_demo 7) \<and>
   {tb_writer_slot (tb_demo 7), tb_reader_slot (tb_demo 7), tb_middle_slot (tb_demo 7)} = {0, 1, 2}"
  using tb_demo_run triple_buffer_exclusive [OF tb_demo_run] by blast

text \<open>
  A consumed snapshot is complete and stable: after a successful
  \<open>consume\<close>, and until the next one exchanges, \<open>read_slot\<close> is the snapshot that
  was the newest published one at the exchange, whatever the writer fills or
  publishes meanwhile.
\<close>

theorem triple_buffer_stable_read:
  assumes "tb_step\<^sup>*\<^sup>* (tb_start d) s" and "tb_taken s = Some v" and "tb_r s = TRIdle"
  shows "TripleBuffer_read_slot (tb_mem s) = v \<and> v \<in> set (tb_published s)"
proof -
  from assms(1) have "tb_inv s" by (rule snapshot_machine.inv_reachable [OF refl])
  with assms(2,3) show ?thesis by (simp add: tb_inv_def tb_contents_inv_def TripleBuffer_read_slot_def)
qed

theorem triple_buffer_stable_read_witness:
  "tb_step\<^sup>*\<^sup>* (tb_start 0) (tb_demo 7) \<and> TripleBuffer_read_slot (tb_mem (tb_demo 7)) = 7"
proof -
  have "tb_taken (tb_demo 7) = Some 7" "tb_r (tb_demo 7) = TRIdle" by (simp_all add: tb_demo_def)
  from triple_buffer_stable_read [OF tb_demo_run this] tb_demo_run show ?thesis by blast
qed

end
