(* ===== verification/Layout.thy ===== *)
theory Layout
  imports Spsc_Ring Seqlock Triple_Buffer
begin

text \<open>
  The shared mapping: \<^verbatim>\<open>include/ratehub/shm_control.hpp\<close>, \<^verbatim>\<open>supervisor_state.hpp\<close> and
  \<^verbatim>\<open>struct Layout\<close> of \<^verbatim>\<open>layout.hpp\<close>. Every role of the program works on one value of the
  record \<open>Layout\<close>; \<open>layout_wf\<close> is the invariant all of them keep.
\<close>

section \<open>The control block\<close>

definition kShmMagic :: u32 where "kShmMagic = 0x52484C59"

record ShmControl =
  c_magic :: u32
  c_schema :: u16
  c_reserved :: u16
  c_shutdown :: u32
  c_generation :: u32
  c_ingest_done :: u32
  c_fast_done :: u32
  c_window_done :: u32
  c_compute_done :: u32
  c_fault :: u32
  c_snapshot_done :: u32
  c_overrun_fast :: u32
  c_overrun_window :: u32
  c_overrun_snapshot :: u32
  c_heartbeat_ingest :: u64
  c_heartbeat_compute :: u64
  c_heartbeat_publish :: u64
  c_heartbeat_fast :: u64
  c_heartbeat_window :: u64
  c_heartbeat_snapshot :: u64

definition ShmControl_default :: ShmControl where
  "ShmControl_default = \<lparr>c_magic = kShmMagic, c_schema = kSchemaVersion, c_reserved = 0,
     c_shutdown = 0, c_generation = 1, c_ingest_done = 0, c_fast_done = 0, c_window_done = 0,
     c_compute_done = 0, c_fault = 0, c_snapshot_done = 0,
     c_overrun_fast = 0, c_overrun_window = 0, c_overrun_snapshot = 0,
     c_heartbeat_ingest = 0, c_heartbeat_compute = 0, c_heartbeat_publish = 0,
     c_heartbeat_fast = 0, c_heartbeat_window = 0, c_heartbeat_snapshot = 0\<rparr>"

text \<open>The helper both \<^verbatim>\<open>ingest.cpp\<close> and \<^verbatim>\<open>compute.cpp\<close> define.\<close>

definition stopped :: "ShmControl \<Rightarrow> bool" where
  "stopped control \<longleftrightarrow> c_shutdown control \<noteq> 0"

section \<open>The supervisor's block\<close>

record SupervisorState =
  sup_ingest_pid :: u32
  sup_compute_pid :: u32
  sup_publish_pid :: u32
  sup_observe_pid :: u32
  sup_ingest_exit :: u32
  sup_compute_exit :: u32
  sup_publish_exit :: u32
  sup_observe_release :: u32
  sup_rerun_request :: u32

definition SupervisorState_default :: SupervisorState where
  "SupervisorState_default = \<lparr>sup_ingest_pid = 0, sup_compute_pid = 0, sup_publish_pid = 0,
     sup_observe_pid = 0, sup_ingest_exit = 0, sup_compute_exit = 0, sup_publish_exit = 0,
     sup_observe_release = 0, sup_rerun_request = 0\<rparr>"

definition request_rerun :: "SupervisorState \<Rightarrow> SupervisorState" where
  "request_rerun state = state\<lparr>sup_rerun_request := 1\<rparr>"

definition take_rerun :: "SupervisorState \<Rightarrow> bool \<times> SupervisorState" where
  "take_rerun state = (sup_rerun_request state \<noteq> 0, state\<lparr>sup_rerun_request := 0\<rparr>)"

section \<open>The mapping\<close>

record Layout =
  l_control :: ShmControl
  l_supervisor :: SupervisorState
  l_ring :: "Record SpscRing"
  l_latest :: "Seqlock list"
  l_window :: "Seqlock list"
  l_snapshots :: "Snapshot TripleBuffer"

definition Layout_init :: Layout where
  "Layout_init = \<lparr>l_control = ShmControl_default, l_supervisor = SupervisorState_default,
     l_ring = SpscRing_init kRingCapacity Record_default,
     l_latest = replicate (unat kMaxSources) (Seqlock_init (kWords_of_bytes 40)),
     l_window = replicate (unat kMaxSources) (Seqlock_init (kWords_of_bytes 16)),
     l_snapshots = TripleBuffer_init Snapshot_default\<rparr>"

text \<open>The operations on row \<open>id\<close> of the two publication tables.\<close>

definition latest_publish :: "nat \<Rightarrow> SourceState \<Rightarrow> Layout \<Rightarrow> Layout" where
  "latest_publish sid v l = l\<lparr>l_latest := (l_latest l)[sid := Seqlock_publish SourceState_words v (l_latest l ! sid)]\<rparr>"

definition latest_load :: "nat \<Rightarrow> Layout \<Rightarrow> SourceState \<Rightarrow> bool \<times> SourceState" where
  "latest_load sid l out = Seqlock_load SourceState_of_words (l_latest l ! sid) out"

definition window_publish :: "nat \<Rightarrow> WindowState \<Rightarrow> Layout \<Rightarrow> Layout" where
  "window_publish sid v l = l\<lparr>l_window := (l_window l)[sid := Seqlock_publish WindowState_words v (l_window l ! sid)]\<rparr>"

definition window_load :: "nat \<Rightarrow> Layout \<Rightarrow> WindowState \<Rightarrow> bool \<times> WindowState" where
  "window_load sid l out = Seqlock_load WindowState_of_words (l_window l ! sid) out"

section \<open>Invariant\<close>

definition latest_wf :: "Seqlock list \<Rightarrow> bool" where
  "latest_wf cells \<longleftrightarrow> length cells = 64 \<and> list_all (seqlock_stable (kWords_of_bytes 40)) cells"

definition window_wf :: "Seqlock list \<Rightarrow> bool" where
  "window_wf cells \<longleftrightarrow> length cells = 64 \<and> list_all (seqlock_stable (kWords_of_bytes 16)) cells"

definition layout_wf :: "Layout \<Rightarrow> bool" where
  "layout_wf l \<longleftrightarrow> ring_wf kRingCapacity (l_ring l) \<and> latest_wf (l_latest l) \<and> window_wf (l_window l) \<and>
     tb_wf (l_snapshots l)"

definition latest_value :: "Layout \<Rightarrow> nat \<Rightarrow> SourceState" where
  "latest_value l sid = SourceState_of_words (sl_words (l_latest l ! sid))"

definition window_value :: "Layout \<Rightarrow> nat \<Rightarrow> WindowState" where
  "window_value l sid = WindowState_of_words (sl_words (l_window l ! sid))"

lemma seqlock_stable_init: "seqlock_stable k (Seqlock_init k)"
  by (simp add: seqlock_stable_def Seqlock_init_def)

lemma layout_wf_init: "layout_wf Layout_init"
proof -
  have "valid_capacity kRingCapacity" by (simp add: valid_capacity_def kRingCapacity_def word_le_nat_alt)
  then have "ring_wf kRingCapacity (SpscRing_init kRingCapacity Record_default)"
    by (simp add: ring_wf_def SpscRing_init_def) (simp add: kRingCapacity_def)
  then show ?thesis
    by (simp add: layout_wf_def Layout_init_def latest_wf_def window_wf_def seqlock_stable_init
        list_all_length tb_wf_init)
qed

lemma latest_load_wf: "latest_wf (l_latest l) \<Longrightarrow> sid < 64 \<Longrightarrow> latest_load sid l out = (True, latest_value l sid)"
  by (simp add: latest_load_def latest_value_def latest_wf_def list_all_length source_cell.cell.load_value)

lemma window_load_wf: "window_wf (l_window l) \<Longrightarrow> sid < 64 \<Longrightarrow> window_load sid l out = (True, window_value l sid)"
  by (simp add: window_load_def window_value_def window_wf_def list_all_length window_cell.cell.load_value)

lemma latest_publish_wf:
  assumes "latest_wf (l_latest l)" and "sid < 64"
  shows "latest_wf (l_latest (latest_publish sid v l))"
    and "latest_value (latest_publish sid v l) j = (if j = sid then v else latest_value l j)"
proof -
  have stable: "seqlock_stable (kWords_of_bytes 40) (l_latest l ! i)" if "i < 64" for i
    using assms(1) that by (simp add: latest_wf_def list_all_length)
  show "latest_wf (l_latest (latest_publish sid v l))"
    using assms stable source_cell.cell.publish_stable
    by (auto simp: latest_wf_def latest_publish_def list_all_length nth_list_update)
  show "latest_value (latest_publish sid v l) j = (if j = sid then v else latest_value l j)"
    using assms stable source_cell.cell.publish_value
    by (auto simp: latest_value_def latest_publish_def latest_wf_def)
qed

lemma window_publish_wf:
  assumes "window_wf (l_window l)" and "sid < 64"
  shows "window_wf (l_window (window_publish sid v l))"
    and "window_value (window_publish sid v l) j = (if j = sid then v else window_value l j)"
proof -
  have stable: "seqlock_stable (kWords_of_bytes 16) (l_window l ! i)" if "i < 64" for i
    using assms(1) that by (simp add: window_wf_def list_all_length)
  show "window_wf (l_window (window_publish sid v l))"
    using assms stable window_cell.cell.publish_stable
    by (auto simp: window_wf_def window_publish_def list_all_length nth_list_update)
  show "window_value (window_publish sid v l) j = (if j = sid then v else window_value l j)"
    using assms stable window_cell.cell.publish_value
    by (auto simp: window_value_def window_publish_def window_wf_def)
qed

lemma latest_publish_frame [simp]:
  "l_control (latest_publish sid v l) = l_control l"
  "l_supervisor (latest_publish sid v l) = l_supervisor l"
  "l_ring (latest_publish sid v l) = l_ring l"
  "l_window (latest_publish sid v l) = l_window l"
  "l_snapshots (latest_publish sid v l) = l_snapshots l"
  by (simp_all add: latest_publish_def)

lemma window_publish_frame [simp]:
  "l_control (window_publish sid v l) = l_control l"
  "l_supervisor (window_publish sid v l) = l_supervisor l"
  "l_ring (window_publish sid v l) = l_ring l"
  "l_latest (window_publish sid v l) = l_latest l"
  "l_snapshots (window_publish sid v l) = l_snapshots l"
  by (simp_all add: window_publish_def)

end
