(* ===== verification/Shm_Region.thy ===== *)
theory Shm_Region
  imports Layout
begin

text \<open>
  \<^verbatim>\<open>src/shm_region.cpp\<close>: creating, attaching and closing the POSIX shared mapping.
  The kernel is outside the sources, so what its calls return is a parameter
  (\<open>shm_results\<close>) and each function returns, beside its status, the calls it
  made in order. A ledger of open descriptors, mapped addresses and linked
  names is folded over such a trace to state that nothing leaks.
\<close>

section \<open>Interface\<close>

datatype ShmStatus = ShmOk | ShmIoError | ShmSchemaMismatch

text \<open>\<open>m_layout\<close> is the address of the mapped \<open>Layout\<close>, \<open>None\<close> for the null pointer.\<close>

record ShmMapping =
  m_layout :: "nat option"
  m_fd :: int
  m_owner :: bool
  m_name :: string

definition ShmMapping_default :: ShmMapping where
  "ShmMapping_default = \<lparr>m_layout = None, m_fd = -1, m_owner = False, m_name = []\<rparr>"

text \<open>What \<open>shm_open\<close>, \<open>ftruncate\<close> and \<open>mmap\<close> return (\<open>None\<close> for \<open>MAP_FAILED\<close>).\<close>

record shm_results =
  res_shm_open :: int
  res_ftruncate :: int
  res_mmap :: "nat option"

text \<open>The calls, with the results that matter to the ledger.\<close>

datatype shm_call =
    SysShmUnlink string
  | SysShmOpen string bool int
  | SysFtruncate int
  | SysMmap int "nat option"
  | SysMunmap nat
  | SysClose int

section \<open>Operations\<close>

text \<open>\<open>mem\<close> is the content of the address space: placement new stores a fresh \<open>Layout\<close>.\<close>

definition map_fd :: "shm_results \<Rightarrow> int \<Rightarrow> bool \<Rightarrow> ShmMapping \<Rightarrow> (nat \<Rightarrow> Layout) \<Rightarrow>
    ShmStatus \<times> ShmMapping \<times> (nat \<Rightarrow> Layout) \<times> shm_call list" where
  "map_fd r fd construct out mem =
     (let trunc = (if construct then [SysFtruncate fd] else [])
      in if construct \<and> res_ftruncate r \<noteq> 0 then (ShmIoError, out, mem, trunc)
         else let calls = trunc @ [SysMmap fd (res_mmap r)]
         in case res_mmap r of
              None \<Rightarrow> (ShmIoError, out, mem, calls)
            | Some a \<Rightarrow>
                if construct then
                  (ShmOk, out\<lparr>m_layout := Some a, m_fd := fd\<rparr>, mem(a := Layout_init), calls)
                else if c_magic (l_control (mem a)) \<noteq> kShmMagic \<or> c_schema (l_control (mem a)) \<noteq> kSchemaVersion then
                  (ShmSchemaMismatch, out, mem, calls @ [SysMunmap a])
                else (ShmOk, out\<lparr>m_layout := Some a, m_fd := fd\<rparr>, mem, calls))"

definition shm_create :: "shm_results \<Rightarrow> string \<Rightarrow> ShmMapping \<Rightarrow> (nat \<Rightarrow> Layout) \<Rightarrow>
    ShmStatus \<times> ShmMapping \<times> (nat \<Rightarrow> Layout) \<times> shm_call list" where
  "shm_create r name out mem =
     (let fd = res_shm_open r;
          calls = [SysShmUnlink name, SysShmOpen name True fd]
      in if fd < 0 then (ShmIoError, out, mem, calls)
         else case map_fd r fd True out mem of (status, out', mem', calls') \<Rightarrow>
           if status \<noteq> ShmOk then
             (status, out', mem', calls @ calls' @ [SysClose fd, SysShmUnlink name])
           else (ShmOk, out'\<lparr>m_owner := True, m_name := name\<rparr>, mem', calls @ calls'))"

definition shm_open_existing :: "shm_results \<Rightarrow> string \<Rightarrow> ShmMapping \<Rightarrow> (nat \<Rightarrow> Layout) \<Rightarrow>
    ShmStatus \<times> ShmMapping \<times> (nat \<Rightarrow> Layout) \<times> shm_call list" where
  "shm_open_existing r name out mem =
     (let fd = res_shm_open r;
          calls = [SysShmOpen name False fd]
      in if fd < 0 then (ShmIoError, out, mem, calls)
         else case map_fd r fd False out mem of (status, out', mem', calls') \<Rightarrow>
           if status \<noteq> ShmOk then (status, out', mem', calls @ calls' @ [SysClose fd])
           else (ShmOk, out'\<lparr>m_owner := False, m_name := name\<rparr>, mem', calls @ calls'))"

definition shm_close :: "ShmMapping \<Rightarrow> ShmMapping \<times> shm_call list" where
  "shm_close mapping =
     ((let m = (case m_layout mapping of None \<Rightarrow> mapping | Some a \<Rightarrow> mapping\<lparr>m_layout := None\<rparr>);
           m = (if m_fd mapping \<ge> 0 then m\<lparr>m_fd := -1\<rparr> else m)
       in m\<lparr>m_owner := False, m_name := []\<rparr>),
      (case m_layout mapping of None \<Rightarrow> [] | Some a \<Rightarrow> [SysMunmap a]) @
      (if m_fd mapping \<ge> 0 then [SysClose (m_fd mapping)] else []) @
      (if m_owner mapping \<and> m_name mapping \<noteq> [] then [SysShmUnlink (m_name mapping)] else []))"

section \<open>The ledger\<close>

record shm_ledger =
  led_fds :: "int set"
  led_maps :: "nat set"
  led_names :: "string set"

fun ledger_call :: "shm_call \<Rightarrow> shm_ledger \<Rightarrow> shm_ledger" where
  "ledger_call (SysShmUnlink name) L = L\<lparr>led_names := led_names L - {name}\<rparr>"
| "ledger_call (SysShmOpen name creat fd) L =
     (if fd < 0 then L
      else L\<lparr>led_fds := insert fd (led_fds L),
             led_names := (if creat then insert name (led_names L) else led_names L)\<rparr>)"
| "ledger_call (SysFtruncate fd) L = L"
| "ledger_call (SysMmap fd None) L = L"
| "ledger_call (SysMmap fd (Some a)) L = L\<lparr>led_maps := insert a (led_maps L)\<rparr>"
| "ledger_call (SysMunmap a) L = L\<lparr>led_maps := led_maps L - {a}\<rparr>"
| "ledger_call (SysClose fd) L = L\<lparr>led_fds := led_fds L - {fd}\<rparr>"

text \<open>POSIX: a new descriptor was not open and a new mapping was not mapped.\<close>

definition fresh_results :: "shm_results \<Rightarrow> shm_ledger \<Rightarrow> bool" where
  "fresh_results r L \<longleftrightarrow> res_shm_open r \<notin> led_fds L \<and>
     (case res_mmap r of None \<Rightarrow> True | Some a \<Rightarrow> a \<notin> led_maps L)"

text \<open>A kernel that grants everything, and an empty ledger.\<close>

definition granted :: shm_results where
  "granted = \<lparr>res_shm_open = 3, res_ftruncate = 0, res_mmap = Some 4096\<rparr>"

definition empty_ledger :: shm_ledger where
  "empty_ledger = \<lparr>led_fds = {}, led_maps = {}, led_names = {}\<rparr>"

lemma fresh_granted: "fresh_results granted empty_ledger"
  by (simp add: fresh_results_def granted_def empty_ledger_def)

section \<open>Properties\<close>

text \<open>
  (C33) Creating the region leaks nothing on any path: it succeeds exactly when the
  three kernel calls succeed, and then the mapping owns a freshly constructed
  \<open>Layout\<close> under its name; when it fails, the caller's mapping and memory are
  untouched and every descriptor, mapping and name it made is gone again.
  Closing the created mapping releases all three.
\<close>

theorem shm_create_releases:
  assumes "fresh_results r L" and "shm_create r name out mem = (status, m, mem', calls)" and "name \<noteq> []"
  shows "(status = ShmOk \<longleftrightarrow> res_shm_open r \<ge> 0 \<and> res_ftruncate r = 0 \<and> res_mmap r \<noteq> None) \<and>
    (if status = ShmOk then
       m = \<lparr>m_layout = res_mmap r, m_fd = res_shm_open r, m_owner = True, m_name = name\<rparr> \<and>
       mem' = mem(the (res_mmap r) := Layout_init) \<and> name \<in> led_names (fold ledger_call calls L) \<and>
       fst (shm_close m) = ShmMapping_default \<and>
       fold ledger_call (calls @ snd (shm_close m)) L = L\<lparr>led_names := led_names L - {name}\<rparr>
     else m = out \<and> mem' = mem \<and>
       fold ledger_call calls L = L\<lparr>led_names := led_names L - {name}\<rparr>)"
proof (cases "res_shm_open r < 0")
  case True
  with assms(2) show ?thesis by (auto simp: shm_create_def)
next
  case False
  with assms show ?thesis
    by (cases "res_ftruncate r = 0"; cases "res_mmap r")
      (auto simp: shm_create_def map_fd_def Let_def shm_close_def fresh_results_def ShmMapping_default_def
        Diff_insert_absorb insert_Diff_if)
qed

theorem shm_create_releases_witness:
  "case shm_create granted ''/rh-1'' ShmMapping_default (\<lambda>_. Layout_init) of (status, m, mem, calls) \<Rightarrow>
     status = ShmOk \<and> m_owner m \<and> fold ledger_call (calls @ snd (shm_close m)) empty_ledger = empty_ledger"
proof -
  obtain status m mem calls where
    c: "shm_create granted ''/rh-1'' ShmMapping_default (\<lambda>_. Layout_init) = (status, m, mem, calls)"
    by (metis prod_cases4)
  from shm_create_releases [OF fresh_granted c] have "status = ShmOk" by (simp add: granted_def)
  with shm_create_releases [OF fresh_granted c] c show ?thesis by (auto simp: empty_ledger_def)
qed

text \<open>
  Attaching never constructs or changes the region, and refuses it exactly when
  the magic or the schema differs; a refused or failed attach leaves the
  caller's mapping alone and holds no descriptor and no mapping. Closing an
  attached mapping releases both and does not unlink the name.
\<close>

theorem shm_open_existing_releases:
  assumes "fresh_results r L" and "shm_open_existing r name out mem = (status, m, mem', calls)"
  shows "mem' = mem \<and>
    (if res_shm_open r < 0 \<or> res_mmap r = None then status = ShmIoError
     else if c_magic (l_control (mem (the (res_mmap r)))) = kShmMagic \<and>
             c_schema (l_control (mem (the (res_mmap r)))) = kSchemaVersion
     then status = ShmOk else status = ShmSchemaMismatch) \<and>
    (if status = ShmOk then
       m = \<lparr>m_layout = res_mmap r, m_fd = res_shm_open r, m_owner = False, m_name = name\<rparr> \<and>
       fst (shm_close m) = ShmMapping_default \<and> fold ledger_call (calls @ snd (shm_close m)) L = L
     else m = out \<and> fold ledger_call calls L = L)"
proof (cases "res_shm_open r < 0")
  case True
  with assms(2) show ?thesis by (auto simp: shm_open_existing_def)
next
  case False
  with assms show ?thesis
    by (cases "res_mmap r") (auto simp: shm_open_existing_def map_fd_def Let_def shm_close_def fresh_results_def
        ShmMapping_default_def split: if_splits)
qed

theorem shm_open_existing_releases_witness:
  "case shm_open_existing granted ''/rh-1'' ShmMapping_default
       (\<lambda>_. Layout_init\<lparr>l_control := ShmControl_default\<lparr>c_schema := 2\<rparr>\<rparr>) of (status, m, mem, calls) \<Rightarrow>
     status = ShmSchemaMismatch \<and> fold ledger_call calls empty_ledger = empty_ledger"
proof -
  obtain status m mem calls where c: "shm_open_existing granted ''/rh-1'' ShmMapping_default
      (\<lambda>_. Layout_init\<lparr>l_control := ShmControl_default\<lparr>c_schema := 2\<rparr>\<rparr>) = (status, m, mem, calls)"
    by (metis prod_cases4)
  note open' = shm_open_existing_releases [OF fresh_granted c]
  from open' have "status = ShmSchemaMismatch" by (simp add: granted_def kSchemaVersion_def)
  with open' c show ?thesis by simp
qed

end
