(* ===== verification/Frame.thy ===== *)
theory Frame
  imports Types
begin

text \<open>
  The wire frame: \<^verbatim>\<open>src/frame.cpp\<close>. A buffer is a byte list; a pointer into it
  is an offset. \<^verbatim>\<open>store_*\<close> and \<^verbatim>\<open>load_*\<close> are the byte-wise big-endian accesses,
  \<open>frame_crc\<close> is the bit-serial CRC-16/CCITT-FALSE loop, \<open>encode_frame\<close> and
  \<open>decode_frame\<close> are the two entry points, with every early return. The
  lemmas show the round trip in both directions, the exact byte image, the
  precedence of the rejections, and that a corrupted byte is never accepted.
\<close>

section \<open>Big-endian access\<close>

definition store_u16 :: "u8 list \<Rightarrow> nat \<Rightarrow> u16 \<Rightarrow> u8 list" where
  "store_u16 p off v = (p[off := ucast (drop_bit 8 v)])[off + 1 := ucast v]"

definition store_u32 :: "u8 list \<Rightarrow> nat \<Rightarrow> u32 \<Rightarrow> u8 list" where
  "store_u32 p off v =
     (((p[off := ucast (drop_bit 24 v)])[off + 1 := ucast (drop_bit 16 v)])
       [off + 2 := ucast (drop_bit 8 v)])[off + 3 := ucast v]"

text \<open>The loop over \<open>shift = 56, 48, \<dots>, 0\<close> that advances the pointer at each byte.\<close>

fun store_u64_loop :: "nat list \<Rightarrow> u8 list \<Rightarrow> nat \<Rightarrow> u64 \<Rightarrow> u8 list" where
  "store_u64_loop [] p off v = p"
| "store_u64_loop (shift # shifts) p off v =
     store_u64_loop shifts (p[off := ucast (drop_bit shift v)]) (off + 1) v"

definition store_u64 :: "u8 list \<Rightarrow> nat \<Rightarrow> u64 \<Rightarrow> u8 list" where
  "store_u64 p off v = store_u64_loop [56, 48, 40, 32, 24, 16, 8, 0] p off v"

text \<open>\<open>p[0] << 8\<close> is computed in \<^verbatim>\<open>int\<close> after promotion, then narrowed.\<close>

definition load_u16 :: "u8 list \<Rightarrow> nat \<Rightarrow> u16" where
  "load_u16 p off = ucast (push_bit 8 (ucast (p ! off) :: u32) OR ucast (p ! (off + 1)))"

definition load_u32 :: "u8 list \<Rightarrow> nat \<Rightarrow> u32" where
  "load_u32 p off =
     push_bit 24 (ucast (p ! off)) OR push_bit 16 (ucast (p ! (off + 1))) OR
     push_bit 8 (ucast (p ! (off + 2))) OR ucast (p ! (off + 3))"

definition load_u64 :: "u8 list \<Rightarrow> nat \<Rightarrow> u64" where
  "load_u64 p off = fold (\<lambda>i v. push_bit 8 v OR ucast (p ! (off + i))) [0..<8] 0"

section \<open>Checksum\<close>

text \<open>One turn of the inner loop: shift left, and subtract the polynomial on carry.\<close>

definition crc_bit :: "u16 \<Rightarrow> u16" where
  "crc_bit crc =
     (if crc AND 0x8000 \<noteq> 0 then push_bit 1 crc XOR 0x1021 else push_bit 1 crc)"

text \<open>One turn of the outer loop: mix in a byte, then eight bit steps.\<close>

definition crc_byte :: "u16 \<Rightarrow> u8 \<Rightarrow> u16" where
  "crc_byte crc b = (crc_bit ^^ 8) (crc XOR push_bit 8 (ucast b))"

definition frame_crc :: "u8 list \<Rightarrow> nat \<Rightarrow> u16" where
  "frame_crc data len = foldl crc_byte 0xFFFF (take len data)"

section \<open>Encode and decode\<close>

text \<open>The result is the return value and the caller's buffer afterwards.\<close>

definition encode_frame :: "Record \<Rightarrow> u8 list \<Rightarrow> bool \<times> u8 list" where
  "encode_frame r out =
     (if r_source_id r \<ge> kMaxSources then (False, out)
      else
        let out = store_u16 out 0 kFrameMagic;
            out = store_u16 out 2 kSchemaVersion;
            out = store_u16 out 4 (ucast (r_source_id r));
            out = store_u16 out 6 0;
            out = store_u32 out 8 (r_sequence r);
            out = store_u64 out 12 (r_time_ns r);
            out = store_u32 out 20 (r_pos_x r);
            out = store_u32 out 24 (r_pos_y r);
            out = store_u32 out 28 (r_vel_x r);
            out = store_u32 out 32 (r_vel_y r);
            crc = frame_crc out 36
        in (True, store_u16 out 36 crc))"

text \<open>
  \<open>None\<close> is the null pointer. The caller promises \<open>len\<close> readable bytes; the
  result is the status and the caller's \<open>out\<close> record afterwards.
\<close>

definition decode_frame :: "u8 list option \<Rightarrow> nat \<Rightarrow> Record \<Rightarrow> ParseStatus \<times> Record" where
  "decode_frame bytes len out =
     (case bytes of
        None \<Rightarrow> (Truncated, out)
      | Some bs \<Rightarrow>
          if len < kFrameBytes then (Truncated, out)
          else let local = take kFrameBytes bs in
            if load_u16 local 0 \<noteq> kFrameMagic then (BadMagic, out)
            else if load_u16 local 2 \<noteq> kSchemaVersion then (BadVersion, out)
            else let source = load_u16 local 4 in
              if (ucast source :: u32) \<ge> kMaxSources then (BadSource, out)
              else let expect = frame_crc local 36 in
                if load_u16 local 36 \<noteq> expect then (BadChecksum, out)
                else
                  (Ok, \<lparr>r_source_id = ucast source,
                        r_sequence = load_u32 local 8,
                        r_time_ns = load_u64 local 12,
                        r_pos_x = load_u32 local 20,
                        r_pos_y = load_u32 local 24,
                        r_vel_x = load_u32 local 28,
                        r_vel_y = load_u32 local 32\<rparr>))"

section \<open>Bytes of a store, words of a load\<close>

declare push_bit_Suc [simp del]

lemmas store_defs = store_u16_def store_u32_def store_u64_def

lemma length_store [simp]:
  "length (store_u16 p off a) = length p"
  "length (store_u32 p off b) = length p"
  "length (store_u64 p off c) = length p"
  by (simp_all add: store_defs)

lemma upt_8: "[0..<8] = [0, 1, 2, 3, 4, 5, 6, 7]"
  by (simp add: upt_rec)

text \<open>The load loop, unrolled: the byte at offset \<open>i\<close> carries the weight \<open>2 ^ (8 * (7 - i))\<close>.\<close>

lemma load_u64_bytes:
  "load_u64 p off =
     push_bit 56 (ucast (p ! off)) OR push_bit 48 (ucast (p ! (off + 1))) OR
     push_bit 40 (ucast (p ! (off + 2))) OR push_bit 32 (ucast (p ! (off + 3))) OR
     push_bit 24 (ucast (p ! (off + 4))) OR push_bit 16 (ucast (p ! (off + 5))) OR
     push_bit 8 (ucast (p ! (off + 6))) OR ucast (p ! (off + 7))"
  by (simp add: load_u64_def upt_8 push_bit_or or.assoc)

text \<open>A load at an offset is a load at the start of the rest of the buffer.\<close>

lemma load_drop:
  "0 < off \<Longrightarrow> off \<le> length p \<Longrightarrow> load_u16 p off = load_u16 (drop off p) 0"
  "0 < off \<Longrightarrow> off \<le> length p \<Longrightarrow> load_u32 p off = load_u32 (drop off p) 0"
  "0 < off \<Longrightarrow> off \<le> length p \<Longrightarrow> load_u64 p off = load_u64 (drop off p) 0"
  by (simp_all add: load_u16_def load_u32_def load_u64_def upt_8 add.commute)

section \<open>The byte image of a frame\<close>

text \<open>Reference: the offset table of \<^verbatim>\<open>frame.hpp\<close> as a concatenation of big-endian fields.\<close>

definition be16 :: "u16 \<Rightarrow> u8 list" where
  "be16 v = [ucast (drop_bit 8 v), ucast v]"

definition be32 :: "u32 \<Rightarrow> u8 list" where
  "be32 v = map (\<lambda>s. ucast (drop_bit s v)) [24, 16, 8, 0]"

definition be64 :: "u64 \<Rightarrow> u8 list" where
  "be64 v = map (\<lambda>s. ucast (drop_bit s v)) [56, 48, 40, 32, 24, 16, 8, 0]"

definition wire_body :: "Record \<Rightarrow> u8 list" where
  "wire_body r =
     be16 kFrameMagic @ be16 kSchemaVersion @ be16 (ucast (r_source_id r)) @ be16 0 @
     be32 (r_sequence r) @ be64 (r_time_ns r) @
     be32 (r_pos_x r) @ be32 (r_pos_y r) @ be32 (r_vel_x r) @ be32 (r_vel_y r)"

definition wire_image :: "Record \<Rightarrow> u8 list" where
  "wire_image r = wire_body r @ be16 (frame_crc (wire_body r) 36)"

lemma length_be [simp]: "length (be16 a) = 2" "length (be32 b) = 4" "length (be64 c) = 8"
  by (simp_all add: be16_def be32_def be64_def)

lemma length_wire [simp]: "length (wire_body r) = 36" "length (wire_image r) = 38"
  by (simp_all add: wire_body_def wire_image_def)

lemma update_splice:
  "off < length p \<Longrightarrow> p[off := x] = take off p @ x # drop (Suc off) p"
  by (rule upd_conv_take_nth_drop)

lemma store_splice:
  "off + 2 \<le> length p \<Longrightarrow> store_u16 p off a = take off p @ be16 a @ drop (off + 2) p"
  "off + 4 \<le> length p \<Longrightarrow> store_u32 p off b = take off p @ be32 b @ drop (off + 4) p"
  "off + 8 \<le> length p \<Longrightarrow> store_u64 p off c = take off p @ be64 c @ drop (off + 8) p"
  by (simp_all add: store_defs be16_def be32_def be64_def update_splice numeral_eq_Suc)

lemma frame_crc_prefix: "n \<le> length xs \<Longrightarrow> frame_crc (xs @ ys) n = frame_crc xs n"
  by (simp add: frame_crc_def)

lemma encode_frame_image:
  assumes "r_source_id r < kMaxSources" and "length out = kFrameBytes"
  shows "encode_frame r out = (True, wire_image r)"
proof -
  have len: "length out = 38" using assms(2) by (simp add: kFrameBytes_def)
  define body where "body =
    store_u32 (store_u32 (store_u32 (store_u32 (store_u64 (store_u32 (store_u16 (store_u16
      (store_u16 (store_u16 out 0 kFrameMagic) 2 kSchemaVersion) 4 (ucast (r_source_id r))) 6 0)
      8 (r_sequence r)) 12 (r_time_ns r)) 20 (r_pos_x r)) 24 (r_pos_y r)) 28 (r_vel_x r)) 32 (r_vel_y r)"
  have enc: "encode_frame r out = (True, store_u16 body 36 (frame_crc body 36))"
    using assms(1) by (simp add: encode_frame_def body_def Let_def not_le)
  have body: "body = wire_body r @ drop 36 out"
    using len by (simp add: body_def store_splice wire_body_def)
  have "store_u16 body 36 (frame_crc body 36) = wire_image r"
    using len by (simp add: body store_splice frame_crc_prefix wire_image_def)
  with enc show ?thesis by simp
qed

lemma load_be16 [simp]: "load_u16 (be16 v @ p) 0 = v"
  by (rule bit_word_eqI) (auto simp: load_u16_def be16_def bit_simps)

lemma load_be32 [simp]: "load_u32 (be32 v @ p) 0 = v"
proof (rule bit_word_eqI)
  fix n assume "n < LENGTH(32)"
  then consider "n < 8" | "8 \<le> n" "n < 16" | "16 \<le> n" "n < 24" | "24 \<le> n" "n < 32"
    by force
  then show "bit (load_u32 (be32 v @ p) 0) n = bit v n"
    by cases (simp_all add: load_u32_def be32_def bit_simps less_diff_conv2)
qed

lemma load_be64 [simp]: "load_u64 (be64 v @ p) 0 = v"
proof (rule bit_word_eqI)
  fix n assume "n < LENGTH(64)"
  then consider "n < 8" | "8 \<le> n" "n < 16" | "16 \<le> n" "n < 24" | "24 \<le> n" "n < 32" |
    "32 \<le> n" "n < 40" | "40 \<le> n" "n < 48" | "48 \<le> n" "n < 56" | "56 \<le> n" "n < 64"
    by force
  then show "bit (load_u64 (be64 v @ p) 0) n = bit v n"
    by cases (simp_all add: load_u64_bytes be64_def bit_simps less_diff_conv2)
qed

lemma be_load:
  "off + 2 \<le> length p \<Longrightarrow> be16 (load_u16 p off) = take 2 (drop off p)"
  "off + 4 \<le> length p \<Longrightarrow> be32 (load_u32 p off) = take 4 (drop off p)"
  "off + 8 \<le> length p \<Longrightarrow> be64 (load_u64 p off) = take 8 (drop off p)"
proof -
  show "be16 (load_u16 p off) = take 2 (drop off p)" if "off + 2 \<le> length p"
  proof -
    have "take 2 (drop off p) = [p ! off, p ! (off + 1)]"
      using that by (simp add: list_eq_iff_nth_eq less_Suc_eq numeral_eq_Suc)
    then show ?thesis by (auto simp: be16_def load_u16_def bit_simps intro!: bit_word_eqI)
  qed
  show "be32 (load_u32 p off) = take 4 (drop off p)" if "off + 4 \<le> length p"
  proof -
    have "take 4 (drop off p) = [p ! off, p ! (off + 1), p ! (off + 2), p ! (off + 3)]"
      using that by (simp add: list_eq_iff_nth_eq less_Suc_eq numeral_eq_Suc)
    then show ?thesis by (auto simp: be32_def load_u32_def bit_simps intro!: bit_word_eqI)
  qed
  show "be64 (load_u64 p off) = take 8 (drop off p)" if "off + 8 \<le> length p"
  proof -
    have "take 8 (drop off p) =
      [p ! off, p ! (off + 1), p ! (off + 2), p ! (off + 3), p ! (off + 4), p ! (off + 5), p ! (off + 6), p ! (off + 7)]"
      using that by (simp add: list_eq_iff_nth_eq less_Suc_eq numeral_eq_Suc)
    then show ?thesis by (auto simp: be64_def load_u64_bytes bit_simps intro!: bit_word_eqI)
  qed
qed

section \<open>The checksum as a linear map\<close>

text \<open>
  A bit step is linear over exclusive or and kills only zero, so it is
  injective; so are eight of them, and a byte step in its state.
\<close>

lemma and_top_bit: "(x :: u16) AND 0x8000 \<noteq> 0 \<longleftrightarrow> bit x 15"
  using and_exp_eq_0_iff_not_bit [of x 15] by simp

lemma crc_bit_eq: "crc_bit x = push_bit 1 x XOR (if bit x 15 then 0x1021 else 0)"
  by (simp add: crc_bit_def and_top_bit)

lemma crc_bit_xor: "crc_bit (x XOR y) = crc_bit x XOR crc_bit y"
  by (simp add: crc_bit_eq push_bit_xor bit_xor_iff ac_simps)

lemma crc_bit_zero_iff: "crc_bit x = 0 \<longleftrightarrow> x = 0"
proof
  assume z: "crc_bit x = 0"
  have "bit (crc_bit x) 0 \<longleftrightarrow> bit x 15"
    by (simp add: crc_bit_eq bit_simps)
  with z have top: "\<not> bit x 15" by simp
  with z have shifted: "push_bit 1 x = 0" by (simp add: crc_bit_eq)
  show "x = 0"
  proof (rule bit_word_eqI)
    fix n assume n: "n < LENGTH(16)"
    show "bit x n = bit 0 n"
    proof (cases "n = 15")
      case False
      have "bit (push_bit 1 x) (Suc n) = bit x n"
        using n False by (simp add: bit_simps)
      with shifted show ?thesis by simp
    qed (use top in simp)
  qed
qed (simp add: crc_bit_eq)

definition crc_bits8 :: "u16 \<Rightarrow> u16" where
  "crc_bits8 = crc_bit ^^ 8"

lemma crc_bits_xor: "(crc_bit ^^ n) (x XOR y) = (crc_bit ^^ n) x XOR (crc_bit ^^ n) y"
  by (induction n) (simp_all add: crc_bit_xor)

lemma crc_bits_zero_iff: "(crc_bit ^^ n) x = 0 \<longleftrightarrow> x = 0"
  by (induction n) (simp_all add: crc_bit_zero_iff)

lemma crc_bits8_xor: "crc_bits8 (x XOR y) = crc_bits8 x XOR crc_bits8 y"
  by (simp add: crc_bits8_def crc_bits_xor)

lemma xor_right_cancel: "(x :: 'a :: len word) XOR z = y XOR z \<longleftrightarrow> x = y"
proof
  assume "x XOR z = y XOR z"
  then have "(x XOR z) XOR z = (y XOR z) XOR z" by simp
  then show "x = y" by (simp add: xor.assoc)
qed simp

lemma xor_exchange:
  fixes a b p q :: "'a :: len word"
  assumes "a XOR p = b XOR q"
  shows "a XOR b = p XOR q"
proof (rule bit_word_eqI)
  fix n
  from assms have "bit (a XOR p) n = bit (b XOR q) n" by simp
  then show "bit (a XOR b) n = bit (p XOR q) n" by (auto simp: bit_xor_iff)
qed

lemma xor_common: "(c XOR x) XOR (c XOR y) = (x :: 'a :: len word) XOR y"
  by (rule xor_exchange [symmetric]) (simp add: ac_simps)

lemma xor_eq_zero_iff: "(x :: 'a :: len word) XOR y = 0 \<longleftrightarrow> x = y"
  by (metis xor_self_eq xor.assoc xor.left_neutral xor.commute)

lemma crc_bits8_inj [simp]: "crc_bits8 x = crc_bits8 y \<longleftrightarrow> x = y"
  by (metis crc_bits8_def crc_bits_zero_iff crc_bits_xor xor_eq_zero_iff)

lemma crc_byte_eq: "crc_byte c b = crc_bits8 (c XOR push_bit 8 (ucast b))"
  by (simp add: crc_byte_def crc_bits8_def)

text \<open>Eight shifts move a byte into the upper half without a carry.\<close>

lemma crc_bits_byte: "n \<le> 8 \<Longrightarrow> (crc_bit ^^ n) (ucast (b :: u8)) = push_bit n (ucast b)"
proof (induction n)
  case (Suc n)
  have "\<not> bit (push_bit n (ucast b :: u16)) 15"
    using Suc.prems by (auto simp: bit_simps dest: bit_imp_le_length)
  with Suc show ?case by (simp add: crc_bit_eq)
qed simp

lemma crc_bits8_byte: "crc_bits8 (ucast (b :: u8)) = push_bit 8 (ucast b)"
  by (simp add: crc_bits8_def crc_bits_byte)


lemma crc_byte_inj_state: "crc_byte c b = crc_byte c' b \<longleftrightarrow> c = c'"
  by (simp add: crc_byte_eq xor_right_cancel)

lemma foldl_crc_inj_state: "foldl crc_byte c bs = foldl crc_byte c' bs \<longleftrightarrow> c = c'"
  by (induction bs arbitrary: c c') (simp_all add: crc_byte_inj_state)

lemma push_bit_8_byte_eq_byte:
  assumes "push_bit 8 (ucast (d :: u8)) = (ucast (e :: u8) :: u16)"
  shows "d = 0"
proof (rule bit_word_eqI)
  fix n assume n: "n < LENGTH(8)"
  then have "bit (push_bit 8 (ucast d :: u16)) (8 + n) = bit d n"
    by (simp add: bit_simps)
  moreover have "\<not> bit (ucast e :: u16) (8 + n)" by (simp add: bit_simps)
  ultimately show "bit d n = bit 0 n" using assms by simp
qed

lemma ucast_byte_xor: "(ucast (a XOR b :: u8) :: u16) = ucast a XOR ucast b"
  by (rule unsigned_xor_eq)

lemma ucast_u16_u32: "(ucast (ucast (v :: u16) :: u32) :: u16) = v"
  by (rule bit_word_eqI) (auto simp: bit_simps dest: bit_imp_le_length)

text \<open>Two consecutive bytes drive the register through distinct states: no two pairs collide.\<close>

lemma crc_two_bytes_inj:
  assumes "crc_byte (crc_byte c a) b = crc_byte (crc_byte c a') b'"
  shows "a = a' \<and> b = b'"
proof -
  define d e where "d = a XOR a'" and "e = b XOR b'"
  from assms have "crc_byte c a XOR push_bit 8 (ucast b) = crc_byte c a' XOR push_bit 8 (ucast b')"
    by (simp add: crc_byte_eq [of _ b] crc_byte_eq [of _ b'])
  then have "crc_byte c a XOR crc_byte c a' = push_bit 8 (ucast b) XOR push_bit 8 (ucast b')"
    by (rule xor_exchange)
  then have "crc_byte c a XOR crc_byte c a' = push_bit 8 (ucast e)"
    by (simp only: e_def ucast_byte_xor push_bit_xor)
  moreover have "crc_byte c a XOR crc_byte c a' = crc_bits8 (push_bit 8 (ucast d))"
    by (simp only: crc_byte_eq d_def ucast_byte_xor push_bit_xor xor_common crc_bits8_xor [symmetric])
  ultimately have "crc_bits8 (push_bit 8 (ucast d)) = crc_bits8 (ucast e)"
    by (simp add: crc_bits8_byte)
  then have de: "push_bit 8 (ucast d) = (ucast e :: u16)" by simp
  then have "d = 0" by (rule push_bit_8_byte_eq_byte)
  with de have "ucast e = (0 :: u16)" by simp
  then have "e = 0" by (auto simp: bit_eq_iff bit_simps dest: bit_imp_le_length)
  with \<open>d = 0\<close> show ?thesis by (simp add: d_def e_def xor_eq_zero_iff)
qed

text \<open>Appending the checksum drives the register to zero, and nothing else does.\<close>

lemma crc_own_checksum: "foldl crc_byte c (be16 c) = 0"
proof -
  have "c XOR push_bit 8 (ucast (ucast (drop_bit 8 c) :: u8)) = ucast (ucast c :: u8)"
    by (rule bit_word_eqI) (auto simp: bit_simps)
  then have "crc_byte c (ucast (drop_bit 8 c)) = push_bit 8 (ucast (ucast c :: u8))"
    by (simp add: crc_byte_eq crc_bits8_byte)
  then show ?thesis
    by (simp add: be16_def crc_byte_eq) (simp add: crc_bits8_def crc_bits_zero_iff)
qed

lemma crc_residue: "foldl crc_byte c (be16 v) = 0 \<longleftrightarrow> v = c"
proof
  assume "foldl crc_byte c (be16 v) = 0"
  with crc_own_checksum [of c] have "foldl crc_byte c (be16 v) = foldl crc_byte c (be16 c)" by simp
  then have "ucast (drop_bit 8 v) = (ucast (drop_bit 8 c) :: u8) \<and> ucast v = (ucast c :: u8)"
    by (simp add: be16_def crc_two_bytes_inj)
  then have "be16 v = be16 c" by (simp add: be16_def)
  then show "v = c" by (metis append_Nil2 load_be16)
qed (simp add: crc_own_checksum)


section \<open>Properties of the codec\<close>

lemma decode_frame_Ok_iff:
  assumes "length bs = kFrameBytes"
  shows "fst (decode_frame (Some bs) kFrameBytes out) = Ok \<longleftrightarrow>
    load_u16 bs 0 = kFrameMagic \<and> load_u16 bs 2 = kSchemaVersion \<and>
    (ucast (load_u16 bs 4) :: u32) < kMaxSources \<and> foldl crc_byte 0xFFFF bs = 0"
proof -
  have len: "length bs = 38" using assms by (simp add: kFrameBytes_def)
  have "bs = take 36 bs @ drop 36 bs" by simp
  also have "drop 36 bs = be16 (load_u16 bs 36)" using len by (simp add: be_load)
  finally have "foldl crc_byte 0xFFFF bs = foldl crc_byte (frame_crc bs 36) (be16 (load_u16 bs 36))"
    by (metis foldl_append frame_crc_def)
  then have "foldl crc_byte 0xFFFF bs = 0 \<longleftrightarrow> load_u16 bs 36 = frame_crc bs 36"
    by (simp only: crc_residue)
  with len show ?thesis
    by (auto simp: decode_frame_def Let_def kFrameBytes_def not_le split: if_splits)
qed

lemma decode_wire_image:
  assumes "r_source_id r < kMaxSources"
  shows "decode_frame (Some (wire_image r)) kFrameBytes out = (Ok, r)"
proof -
  have "take_bit 16 (unat (r_source_id r)) = unat (r_source_id r)"
    using assms by (simp add: less_kMaxSources_iff take_bit_nat_eq_self_iff)
  then have src: "(ucast (ucast (r_source_id r) :: u16) :: u32) = r_source_id r"
    by (intro iffD2 [OF word_unat_eq_iff]) (simp add: unsigned_ucast_eq unsigned_take_bit_eq)
  have crc: "frame_crc (wire_image r) 36 = frame_crc (wire_body r) 36"
    by (simp add: wire_image_def frame_crc_prefix)
  have tail: "load_u16 (wire_image r) 36 = frame_crc (wire_body r) 36"
    using load_be16 [of _ "[]"] by (simp add: load_drop wire_image_def)
  have fields:
    "load_u16 (wire_image r) 0 = kFrameMagic" "load_u16 (wire_image r) 2 = kSchemaVersion"
    "load_u16 (wire_image r) 4 = ucast (r_source_id r)" "load_u32 (wire_image r) 8 = r_sequence r"
    "load_u64 (wire_image r) 12 = r_time_ns r" "load_u32 (wire_image r) 20 = r_pos_x r"
    "load_u32 (wire_image r) 24 = r_pos_y r" "load_u32 (wire_image r) 28 = r_vel_x r"
    "load_u32 (wire_image r) 32 = r_vel_y r"
    by (simp_all add: load_drop) (simp_all add: wire_image_def wire_body_def)
  show ?thesis
    using assms
    by (simp add: decode_frame_def kFrameBytes_def Let_def fields tail crc src flip: not_le)
qed

text \<open>
  (C5) Wire round trip: a record with a valid source id is encoded (the call
  returns true) and decoding the 38 bytes written gives Ok and the same
  record, whatever the buffers held before.
\<close>

theorem decode_encode_frame:
  assumes "r_source_id r < kMaxSources" and "length buf = kFrameBytes"
  shows "fst (encode_frame r buf) \<and>
    decode_frame (Some (snd (encode_frame r buf))) kFrameBytes out = (Ok, r)"
  using assms by (simp add: encode_frame_image decode_wire_image)

text \<open>The record of \<^verbatim>\<open>tests/test_frame.cpp\<close>, with its negative fields.\<close>

definition sample_record :: Record where
  "sample_record = \<lparr>r_source_id = 3, r_sequence = 9, r_time_ns = - 15,
     r_pos_x = - 1000, r_pos_y = 2000, r_vel_x = 50, r_vel_y = - 4\<rparr>"

theorem decode_encode_frame_witness:
  "fst (encode_frame sample_record (replicate 38 0)) \<and>
   decode_frame (Some (snd (encode_frame sample_record (replicate 38 0)))) kFrameBytes
     (Record_default\<lparr>r_pos_x := 42\<rparr>) = (Ok, sample_record)"
  by (rule decode_encode_frame) (simp_all add: sample_record_def bound_defs)

text \<open>
  Encoding writes exactly the big-endian image of the offset table in
  \<^verbatim>\<open>frame.hpp\<close>: magic, schema, source, a zero half-word, sequence, time, position,
  velocity, and the CRC of the 36 bytes before it; with an out-of-range source
  id it returns false and leaves the buffer untouched.
\<close>

theorem encode_frame_spec:
  assumes "length out = kFrameBytes"
  shows "encode_frame r out =
    (if r_source_id r < kMaxSources then (True, wire_image r) else (False, out))"
  using assms by (auto simp: encode_frame_image) (simp add: encode_frame_def not_less)

theorem encode_frame_spec_witness:
  "encode_frame (sample_record\<lparr>r_source_id := 64\<rparr>) (replicate 38 7) = (False, replicate 38 7) \<and>
   encode_frame sample_record (replicate 38 7) = (True, wire_image sample_record)"
  using encode_frame_spec [of "replicate 38 7" "sample_record\<lparr>r_source_id := 64\<rparr>"]
    encode_frame_spec [of "replicate 38 7" sample_record]
  by (simp add: sample_record_def bound_defs)

text \<open>
  The other direction: a 38-byte frame with a zero reserved half-word that
  decodes to a record is exactly what encoding that record writes, so two
  accepted frames with the same contents are the same bytes.
\<close>

theorem encode_decode_frame:
  assumes "length bs = kFrameBytes" and "load_u16 bs 6 = 0" and "length buf = kFrameBytes"
    and "decode_frame (Some bs) kFrameBytes out = (Ok, r)"
  shows "encode_frame r buf = (True, bs)"
proof -
  have len: "length bs = 38" using assms(1) by (simp add: kFrameBytes_def)
  note dec = assms(4) [unfolded decode_frame_def Let_def kFrameBytes_def, simplified, simplified len]
  have r: "r = \<lparr>r_source_id = ucast (load_u16 bs 4), r_sequence = load_u32 bs 8, r_time_ns = load_u64 bs 12,
      r_pos_x = load_u32 bs 20, r_pos_y = load_u32 bs 24, r_vel_x = load_u32 bs 28, r_vel_y = load_u32 bs 32\<rparr>"
    and ok: "load_u16 bs 0 = kFrameMagic" "load_u16 bs 2 = kSchemaVersion"
      "load_u16 bs 36 = frame_crc bs 36" "r_source_id r < kMaxSources"
    using dec len by (auto split: if_splits)
  have "wire_body r =
      be16 (load_u16 bs 0) @ be16 (load_u16 bs 2) @ be16 (load_u16 bs 4) @ be16 (load_u16 bs 6) @
      be32 (load_u32 bs 8) @ be64 (load_u64 bs 12) @ be32 (load_u32 bs 20) @ be32 (load_u32 bs 24) @
      be32 (load_u32 bs 28) @ be32 (load_u32 bs 32)"
    by (simp add: wire_body_def r ok assms(2) ucast_u16_u32)
  also have "\<dots> = take 36 bs"
    using len by (simp add: be_load) (simp add: take_add [symmetric] del: take_append flip: append_assoc)
  finally have body: "wire_body r = take 36 bs" .
  have "wire_image r = take 36 bs @ be16 (load_u16 bs 36)"
    by (simp add: wire_image_def body ok frame_crc_def)
  also have "\<dots> = bs" using len by (simp add: be_load)
  finally show ?thesis using encode_frame_image [OF ok(4) assms(3)] by simp
qed

theorem encode_decode_frame_witness:
  "encode_frame sample_record (replicate 38 1) = (True, wire_image sample_record)"
  by (rule encode_decode_frame [of _ _ Record_default])
    (simp_all add: kFrameBytes_def load_drop decode_wire_image [unfolded kFrameBytes_def]
      sample_record_def kMaxSources_def, simp add: wire_image_def wire_body_def)

text \<open>
  (C4) Error detection: a frame that was accepted and then had one byte, or two
  adjacent bytes, changed in any way is not accepted any more (so every burst
  of at most nine bits, and every aligned 16-bit burst, is caught).
\<close>

theorem corrupted_frame_rejected:
  assumes "length bs = kFrameBytes" and "fst (decode_frame (Some bs) kFrameBytes out) = Ok"
    and "i + 1 < kFrameBytes" and "bs[i := a, i + 1 := b] \<noteq> bs"
  shows "fst (decode_frame (Some (bs[i := a, i + 1 := b])) kFrameBytes out) \<noteq> Ok"
proof
  have len: "length bs = 38" and i: "Suc i < 38" using assms by (simp_all add: kFrameBytes_def)
  define bs' where "bs' = bs[i := a, i + 1 := b]"
  define c where "c = foldl crc_byte 0xFFFF (take i bs)"
  assume "fst (decode_frame (Some (bs[i := a, i + 1 := b])) kFrameBytes out) = Ok"
  then have zero: "foldl crc_byte 0xFFFF bs' = 0" "foldl crc_byte 0xFFFF bs = 0"
    using assms(1,2) decode_frame_Ok_iff [of bs out] decode_frame_Ok_iff [of bs' out]
    by (simp_all add: bs'_def)
  have split: "bs = take i bs @ bs ! i # bs ! Suc i # drop (Suc (Suc i)) bs"
    using i len by (simp add: Cons_nth_drop_Suc)
  have "bs' = take i bs @ a # b # drop (Suc (Suc i)) bs"
    using i len unfolding bs'_def by (subst split) (simp add: list_update_append)
  with zero(1) have "foldl crc_byte (crc_byte (crc_byte c a) b) (drop (Suc (Suc i)) bs) = 0"
    by (simp add: c_def)
  moreover from zero(2) have
    "foldl crc_byte (crc_byte (crc_byte c (bs ! i)) (bs ! Suc i)) (drop (Suc (Suc i)) bs) = 0"
    by (subst (asm) split) (simp add: c_def)
  ultimately have "crc_byte (crc_byte c a) b = crc_byte (crc_byte c (bs ! i)) (bs ! Suc i)"
    by (metis foldl_crc_inj_state)
  then have "a = bs ! i" "b = bs ! Suc i" using crc_two_bytes_inj by blast+
  then show False using assms(4) by simp
qed

theorem corrupted_frame_rejected_witness:
  "fst (decode_frame (Some ((wire_image sample_record)[20 := 0, 21 := 1])) kFrameBytes Record_default) \<noteq> Ok"
proof -
  have "r_source_id sample_record < kMaxSources" by (simp add: sample_record_def kMaxSources_def)
  then have ok: "fst (decode_frame (Some (wire_image sample_record)) kFrameBytes Record_default) = Ok"
    by (simp add: decode_wire_image)
  have "wire_image sample_record ! 20 \<noteq> 0"
    by (simp add: wire_image_def wire_body_def nth_append be32_def sample_record_def)
  then have ne: "(wire_image sample_record)[20 := 0, 20 + 1 := 1] \<noteq> wire_image sample_record"
    by (auto simp: list_eq_iff_nth_eq intro!: exI [of _ 20])
  show ?thesis
    using corrupted_frame_rejected [OF _ ok _ ne] by (simp add: kFrameBytes_def)
qed

text \<open>
  A rejected frame leaves the caller's record as it was, and an accepted
  one overwrites all of it: the result does not depend on the old contents, and
  its source id is a valid slot index.
\<close>

theorem decode_frame_out:
  "if fst (decode_frame bytes len out) = Ok
   then r_source_id (snd (decode_frame bytes len out)) < kMaxSources \<and>
     (\<forall>out'. decode_frame bytes len out' = decode_frame bytes len out)
   else snd (decode_frame bytes len out) = out"
  by (auto simp: decode_frame_def Let_def not_le split: option.splits)

end
