(* ===== verification/Bounded_Queue.thy ===== *)
theory Bounded_Queue
  imports Types Fifo_Contract
begin

text \<open>
  \<^verbatim>\<open>include/ratehub/bounded_queue.hpp\<close>, the mutex queue between the two ingest
  threads. The bodies of \<open>push\<close>, \<open>pop\<close> and \<open>close\<close> run under the mutex, so each is
  one atomic operation; a call whose wait predicate is false does not return,
  which is the value \<open>None\<close> here. The second part is the monitor: the two
  threads, the condition variable with its sleeping threads, the
  \<open>notify_one\<close> after the unlock as a step of its own, and spurious wake-ups.
\<close>

section \<open>The queue\<close>

record 'a BoundedQueue =
  bq_slots :: "'a list"
  bq_head :: nat
  bq_size :: nat
  bq_closed :: bool

definition BoundedQueue_init :: "nat \<Rightarrow> 'a \<Rightarrow> 'a BoundedQueue" where
  "BoundedQueue_init cap d = \<lparr>bq_slots = replicate cap d, bq_head = 0, bq_size = 0, bq_closed = False\<rparr>"

definition push_ready :: "nat \<Rightarrow> 'a BoundedQueue \<Rightarrow> bool" where
  "push_ready cap q \<longleftrightarrow> bq_closed q \<or> bq_size q < cap"

definition pop_ready :: "'a BoundedQueue \<Rightarrow> bool" where
  "pop_ready q \<longleftrightarrow> bq_closed q \<or> bq_size q > 0"

definition BoundedQueue_push :: "nat \<Rightarrow> 'a \<Rightarrow> 'a BoundedQueue \<Rightarrow> (bool \<times> 'a BoundedQueue) option" where
  "BoundedQueue_push cap v q =
     (if \<not> push_ready cap q then None
      else if bq_closed q then Some (False, q)
      else Some (True, q\<lparr>bq_slots := (bq_slots q)[(bq_head q + bq_size q) mod cap := v],
                         bq_size := bq_size q + 1\<rparr>))"

definition BoundedQueue_pop :: "nat \<Rightarrow> 'a BoundedQueue \<Rightarrow> ('a option \<times> 'a BoundedQueue) option" where
  "BoundedQueue_pop cap q =
     (if \<not> pop_ready q then None
      else if bq_size q = 0 then Some (None, q)
      else Some (Some (bq_slots q ! bq_head q),
                 q\<lparr>bq_head := (bq_head q + 1) mod cap, bq_size := bq_size q - 1\<rparr>))"

definition BoundedQueue_close :: "'a BoundedQueue \<Rightarrow> 'a BoundedQueue" where
  "BoundedQueue_close q = q\<lparr>bq_closed := True\<rparr>"

section \<open>The monitor\<close>

text \<open>
  \<open>Try\<close>: about to take the mutex and test the predicate; \<open>Wait\<close>: asleep on the
  condition variable; \<open>Notify\<close>: unlocked, about to call \<open>notify_one\<close>;
  \<open>Done\<close>: the source thread has closed the queue, or the frame thread has seen
  the end; \<open>Left\<close>: the frame thread has left its loop for another reason (a
  shutdown), without closing the queue. The histories record the completed pushes and pops.
\<close>

datatype 'a bq_producer = QPIdle | QPTry 'a | QPWait 'a | QPNotify | QPDone

datatype bq_consumer = QCIdle | QCTry | QCWait | QCNotify | QCDone | QCLeft

record 'a bq_sys =
  bq :: "'a BoundedQueue"
  bq_p :: "'a bq_producer"
  bq_c :: bq_consumer
  bq_pushed :: "'a list"
  bq_popped :: "'a list"

definition bq_start :: "nat \<Rightarrow> 'a \<Rightarrow> 'a bq_sys" where
  "bq_start cap d = \<lparr>bq = BoundedQueue_init cap d, bq_p = QPIdle, bq_c = QCIdle,
     bq_pushed = [], bq_popped = []\<rparr>"

fun wake_producer :: "'a bq_producer \<Rightarrow> 'a bq_producer" where
  "wake_producer (QPWait v) = QPTry v"
| "wake_producer p = p"

fun wake_consumer :: "bq_consumer \<Rightarrow> bq_consumer" where
  "wake_consumer QCWait = QCTry"
| "wake_consumer c = c"

inductive bq_step :: "nat \<Rightarrow> 'a bq_sys \<Rightarrow> 'a bq_sys \<Rightarrow> bool" for cap where
  qp_call: "bq_p s = QPIdle \<Longrightarrow> bq_step cap s (s\<lparr>bq_p := QPTry v\<rparr>)"
| qp_sleep: "bq_p s = QPTry v \<Longrightarrow> BoundedQueue_push cap v (bq s) = None \<Longrightarrow>
    bq_step cap s (s\<lparr>bq_p := QPWait v\<rparr>)"
| qp_closed: "bq_p s = QPTry v \<Longrightarrow> BoundedQueue_push cap v (bq s) = Some (False, q') \<Longrightarrow>
    bq_step cap s (s\<lparr>bq := q', bq_p := QPIdle\<rparr>)"
| qp_store: "bq_p s = QPTry v \<Longrightarrow> BoundedQueue_push cap v (bq s) = Some (True, q') \<Longrightarrow>
    bq_step cap s (s\<lparr>bq := q', bq_p := QPNotify, bq_pushed := bq_pushed s @ [v]\<rparr>)"
| qp_notify: "bq_p s = QPNotify \<Longrightarrow>
    bq_step cap s (s\<lparr>bq_p := QPIdle, bq_c := wake_consumer (bq_c s)\<rparr>)"
| qp_close: "bq_p s = QPIdle \<Longrightarrow>
    bq_step cap s (s\<lparr>bq := BoundedQueue_close (bq s), bq_p := QPDone, bq_c := wake_consumer (bq_c s)\<rparr>)"
| qp_spurious: "bq_p s = QPWait v \<Longrightarrow> bq_step cap s (s\<lparr>bq_p := QPTry v\<rparr>)"
| qc_call: "bq_c s = QCIdle \<Longrightarrow> bq_step cap s (s\<lparr>bq_c := QCTry\<rparr>)"
| qc_sleep: "bq_c s = QCTry \<Longrightarrow> BoundedQueue_pop cap (bq s) = None \<Longrightarrow>
    bq_step cap s (s\<lparr>bq_c := QCWait\<rparr>)"
| qc_end: "bq_c s = QCTry \<Longrightarrow> BoundedQueue_pop cap (bq s) = Some (None, q') \<Longrightarrow>
    bq_step cap s (s\<lparr>bq := q', bq_c := QCDone\<rparr>)"
| qc_take: "bq_c s = QCTry \<Longrightarrow> BoundedQueue_pop cap (bq s) = Some (Some x, q') \<Longrightarrow>
    bq_step cap s (s\<lparr>bq := q', bq_c := QCNotify, bq_popped := bq_popped s @ [x]\<rparr>)"
| qc_notify: "bq_c s = QCNotify \<Longrightarrow>
    bq_step cap s (s\<lparr>bq_c := QCIdle, bq_p := wake_producer (bq_p s)\<rparr>)"
| qc_leave: "bq_c s = QCIdle \<Longrightarrow> bq_step cap s (s\<lparr>bq_c := QCLeft\<rparr>)"
| qc_spurious: "bq_c s = QCWait \<Longrightarrow> bq_step cap s (s\<lparr>bq_c := QCTry\<rparr>)"

section \<open>Abstraction to a list\<close>

definition bq_wf :: "nat \<Rightarrow> 'a BoundedQueue \<Rightarrow> bool" where
  "bq_wf cap q \<longleftrightarrow> 0 < cap \<and> length (bq_slots q) = cap \<and> bq_head q < cap \<and> bq_size q \<le> cap"

definition bq_items :: "nat \<Rightarrow> 'a BoundedQueue \<Rightarrow> 'a list" where
  "bq_items cap q = map (\<lambda>i. bq_slots q ! ((bq_head q + i) mod cap)) [0..<bq_size q]"

lemma length_bq_items [simp]: "length (bq_items cap q) = bq_size q"
  by (simp add: bq_items_def)

lemma bq_push_store:
  assumes "bq_wf cap q" and "BoundedQueue_push cap v q = Some (True, q')"
  shows "bq_wf cap q' \<and> bq_items cap q' = bq_items cap q @ [v] \<and> bq_size q < cap \<and>
    bq_closed q' = bq_closed q \<and> \<not> bq_closed q"
proof -
  from assms(2) have lt: "bq_size q < cap" and open': "\<not> bq_closed q"
    and q': "q' = q\<lparr>bq_slots := (bq_slots q)[(bq_head q + bq_size q) mod cap := v], bq_size := bq_size q + 1\<rparr>"
    by (auto simp: BoundedQueue_push_def push_ready_def split: if_splits)
  have "(bq_head q + bq_size q) mod cap \<noteq> (bq_head q + i) mod cap" if "i < bq_size q" for i
    using mod_neq_within_lap [of "bq_head q + i" "bq_head q + bq_size q" cap] that lt by simp
  then have "map (\<lambda>i. bq_slots q' ! ((bq_head q + i) mod cap)) [0..<bq_size q] = bq_items cap q"
    unfolding bq_items_def q' by (intro map_cong) auto
  with assms(1) lt open' show ?thesis
    by (simp add: bq_wf_def bq_items_def) (simp add: q')
qed

lemma bq_pop_take:
  assumes "bq_wf cap q" and "bq_items cap q = x # xs"
  shows "\<exists>q'. BoundedQueue_pop cap q = Some (Some x, q') \<and> bq_wf cap q' \<and> bq_items cap q' = xs \<and>
    bq_closed q' = bq_closed q"
proof -
  from assms(2) obtain n where n: "bq_size q = Suc n" by (metis length_bq_items length_Cons)
  define q' where "q' = q\<lparr>bq_head := (bq_head q + 1) mod cap, bq_size := bq_size q - 1\<rparr>"
  have "bq_items cap q = bq_slots q ! bq_head q # map (\<lambda>i. bq_slots q ! ((Suc (bq_head q) + i) mod cap)) [0..<n]"
    using assms(1) by (simp add: bq_items_def n upt_conv_Cons map_Suc_upt [symmetric] o_def bq_wf_def del: upt_Suc)
  with assms(2) have x: "x = bq_slots q ! bq_head q"
    and xs: "xs = map (\<lambda>i. bq_slots q ! ((Suc (bq_head q) + i) mod cap)) [0..<n]" by simp_all
  have "bq_items cap q' = xs"
    by (simp add: bq_items_def q'_def n xs mod_add_left_eq)
  moreover have "bq_wf cap q'" using assms(1) by (auto simp: bq_wf_def q'_def)
  moreover have "BoundedQueue_pop cap q = Some (Some x, q')"
    using n by (simp add: BoundedQueue_pop_def pop_ready_def q'_def x)
  ultimately show ?thesis by (auto simp: q'_def)
qed

text \<open>An open queue meets the bounded queue contract: "full" and "empty" are where a call blocks.\<close>

definition bq_offer :: "nat \<Rightarrow> 'a \<Rightarrow> 'a BoundedQueue \<Rightarrow> bool \<times> 'a BoundedQueue" where
  "bq_offer cap v q = (case BoundedQueue_push cap v q of None \<Rightarrow> (False, q) | Some r \<Rightarrow> r)"

definition bq_poll :: "nat \<Rightarrow> 'a BoundedQueue \<Rightarrow> ('a \<times> 'a BoundedQueue) option" where
  "bq_poll cap q = (case BoundedQueue_pop cap q of Some (Some x, q') \<Rightarrow> Some (x, q') | _ \<Rightarrow> None)"

lemma bounded_queue_is_fifo:
  "bounded_fifo (bq_offer cap) (bq_poll cap) (bq_items cap) (\<lambda>q. bq_wf cap q \<and> \<not> bq_closed q) cap"
proof unfold_locales
  fix q :: "'a BoundedQueue" and v x xs
  assume ok: "bq_wf cap q \<and> \<not> bq_closed q"
  show "length (bq_items cap q) \<le> cap" using ok by (simp add: bq_wf_def)
  show "bq_offer cap v q = (False, q)" if "length (bq_items cap q) = cap"
    using ok that by (simp add: bq_offer_def BoundedQueue_push_def push_ready_def)
  show "\<exists>q'. bq_offer cap v q = (True, q') \<and> (bq_wf cap q' \<and> \<not> bq_closed q') \<and> bq_items cap q' = bq_items cap q @ [v]"
    if "length (bq_items cap q) < cap"
  proof -
    from ok that obtain q' where push: "BoundedQueue_push cap v q = Some (True, q')"
      by (simp add: BoundedQueue_push_def push_ready_def)
    then show ?thesis using bq_push_store [OF _ push] ok by (simp add: bq_offer_def)
  qed
  show "bq_poll cap q = None" if "bq_items cap q = []"
    using ok that length_bq_items [of cap q] by (simp add: bq_poll_def BoundedQueue_pop_def pop_ready_def)
  show "\<exists>q'. bq_poll cap q = Some (x, q') \<and> (bq_wf cap q' \<and> \<not> bq_closed q') \<and> bq_items cap q' = xs"
    if "bq_items cap q = x # xs"
    using bq_pop_take [OF _ that] ok by (auto simp: bq_poll_def)
qed

text \<open>The queue of \<^verbatim>\<open>run_ingest\<close>: 64 frames.\<close>

interpretation frame_queue: bounded_fifo "bq_offer 64" "bq_poll 64" "bq_items 64"
  "\<lambda>q :: u8 list BoundedQueue. bq_wf 64 q \<and> \<not> bq_closed q" 64
  by (rule bounded_queue_is_fifo)


section \<open>The two threads\<close>

definition bq_inv :: "nat \<Rightarrow> 'a bq_sys \<Rightarrow> bool" where
  "bq_inv cap s \<longleftrightarrow>
     bq_wf cap (bq s) \<and>
     bq_popped s @ bq_items cap (bq s) = bq_pushed s \<and>
     (bq_closed (bq s) \<longleftrightarrow> bq_p s = QPDone) \<and>
     (\<forall>v. bq_p s = QPWait v \<longrightarrow> bq_size (bq s) = cap \<or> bq_c s = QCNotify) \<and>
     (bq_c s = QCWait \<longrightarrow> bq_size (bq s) = 0 \<and> \<not> bq_closed (bq s) \<or> bq_p s = QPNotify) \<and>
     (bq_c s = QCDone \<longrightarrow> bq_closed (bq s) \<and> bq_size (bq s) = 0)"

lemma bq_inv_start: "0 < cap \<Longrightarrow> bq_inv cap (bq_start cap d)"
  by (simp add: bq_inv_def bq_start_def BoundedQueue_init_def bq_wf_def bq_items_def)

lemma bq_push_None: "BoundedQueue_push cap v q = None \<longleftrightarrow> \<not> bq_closed q \<and> \<not> bq_size q < cap"
  by (auto simp: BoundedQueue_push_def push_ready_def)

lemma bq_push_False: "BoundedQueue_push cap v q = Some (False, q') \<longleftrightarrow> bq_closed q \<and> q' = q"
  by (auto simp: BoundedQueue_push_def push_ready_def)

lemma bq_pop_None: "BoundedQueue_pop cap q = None \<longleftrightarrow> \<not> bq_closed q \<and> bq_size q = 0"
  by (auto simp: BoundedQueue_pop_def pop_ready_def)

lemma bq_pop_end: "BoundedQueue_pop cap q = Some (None, q') \<longleftrightarrow> bq_closed q \<and> bq_size q = 0 \<and> q' = q"
  by (auto simp: BoundedQueue_pop_def pop_ready_def)

lemma bq_pop_Some:
  assumes "bq_wf cap q" and "BoundedQueue_pop cap q = Some (Some x, q')"
  shows "bq_wf cap q' \<and> bq_items cap q = x # bq_items cap q' \<and> bq_closed q' = bq_closed q \<and> 0 < bq_size q"
proof -
  from assms(2) have "bq_size q \<noteq> 0" by (auto simp: BoundedQueue_pop_def split: if_splits)
  then obtain y ys where "bq_items cap q = y # ys" by (metis length_bq_items length_0_conv neq_Nil_conv)
  with bq_pop_take [OF assms(1) this] assms(2) \<open>bq_size q \<noteq> 0\<close> show ?thesis by auto
qed

lemma bq_store_size: "BoundedQueue_push cap v q = Some (True, q') \<Longrightarrow> bq_size q' = Suc (bq_size q)"
  by (auto simp: BoundedQueue_push_def split: if_splits)

lemma bq_items_close [simp]: "bq_items cap (BoundedQueue_close q) = bq_items cap q"
  and bq_wf_close [simp]: "bq_wf cap (BoundedQueue_close q) = bq_wf cap q"
  and bq_size_close [simp]: "bq_size (BoundedQueue_close q) = bq_size q"
  and bq_closed_close [simp]: "bq_closed (BoundedQueue_close q)"
  by (simp_all add: bq_items_def bq_wf_def BoundedQueue_close_def)

lemma bq_inv_store:
  assumes "bq_inv cap s" and "bq_p s = QPTry v" and push: "BoundedQueue_push cap v (bq s) = Some (True, q')"
  shows "bq_inv cap (s\<lparr>bq := q', bq_p := QPNotify, bq_pushed := bq_pushed s @ [v]\<rparr>)"
  using assms bq_push_store [OF _ push] bq_store_size [OF push]
  by (auto simp: bq_inv_def simp flip: append_assoc)

lemma bq_inv_take:
  assumes "bq_inv cap s" and "bq_c s = QCTry" and pop: "BoundedQueue_pop cap (bq s) = Some (Some x, q')"
  shows "bq_inv cap (s\<lparr>bq := q', bq_c := QCNotify, bq_popped := bq_popped s @ [x]\<rparr>)"
  using assms bq_pop_Some [OF _ pop] by (auto simp: bq_inv_def)

lemma wake_producer_iff [simp]:
  "wake_producer p = QPDone \<longleftrightarrow> p = QPDone" "wake_producer p \<noteq> QPWait v" "wake_producer p = QPNotify \<longleftrightarrow> p = QPNotify"
  by (cases p; simp)+

lemma wake_consumer_iff [simp]:
  "wake_consumer c = QCDone \<longleftrightarrow> c = QCDone" "wake_consumer c \<noteq> QCWait" "wake_consumer c = QCNotify \<longleftrightarrow> c = QCNotify"
  by (cases c; simp)+

lemma bq_inv_step:
  assumes inv: "bq_inv cap s" and "bq_step cap s t"
  shows "bq_inv cap t"
  using assms(2)
proof cases
  case (qp_sleep v)
  with inv show ?thesis by (auto simp: bq_inv_def bq_push_None bq_wf_def)
next
  case (qp_store v q')
  with inv show ?thesis by (simp add: bq_inv_store)
next
  case (qc_take x q')
  with inv show ?thesis by (simp add: bq_inv_take)
next
  case qp_close
  with inv show ?thesis by (auto simp: bq_inv_def)
qed (insert inv, auto simp: bq_inv_def bq_push_False bq_pop_None bq_pop_end)

interpretation queue_machine: step_machine "\<lambda>s. 0 < cap \<and> s = bq_start cap d" "bq_step cap" "bq_inv cap" for cap d
  by unfold_locales (auto intro: bq_inv_start bq_inv_step)

subsection \<open>Draining after the close\<close>

text \<open>What is left to do for the frame thread once the queue is closed.\<close>

fun bq_consumer_rank :: "bq_consumer \<Rightarrow> nat" where
  "bq_consumer_rank QCIdle = 2"
| "bq_consumer_rank QCTry = 1"
| "bq_consumer_rank QCNotify = 3"
| "bq_consumer_rank _ = 0"

definition bq_drain_rank :: "'a bq_sys \<Rightarrow> nat" where
  "bq_drain_rank s = 3 * bq_size (bq s) + bq_consumer_rank (bq_c s)"

lemma bq_drain_step:
  assumes inv: "bq_inv cap s" and fin: "bq_p s = QPDone" and "bq_step cap s t"
  shows "bq_drain_rank t < bq_drain_rank s \<and> bq_p t = QPDone"
  using assms(3)
proof cases
  case (qc_take x q')
  then have "bq_size (bq s) = Suc (bq_size q')"
    by (auto simp: BoundedQueue_pop_def split: if_splits)
  with qc_take fin show ?thesis by (simp add: bq_drain_rank_def)
qed (use inv fin in \<open>auto simp: bq_inv_def bq_drain_rank_def bq_pop_None bq_pop_end\<close>)

interpretation queue_drain: ranked_steps
  "\<lambda>s t. bq_inv cap s \<and> bq_p s = QPDone \<and> bq_step cap s t" "\<lambda>_ _. False" bq_drain_rank for cap
  by unfold_locales (auto dest: bq_drain_step)

lemma bq_drain_interleaved:
  assumes "(bq_step cap ^^ n) s t" and "bq_inv cap s" and "bq_p s = QPDone"
  shows "interleaved (\<lambda>s t. bq_inv cap s \<and> bq_p s = QPDone \<and> bq_step cap s t) (\<lambda>_ _. False) n s t
    \<and> bq_inv cap t \<and> bq_p t = QPDone"
  using assms(1)
proof (induction n arbitrary: t)
  case 0
  with assms(2,3) show ?case by (auto intro: interleaved.none)
next
  case (Suc n)
  then obtain u where u: "(bq_step cap ^^ n) s u" "bq_step cap u t" by auto
  from Suc.IH [OF u(1)] u(2) show ?case
    by (auto intro: interleaved.mine bq_inv_step dest: bq_drain_step)
qed

lemma bq_consumer_moves:
  assumes "bq_inv cap s" and "bq_p s = QPDone" and "bq_c s \<noteq> QCDone" and "bq_c s \<noteq> QCLeft"
  shows "\<exists>t. bq_step cap s t"
proof (cases "bq_c s")
  case QCTry
  from assms have "bq_closed (bq s)" by (simp add: bq_inv_def)
  then have "BoundedQueue_pop cap (bq s) \<noteq> None" by (simp add: bq_pop_None)
  then obtain x q' where "BoundedQueue_pop cap (bq s) = Some (x, q')" by auto
  with QCTry show ?thesis by (cases x) (blast intro: qc_end qc_take)+
qed (use assms in \<open>blast intro: bq_step.intros\<close>)+

subsection \<open>A run on a queue of one slot\<close>

text \<open>
  The source thread pushes 7 and then sleeps on the full queue with 8 (states 1
  to 5), where the frame thread leaves (6); or it closes after the first push
  and the frame thread takes 7 (7 to 9).
\<close>

definition bq_demo :: "nat \<Rightarrow> int bq_sys" where
  "bq_demo n = (
     let open1 = \<lparr>bq_slots = [7], bq_head = 0, bq_size = 1, bq_closed = False\<rparr>;
         closed1 = open1\<lparr>bq_closed := True\<rparr>;
         s = \<lparr>bq = open1, bq_p = QPIdle, bq_c = QCIdle, bq_pushed = [7], bq_popped = []\<rparr>
     in [
       bq_start 1 0,
       (bq_start 1 0)\<lparr>bq_p := QPTry 7\<rparr>,
       s\<lparr>bq_p := QPNotify\<rparr>,
       s,
       s\<lparr>bq_p := QPTry 8\<rparr>,
       s\<lparr>bq_p := QPWait 8\<rparr>,
       s\<lparr>bq_p := QPWait 8, bq_c := QCLeft\<rparr>,
       s\<lparr>bq := closed1, bq_p := QPDone\<rparr>,
       s\<lparr>bq := closed1, bq_p := QPDone, bq_c := QCTry\<rparr>,
       s\<lparr>bq := closed1\<lparr>bq_size := 0\<rparr>, bq_p := QPDone, bq_c := QCNotify, bq_popped := [7]\<rparr>] ! n)"

lemma bq_demo_steps:
  "bq_step 1 (bq_demo 0) (bq_demo 1)" "bq_step 1 (bq_demo 1) (bq_demo 2)" "bq_step 1 (bq_demo 2) (bq_demo 3)"
  "bq_step 1 (bq_demo 3) (bq_demo 4)" "bq_step 1 (bq_demo 4) (bq_demo 5)" "bq_step 1 (bq_demo 5) (bq_demo 6)"
  "bq_step 1 (bq_demo 3) (bq_demo 7)" "bq_step 1 (bq_demo 7) (bq_demo 8)" "bq_step 1 (bq_demo 8) (bq_demo 9)"
proof -
  note d = bq_demo_def bq_start_def BoundedQueue_init_def BoundedQueue_push_def push_ready_def
    BoundedQueue_pop_def pop_ready_def BoundedQueue_close_def
  show "bq_step 1 (bq_demo 0) (bq_demo 1)" using qp_call [of "bq_demo 0" 1 7] by (simp add: d)
  show "bq_step 1 (bq_demo 1) (bq_demo 2)" using qp_store [of "bq_demo 1" 7 1] by (simp add: d)
  show "bq_step 1 (bq_demo 2) (bq_demo 3)" using qp_notify [of "bq_demo 2" 1] by (simp add: d)
  show "bq_step 1 (bq_demo 3) (bq_demo 4)" using qp_call [of "bq_demo 3" 1 8] by (simp add: d)
  show "bq_step 1 (bq_demo 4) (bq_demo 5)" using qp_sleep [of "bq_demo 4" 8 1] by (simp add: d)
  show "bq_step 1 (bq_demo 5) (bq_demo 6)" using qc_leave [of "bq_demo 5" 1] by (simp add: d)
  show "bq_step 1 (bq_demo 3) (bq_demo 7)" using qp_close [of "bq_demo 3" 1] by (simp add: d)
  show "bq_step 1 (bq_demo 7) (bq_demo 8)" using qc_call [of "bq_demo 7" 1] by (simp add: d)
  show "bq_step 1 (bq_demo 8) (bq_demo 9)" using qc_take [of "bq_demo 8" 1 7] by (simp add: d)
qed

lemma bq_demo_run:
  "(bq_step 1)\<^sup>*\<^sup>* (bq_start 1 0) (bq_demo 5)"
  "(bq_step 1)\<^sup>*\<^sup>* (bq_start 1 0) (bq_demo 6)"
  "(bq_step 1)\<^sup>*\<^sup>* (bq_start 1 0) (bq_demo 7)"
proof -
  have 0: "bq_demo 0 = bq_start 1 0" by (simp add: bq_demo_def)
  show "(bq_step 1)\<^sup>*\<^sup>* (bq_start 1 0) (bq_demo 5)"
    using step_path_run [of "bq_step 1" "bq_demo 0" "map bq_demo [1, 2, 3, 4, 5]"] bq_demo_steps by (simp add: 0)
  show "(bq_step 1)\<^sup>*\<^sup>* (bq_start 1 0) (bq_demo 6)"
    using step_path_run [of "bq_step 1" "bq_demo 0" "map bq_demo [1, 2, 3, 4, 5, 6]"] bq_demo_steps by (simp add: 0)
  show "(bq_step 1)\<^sup>*\<^sup>* (bq_start 1 0) (bq_demo 7)"
    using step_path_run [of "bq_step 1" "bq_demo 0" "map bq_demo [1, 2, 3, 7]"] bq_demo_steps by (simp add: 0)
qed

lemma bq_demo_drain: "(bq_step 1 ^^ 2) (bq_demo 7) (bq_demo 9)"
  using bq_demo_steps(8,9) by (auto simp: numeral_2_eq_2)

section \<open>Properties\<close>

text \<open>
  What \<open>push\<close>, \<open>pop\<close> and \<open>close\<close> do. \<open>push\<close> blocks exactly while the queue is open
  and full, returns false exactly when it is closed (storing nothing), and
  otherwise appends its value; \<open>pop\<close> blocks exactly while the queue is open and
  empty, returns \<open>nullopt\<close> exactly when it is closed and empty, and otherwise
  removes the oldest element, also after the close; \<open>close\<close> keeps the elements.
\<close>

theorem bounded_queue_ops:
  assumes "bq_wf cap q"
  shows "(case BoundedQueue_push cap v q of
       None \<Rightarrow> \<not> bq_closed q \<and> length (bq_items cap q) = cap
     | Some (ok, q') \<Rightarrow> bq_wf cap q' \<and> bq_closed q' = bq_closed q \<and>
         (if bq_closed q then \<not> ok \<and> q' = q
          else ok \<and> length (bq_items cap q) < cap \<and> bq_items cap q' = bq_items cap q @ [v])) \<and>
    (case BoundedQueue_pop cap q of
       None \<Rightarrow> \<not> bq_closed q \<and> bq_items cap q = []
     | Some (None, q') \<Rightarrow> bq_closed q \<and> bq_items cap q = [] \<and> q' = q
     | Some (Some x, q') \<Rightarrow> bq_wf cap q' \<and> bq_closed q' = bq_closed q \<and> bq_items cap q = x # bq_items cap q') \<and>
    bq_wf cap (BoundedQueue_close q) \<and> bq_closed (BoundedQueue_close q) \<and>
    bq_items cap (BoundedQueue_close q) = bq_items cap q"
proof -
  have "case BoundedQueue_push cap v q of
       None \<Rightarrow> \<not> bq_closed q \<and> length (bq_items cap q) = cap
     | Some (ok, q') \<Rightarrow> bq_wf cap q' \<and> bq_closed q' = bq_closed q \<and>
         (if bq_closed q then \<not> ok \<and> q' = q
          else ok \<and> length (bq_items cap q) < cap \<and> bq_items cap q' = bq_items cap q @ [v])"
  proof (cases "BoundedQueue_push cap v q")
    case None
    then have "\<not> bq_closed q \<and> bq_size q = cap" using assms by (auto simp: bq_push_None bq_wf_def)
    with None show ?thesis by simp
  next
    case (Some r)
    then obtain ok q' where r: "BoundedQueue_push cap v q = Some (ok, q')" by (cases r) simp
    have "\<not> ok \<Longrightarrow> bq_closed q \<and> q' = q" using r by (simp add: bq_push_False)
    with r assms bq_push_store [OF assms, of v q'] show ?thesis by (cases ok) simp_all
  qed
  moreover have "case BoundedQueue_pop cap q of
       None \<Rightarrow> \<not> bq_closed q \<and> bq_items cap q = []
     | Some (None, q') \<Rightarrow> bq_closed q \<and> bq_items cap q = [] \<and> q' = q
     | Some (Some x, q') \<Rightarrow> bq_wf cap q' \<and> bq_closed q' = bq_closed q \<and> bq_items cap q = x # bq_items cap q'"
    using bq_pop_Some [OF assms] bq_pop_end [of cap q] bq_pop_None [of cap q]
    by (auto simp: bq_items_def split: option.splits prod.splits)
  ultimately show ?thesis using assms by simp
qed

theorem bounded_queue_ops_witness:
  "bq_wf 2 (BoundedQueue_init 2 (0 :: int)) \<and>
   (\<exists>q. BoundedQueue_push 2 7 (BoundedQueue_init 2 0) = Some (True, q) \<and> bq_items 2 q = [7 :: int])"
proof -
  have wf: "bq_wf 2 (BoundedQueue_init 2 (0 :: int))" by (simp add: bq_wf_def BoundedQueue_init_def)
  from bounded_queue_ops [OF this, of 7] wf show ?thesis
    by (auto simp: BoundedQueue_push_def push_ready_def BoundedQueue_init_def bq_items_def)
qed

text \<open>
  (C20) The monitor. In every reachable state what has been popped followed by what
  is queued is what has been pushed; the two threads are never asleep together;
  no wake-up is lost (a sleeping thread whose predicate has become true has a
  \<open>notify_one\<close> of the other thread still to come, and no thread sleeps past the
  close); and a frame thread that has seen \<open>nullopt\<close> has received every frame.
\<close>

theorem bounded_queue_monitor:
  assumes "0 < cap" and "(bq_step cap)\<^sup>*\<^sup>* (bq_start cap d) s"
  shows "bq_popped s @ bq_items cap (bq s) = bq_pushed s \<and> bq_size (bq s) \<le> cap \<and>
    \<not> (bq_p s = QPWait v \<and> bq_c s = QCWait) \<and>
    (bq_p s = QPWait v \<and> push_ready cap (bq s) \<longrightarrow> bq_c s = QCNotify) \<and>
    (bq_c s = QCWait \<and> pop_ready (bq s) \<longrightarrow> bq_p s = QPNotify) \<and>
    (bq_c s = QCDone \<longrightarrow> bq_popped s = bq_pushed s)"
proof -
  from queue_machine.inv_reachable [OF _ assms(2)] assms(1) have inv: "bq_inv cap s" by simp
  then have "bq_c s = QCDone \<longrightarrow> bq_popped s = bq_pushed s" by (auto simp: bq_inv_def bq_items_def)
  with inv \<open>0 < cap\<close> show ?thesis by (auto simp: bq_inv_def bq_wf_def push_ready_def pop_ready_def)
qed

theorem bounded_queue_monitor_witness:
  "bq_p (bq_demo 5) = QPWait 8 \<and> bq_c (bq_demo 5) \<noteq> QCWait \<and>
   bq_popped (bq_demo 5) @ bq_items 1 (bq (bq_demo 5)) = [7]"
  using bounded_queue_monitor [OF _ bq_demo_run(1), of 8] by (simp add: bq_demo_def)

text \<open>
  (C26) Once the source thread has closed the queue, the frame thread finishes: from
  any reachable state with the queue closed every run has at most three steps
  per queued frame and three more, and until the frame thread has seen the end
  (or left) another step is possible.
\<close>

theorem bounded_queue_drains:
  assumes "0 < cap" and "(bq_step cap)\<^sup>*\<^sup>* (bq_start cap d) s" and "bq_p s = QPDone"
    and "(bq_step cap ^^ n) s t"
  shows "n \<le> 3 * bq_size (bq s) + 3 \<and> (bq_c t \<in> {QCDone, QCLeft} \<or> (\<exists>u. bq_step cap t u))"
proof -
  from queue_machine.inv_reachable [OF _ assms(2)] assms(1) have "bq_inv cap s" by simp
  note drain = bq_drain_interleaved [OF assms(4) this assms(3)]
  have "bq_drain_rank s \<le> 3 * bq_size (bq s) + 3"
    by (cases "bq_c s") (simp_all add: bq_drain_rank_def)
  with drain queue_drain.own_steps_bounded [of cap n s t] bq_consumer_moves [of cap t] show ?thesis by auto
qed

theorem bounded_queue_drains_witness:
  "(bq_step 1 ^^ 2) (bq_demo 7) (bq_demo 9) \<and> (\<exists>u. bq_step 1 (bq_demo 9) u)"
proof -
  have "bq_p (bq_demo 7) = QPDone" and "bq_c (bq_demo 9) = QCNotify" by (simp_all add: bq_demo_def)
  with bounded_queue_drains [OF _ bq_demo_run(3) _ bq_demo_drain] bq_demo_drain show ?thesis by simp
qed

text \<open>
  If the frame thread leaves its loop without closing the queue while the queue is
  full, a \<open>push\<close> of the source thread never returns: in every continuation the
  source thread is still inside that call. This is what the break after a
  refused \<open>push_record\<close> in \<^verbatim>\<open>run_ingest\<close> allows on a shutdown.
\<close>

theorem bounded_queue_abandoned:
  assumes "bq_c s = QCLeft" and "\<not> bq_closed (bq s)" and "bq_size (bq s) = cap"
    and "bq_p s = QPTry v \<or> bq_p s = QPWait v" and "(bq_step cap)\<^sup>*\<^sup>* s t"
  shows "bq_p t = QPTry v \<or> bq_p t = QPWait v"
proof -
  from assms(5) have "bq_c t = QCLeft \<and> bq t = bq s \<and> (bq_p t = QPTry v \<or> bq_p t = QPWait v)"
  proof (induction rule: rtranclp_induct)
    case (step t u)
    from step.hyps(2) show ?case
      by cases (use step.IH assms(2,3) in \<open>auto simp: BoundedQueue_push_def push_ready_def\<close>)
  qed (use assms in simp)
  then show ?thesis by simp
qed

theorem bounded_queue_abandoned_witness:
  "(bq_step 1)\<^sup>*\<^sup>* (bq_start 1 0) (bq_demo 6) \<and>
   (\<forall>t. if (bq_step 1)\<^sup>*\<^sup>* (bq_demo 6) t then bq_p t = QPTry 8 \<or> bq_p t = QPWait 8 else True)"
  using bounded_queue_abandoned [of "bq_demo 6" 1 8] bq_demo_run(2) by (auto simp: bq_demo_def)

end
