(* ===== verification/Ingest.thy ===== *)
theory Ingest
  imports Shm_Region Frame Bounded_Queue "HOL-Library.Sublist"
begin

text \<open>
  \<^verbatim>\<open>src/ingest.cpp\<close>: the source thread reads 38-byte frames from the replay file into
  the bounded queue, the frame thread decodes them and pushes the records into
  the shared ring, and \<open>run_ingest\<close> joins both and sets \<open>ingest_done\<close>. Each thread is
  a deterministic function from the state to its next state, \<open>None\<close> while it is
  blocked or when it has finished; one call covers one access of shared
  state. The queue operations are atomic here: \<^verbatim>\<open>Bounded_Queue\<close> shows that a
  blocked call is woken when its condition becomes true.
\<close>

section \<open>Reading the replay file\<close>

text \<open>
  \<open>in.read\<close> of one frame: \<open>None\<close> at the end of the file, also when fewer than
  \<open>kFrameBytes\<close> bytes are left.
\<close>

definition read_frame :: "u8 list \<Rightarrow> (u8 list \<times> u8 list) option" where
  "read_frame bytes =
     (if length bytes \<ge> kFrameBytes then Some (take kFrameBytes bytes, drop kFrameBytes bytes) else None)"

section \<open>Threads\<close>

datatype source_pc = SrcRead | SrcCheck "u8 list" | SrcPush "u8 list" | SrcBeat | SrcClose | SrcDone

datatype frames_pc = FrmPop | FrmDecode "u8 list" | FrmPush Record | FrmFull Record | FrmDone

text \<open>
  The locals of \<open>run_ingest\<close>. \<open>ig_popped\<close> and \<open>ig_fed\<close> are histories: the frames
  taken from the queue and the records pushed into the ring.
\<close>

record ingest_local =
  ig_in :: "u8 list"
  ig_queue :: "u8 list BoundedQueue"
  ig_beats :: u64
  ig_src :: source_pc
  ig_frm :: frames_pc
  ig_exit :: "nat option"
  ig_popped :: "u8 list list"
  ig_fed :: "Record list"

definition kQueueCapacity :: nat where "kQueueCapacity = 64"

text \<open>
  \<open>run_ingest\<close> once the region is attached. The file is empty when it cannot be
  opened: the first read of a failed stream fails.
\<close>

definition ingest_start :: "u8 list option \<Rightarrow> ingest_local" where
  "ingest_start replay = \<lparr>ig_in = (case replay of None \<Rightarrow> [] | Some bytes \<Rightarrow> bytes),
     ig_queue = BoundedQueue_init kQueueCapacity (replicate kFrameBytes 0), ig_beats = 0,
     ig_src = SrcRead, ig_frm = FrmPop, ig_exit = None, ig_popped = [], ig_fed = []\<rparr>"

definition run_ingest :: "ShmStatus \<Rightarrow> u8 list option \<Rightarrow> nat + ingest_local" where
  "run_ingest attached replay = (if attached \<noteq> ShmOk then Inl 1 else Inr (ingest_start replay))"

fun source_step :: "ingest_local \<times> Layout \<Rightarrow> (ingest_local \<times> Layout) option" where
  "source_step (ig, l) =
     (case ig_src ig of
        SrcRead \<Rightarrow>
          (case read_frame (ig_in ig) of
             None \<Rightarrow> Some (ig\<lparr>ig_src := SrcClose\<rparr>, l)
           | Some (frame, rest) \<Rightarrow> Some (ig\<lparr>ig_in := rest, ig_src := SrcCheck frame\<rparr>, l))
      | SrcCheck frame \<Rightarrow>
          Some (ig\<lparr>ig_src := (if stopped (l_control l) then SrcClose else SrcPush frame)\<rparr>, l)
      | SrcPush frame \<Rightarrow>
          (case BoundedQueue_push kQueueCapacity frame (ig_queue ig) of
             None \<Rightarrow> None
           | Some (False, q) \<Rightarrow> Some (ig\<lparr>ig_queue := q, ig_src := SrcClose\<rparr>, l)
           | Some (True, q) \<Rightarrow> Some (ig\<lparr>ig_queue := q, ig_src := SrcBeat\<rparr>, l))
      | SrcBeat \<Rightarrow>
          Some (ig\<lparr>ig_beats := ig_beats ig + 1, ig_src := SrcRead\<rparr>,
                l\<lparr>l_control := (l_control l)\<lparr>c_heartbeat_ingest := ig_beats ig + 1\<rparr>\<rparr>)
      | SrcClose \<Rightarrow> Some (ig\<lparr>ig_queue := BoundedQueue_close (ig_queue ig), ig_src := SrcDone\<rparr>, l)
      | SrcDone \<Rightarrow> None)"

text \<open>
  One turn of the loop of \<open>push_record\<close>: an attempt, and when the ring is full the
  decision to give up, which is taken only if the region is shutting down.
  \<open>FrmPush\<close> is the thread before the attempt, \<open>FrmFull\<close> before the decision.
\<close>

definition push_attempt :: "Record \<Rightarrow> Layout \<Rightarrow> bool \<times> Layout" where
  "push_attempt rec l =
     (case SpscRing_try_push kRingCapacity rec (l_ring l) of (ok, ring) \<Rightarrow> (ok, l\<lparr>l_ring := ring\<rparr>))"

definition push_gives_up :: "Layout \<Rightarrow> bool" where
  "push_gives_up l \<longleftrightarrow> stopped (l_control l)"

fun frames_step :: "ingest_local \<times> Layout \<Rightarrow> (ingest_local \<times> Layout) option" where
  "frames_step (ig, l) =
     (case ig_frm ig of
        FrmPop \<Rightarrow>
          (case BoundedQueue_pop kQueueCapacity (ig_queue ig) of
             None \<Rightarrow> None
           | Some (None, q) \<Rightarrow> Some (ig\<lparr>ig_queue := q, ig_frm := FrmDone\<rparr>, l)
           | Some (Some frame, q) \<Rightarrow>
               Some (ig\<lparr>ig_queue := q, ig_frm := FrmDecode frame, ig_popped := ig_popped ig @ [frame]\<rparr>, l))
      | FrmDecode frame \<Rightarrow>
          (case decode_frame (Some frame) (length frame) Record_default of (status, record) \<Rightarrow>
             Some (ig\<lparr>ig_frm := (if status \<noteq> Ok then FrmPop else FrmPush record)\<rparr>, l))
      | FrmPush record \<Rightarrow>
          (case push_attempt record l of
             (True, l) \<Rightarrow> Some (ig\<lparr>ig_frm := FrmPop, ig_fed := ig_fed ig @ [record]\<rparr>, l)
           | (False, l) \<Rightarrow> Some (ig\<lparr>ig_frm := FrmFull record\<rparr>, l))
      | FrmFull record \<Rightarrow>
          Some (ig\<lparr>ig_frm := (if push_gives_up l then FrmDone else FrmPush record)\<rparr>, l)
      | FrmDone \<Rightarrow> None)"

text \<open>The main thread: both joins, the store of \<open>ingest_done\<close>, exit code 0.\<close>

fun ingest_main_step :: "ingest_local \<times> Layout \<Rightarrow> (ingest_local \<times> Layout) option" where
  "ingest_main_step (ig, l) =
     (if ig_src ig = SrcDone \<and> ig_frm ig = FrmDone \<and> ig_exit ig = None
      then Some (ig\<lparr>ig_exit := Some 0\<rparr>, l\<lparr>l_control := (l_control l)\<lparr>c_ingest_done := 1\<rparr>\<rparr>)
      else None)"

inductive ingest_step :: "ingest_local \<times> Layout \<Rightarrow> ingest_local \<times> Layout \<Rightarrow> bool" where
  is_source: "source_step s = Some t \<Longrightarrow> ingest_step s t"
| is_frames: "frames_step s = Some t \<Longrightarrow> ingest_step s t"
| is_main: "ingest_main_step s = Some t \<Longrightarrow> ingest_step s t"

declare push_attempt_def [simp] push_gives_up_def [simp]

section \<open>What the file holds\<close>

function replay_frames :: "u8 list \<Rightarrow> u8 list list" where
  "replay_frames bytes =
     (case read_frame bytes of None \<Rightarrow> [] | Some (frame, rest) \<Rightarrow> frame # replay_frames rest)"
  by pat_completeness auto
termination by (relation "measure length") (auto simp: read_frame_def kFrameBytes_def split: if_splits)

declare replay_frames.simps [simp del]

definition decoded :: "u8 list \<Rightarrow> Record list" where
  "decoded frame =
     (case decode_frame (Some frame) (length frame) Record_default of (status, record) \<Rightarrow>
        if status = Ok then [record] else [])"

definition decode_all :: "u8 list list \<Rightarrow> Record list" where
  "decode_all frames = concat (map decoded frames)"

section \<open>Invariant\<close>

fun source_pending :: "source_pc \<Rightarrow> u8 list \<Rightarrow> u8 list list" where
  "source_pending SrcRead rest = replay_frames rest"
| "source_pending (SrcCheck frame) rest = frame # replay_frames rest"
| "source_pending (SrcPush frame) rest = frame # replay_frames rest"
| "source_pending SrcBeat rest = replay_frames rest"
| "source_pending SrcClose rest = []"
| "source_pending SrcDone rest = []"

fun frames_pending :: "frames_pc \<Rightarrow> Record list" where
  "frames_pending FrmPop = []"
| "frames_pending (FrmDecode frame) = decoded frame"
| "frames_pending (FrmPush record) = [record]"
| "frames_pending (FrmFull record) = [record]"
| "frames_pending FrmDone = []"

text \<open>
  Nothing is lost before a shutdown: what the frame thread took, what is
  queued and what the source thread still has to deliver make up the file, and
  what went into the ring and what is about to are the decoded frames.
\<close>

definition complete :: "bool \<Rightarrow> 'a list \<Rightarrow> 'a list \<Rightarrow> bool" where
  "complete stop xs all \<longleftrightarrow> (if stop then prefix xs all else xs = all)"

definition source_inv :: "u8 list \<Rightarrow> ingest_local \<Rightarrow> bool \<Rightarrow> bool" where
  "source_inv input ig stop \<longleftrightarrow>
     bq_wf kQueueCapacity (ig_queue ig) \<and> (bq_closed (ig_queue ig) \<longleftrightarrow> ig_src ig = SrcDone) \<and>
     complete stop (ig_popped ig @ bq_items kQueueCapacity (ig_queue ig) @ source_pending (ig_src ig) (ig_in ig)) (replay_frames input)"

definition frames_inv :: "ingest_local \<Rightarrow> bool \<Rightarrow> bool" where
  "frames_inv ig stop \<longleftrightarrow>
     complete (stop \<and> ig_frm ig = FrmDone) (ig_fed ig @ frames_pending (ig_frm ig)) (decode_all (ig_popped ig)) \<and>
     (ig_frm ig = FrmDone \<longrightarrow> stop \<or> (bq_closed (ig_queue ig) \<and> bq_size (ig_queue ig) = 0)) \<and>
     (ig_exit ig \<noteq> None \<longrightarrow> ig_src ig = SrcDone \<and> ig_frm ig = FrmDone)"

definition ingest_inv :: "u8 list \<Rightarrow> ingest_local \<times> Layout \<Rightarrow> bool" where
  "ingest_inv input s \<longleftrightarrow> (case s of (ig, l) \<Rightarrow>
     source_inv input ig (stopped (l_control l)) \<and> frames_inv ig (stopped (l_control l)))"

lemma complete_simps [simp]: "complete False xs all \<longleftrightarrow> xs = all" "complete True xs all \<longleftrightarrow> prefix xs all"
  "complete stop xs xs"
  by (simp_all add: complete_def)

lemma complete_stop: "complete stop xs ys \<Longrightarrow> stop \<longrightarrow> stop' \<Longrightarrow> complete stop' xs ys"
  by (cases stop) (auto simp: complete_def)

lemma prefix_append_dest: "prefix (xs @ ys @ zs) all \<Longrightarrow> prefix (xs @ ys) all"
  by (metis append_assoc append_prefixD)

lemma replay_frames_read:
  "read_frame bytes = None \<Longrightarrow> replay_frames bytes = []"
  "read_frame bytes = Some (frame, rest) \<Longrightarrow> replay_frames bytes = frame # replay_frames rest"
  by (simp_all add: replay_frames.simps [of bytes])

lemma decode_all_snoc [simp]: "decode_all (fs @ [f]) = decode_all fs @ decoded f"
  by (simp add: decode_all_def)

lemma ingest_inv_start: "\<not> stopped (l_control l) \<Longrightarrow>
    ingest_inv (case replay of None \<Rightarrow> [] | Some bytes \<Rightarrow> bytes) (ingest_start replay, l)"
  by (simp add: ingest_inv_def source_inv_def frames_inv_def ingest_start_def BoundedQueue_init_def bq_wf_def
      kQueueCapacity_def bq_items_def decode_all_def)

lemma source_step_inv:
  assumes "ingest_inv input (ig, l)" and "source_step (ig, l) = Some (ig', l')"
  shows "ingest_inv input (ig', l')"
proof -
  have src: "source_inv input ig (stopped (l_control l))" and frm: "frames_inv ig (stopped (l_control l))"
    using assms(1) by (simp_all add: ingest_inv_def)
  show ?thesis
  proof (cases "ig_src ig")
    case SrcRead
    with assms(2) src frm show ?thesis
      by (cases "read_frame (ig_in ig)")
        (auto simp: ingest_inv_def source_inv_def frames_inv_def replay_frames_read)
  next
    case (SrcCheck frame)
    with assms(2) src frm show ?thesis
      by (cases "stopped (l_control l)")
        (auto simp: ingest_inv_def source_inv_def frames_inv_def dest: prefix_append_dest)
  next
    case (SrcPush frame)
    then obtain ok q where push: "BoundedQueue_push kQueueCapacity frame (ig_queue ig) = Some (ok, q)"
      using assms(2) by (auto split: option.splits)
    have "\<not> bq_closed (ig_queue ig)" and wf: "bq_wf kQueueCapacity (ig_queue ig)"
      using src SrcPush by (auto simp: source_inv_def)
    with push have ok by (cases ok) (auto simp: bq_push_False)
    with push have push': "BoundedQueue_push kQueueCapacity frame (ig_queue ig) = Some (True, q)" by simp
    from SrcPush assms(2) push' src frm bq_push_store [OF wf push'] show ?thesis
      by (auto simp: ingest_inv_def source_inv_def frames_inv_def)
  next
    case SrcBeat
    with assms(2) src frm show ?thesis
      by (auto simp: ingest_inv_def source_inv_def frames_inv_def stopped_def)
  next
    case SrcClose
    with assms(2) src frm show ?thesis
      by (auto simp: ingest_inv_def source_inv_def frames_inv_def)
  qed (use assms(2) in simp)
qed

lemma frames_step_inv:
  assumes "ingest_inv input (ig, l)" and "frames_step (ig, l) = Some (ig', l')"
  shows "ingest_inv input (ig', l')"
proof -
  have src: "source_inv input ig (stopped (l_control l))" and frm: "frames_inv ig (stopped (l_control l))"
    using assms(1) by (simp_all add: ingest_inv_def)
  note inv_defs = ingest_inv_def source_inv_def frames_inv_def
  show ?thesis
  proof (cases "ig_frm ig")
    case FrmPop
    then obtain r q where pop: "BoundedQueue_pop kQueueCapacity (ig_queue ig) = Some (r, q)"
      using assms(2) by (auto split: option.splits)
    have wf: "bq_wf kQueueCapacity (ig_queue ig)" using src by (simp add: source_inv_def)
    show ?thesis
    proof (cases r)
      case None
      with FrmPop assms(2) src frm pop show ?thesis by (auto simp: inv_defs bq_pop_end)
    next
      case (Some frame)
      with pop have pop': "BoundedQueue_pop kQueueCapacity (ig_queue ig) = Some (Some frame, q)" by simp
      from FrmPop assms(2) src frm pop' bq_pop_Some [OF wf pop'] show ?thesis
        by (auto simp: inv_defs)
    qed
  next
    case (FrmDecode frame)
    with assms(2) src frm show ?thesis
      by (auto simp: inv_defs decoded_def split: prod.splits if_splits)
  next
    case (FrmPush r)
    with assms(2) src frm show ?thesis
      by (auto simp: inv_defs split: prod.splits bool.splits)
  next
    case (FrmFull r)
    with assms(2) src frm show ?thesis by (cases "stopped (l_control l)") (auto simp: inv_defs intro: prefixI [OF sym])
  qed (use assms(2) in simp)
qed

lemma ingest_step_inv: "ingest_inv input s \<Longrightarrow> ingest_step s t \<Longrightarrow> ingest_inv input t"
proof (cases t)
  case (Pair ig' l')
  assume inv: "ingest_inv input s" and st: "ingest_step s t"
  obtain ig l where s: "s = (ig, l)" by (cases s)
  from st show ?thesis
  proof cases
    case is_main
    with inv Pair s show ?thesis
      by (auto simp: ingest_inv_def source_inv_def frames_inv_def stopped_def split: if_splits)
  qed (use inv Pair s source_step_inv frames_step_inv in blast)+
qed

text \<open>
  The rest of the program, as ingest sees it: the ring and the other tables
  may change at any time, and a shutdown is never taken back during a run.
\<close>

definition ingest_env :: "ingest_local \<times> Layout \<Rightarrow> ingest_local \<times> Layout \<Rightarrow> bool" where
  "ingest_env s t \<longleftrightarrow> fst t = fst s \<and> (stopped (l_control (snd s)) \<longrightarrow> stopped (l_control (snd t)))"

definition ingest_run_step :: "ingest_local \<times> Layout \<Rightarrow> ingest_local \<times> Layout \<Rightarrow> bool" where
  "ingest_run_step s t \<longleftrightarrow> ingest_step s t \<or> ingest_env s t"

lemma source_inv_stop: "source_inv input ig stop \<Longrightarrow> stop \<longrightarrow> stop' \<Longrightarrow> source_inv input ig stop'"
  by (auto simp: source_inv_def intro: complete_stop)

lemma frames_inv_stop: "frames_inv ig stop \<Longrightarrow> stop \<longrightarrow> stop' \<Longrightarrow> frames_inv ig stop'"
  by (auto simp: frames_inv_def intro: complete_stop)

lemma ingest_env_inv: "ingest_inv input s \<Longrightarrow> ingest_env s t \<Longrightarrow> ingest_inv input t"
  by (cases s; cases t) (auto simp: ingest_inv_def ingest_env_def intro: source_inv_stop frames_inv_stop)

interpretation ingest_machine: step_machine
  "\<lambda>s. \<exists>replay l. s = (ingest_start replay, l) \<and> \<not> stopped (l_control l) \<and>
     input = (case replay of None \<Rightarrow> [] | Some bytes \<Rightarrow> bytes)"
  ingest_run_step "ingest_inv input" for input
  by unfold_locales (auto simp: ingest_run_step_def intro: ingest_inv_start ingest_step_inv ingest_env_inv)

lemma decode_all_prefix: "prefix fs gs \<Longrightarrow> prefix (decode_all fs) (decode_all gs)"
  by (auto simp: prefix_def decode_all_def)

text \<open>What the invariant says of the records fed so far.\<close>

lemma ingest_inv_prefix:
  assumes inv: "ingest_inv input (ig, l)"
  shows "prefix (ig_fed ig) (decode_all (replay_frames input))"
proof -
  let ?stop = "stopped (l_control l)"
  from inv have popped: "prefix (ig_popped ig) (replay_frames input)"
    by (cases ?stop) (auto simp: ingest_inv_def source_inv_def intro: append_prefixD prefixI [OF sym])
  from inv have "prefix (ig_fed ig) (decode_all (ig_popped ig))"
    by (cases "?stop \<and> ig_frm ig = FrmDone")
      (auto simp: ingest_inv_def frames_inv_def intro: append_prefixD prefixI [OF sym])
  with decode_all_prefix [OF popped] show ?thesis using prefix_order.trans by blast
qed

lemma ingest_inv_exit:
  assumes "ingest_inv input (ig, l)" and "ig_exit ig \<noteq> None" and "\<not> stopped (l_control l)"
  shows "ig_fed ig = decode_all (replay_frames input)"
proof -
  from assms have "ig_frm ig = FrmDone" "ig_src ig = SrcDone" "bq_size (ig_queue ig) = 0"
    by (auto simp: ingest_inv_def frames_inv_def)
  with assms show ?thesis by (auto simp: ingest_inv_def source_inv_def frames_inv_def bq_items_def)
qed

section \<open>Properties\<close>

text \<open>
  (C3) Ingest delivers the replay file. Whatever the interleaving of its two threads and
  the activity of the other processes, the records pushed into the ring are a
  prefix of the records decoded from the whole frames of the file, in order
  and without the rejected frames; and when \<open>run_ingest\<close> returns without a
  shutdown they are all of them.
\<close>

theorem ingest_delivers:
  assumes "ingest_run_step\<^sup>*\<^sup>* (ingest_start (Some input), l0) (ig, l)" and "\<not> stopped (l_control l0)"
  shows "prefix (ig_fed ig) (decode_all (replay_frames input)) \<and>
    (ig_exit ig \<noteq> None \<and> \<not> stopped (l_control l) \<longrightarrow> ig_fed ig = decode_all (replay_frames input))"
proof -
  have "\<exists>replay l. (ingest_start (Some input), l0) = (ingest_start replay, l) \<and> \<not> stopped (l_control l) \<and>
      input = (case replay of None \<Rightarrow> [] | Some bytes \<Rightarrow> bytes)"
    using assms(2) by (intro exI [of _ "Some input"] exI [of _ l0]) simp
  then have inv: "ingest_inv input (ig, l)" using assms(1) by (rule ingest_machine.inv_reachable)
  with ingest_inv_prefix ingest_inv_exit show ?thesis by blast
qed

text \<open>One good frame followed by five stray bytes: its record reaches the ring.\<close>

definition ingest_demo_file :: "u8 list" where
  "ingest_demo_file = wire_image sample_record @ [1, 2, 3, 4, 5]"

definition ingest_demo :: "(ingest_local \<times> Layout) option" where
  "ingest_demo = run_threads [source_step, source_step, source_step, frames_step, frames_step, frames_step]
     (ingest_start (Some ingest_demo_file), Layout_init)"

lemma decode_sample: "decode_frame (Some (wire_image sample_record)) 38 out = (Ok, sample_record)"
  using decode_wire_image [of sample_record out] by (simp add: sample_record_def kMaxSources_def kFrameBytes_def)

lemma ingest_demo_fed: "\<exists>ig l. ingest_demo = Some (ig, l) \<and> ig_fed ig = [sample_record]"
  by (simp add: ingest_demo_def ingest_demo_file_def ingest_start_def read_frame_def kFrameBytes_def
      Layout_init_def ShmControl_default_def stopped_def BoundedQueue_init_def BoundedQueue_push_def push_ready_def
      BoundedQueue_pop_def pop_ready_def kQueueCapacity_def decode_sample
      SpscRing_init_def SpscRing_try_push_def kRingCapacity_def kMask_def)

lemma replay_frames_demo: "replay_frames ingest_demo_file = [wire_image sample_record]"
  using replay_frames_read(2) [of ingest_demo_file "wire_image sample_record" "[1, 2, 3, 4, 5]"]
    replay_frames_read(1) [of "[1, 2, 3, 4, 5]"]
  by (simp add: read_frame_def ingest_demo_file_def kFrameBytes_def)

theorem ingest_delivers_witness:
  "\<exists>ig l. ingest_demo = Some (ig, l) \<and> prefix (ig_fed ig) (decode_all (replay_frames ingest_demo_file)) \<and>
     ig_fed ig = [sample_record]"
proof -
  obtain ig l where demo: "ingest_demo = Some (ig, l)" "ig_fed ig = [sample_record]"
    using ingest_demo_fed by blast
  have "ingest_run_step\<^sup>*\<^sup>* (ingest_start (Some ingest_demo_file), Layout_init) (ig, l)"
    using demo(1) unfolding ingest_demo_def
    by (rule run_threads_run [rotated])
      (simp only: list.set insert_iff empty_iff, blast intro: ingest_step.intros ingest_run_step_def [THEN iffD2])
  moreover have "\<not> stopped (l_control Layout_init)" by (simp add: Layout_init_def ShmControl_default_def stopped_def)
  ultimately show ?thesis using ingest_delivers [of ingest_demo_file Layout_init ig l] demo by blast
qed

end
