(* ===== verification/Fleet.thy ===== *)
theory Fleet
  imports Types
begin

text \<open>
  The fixed-point integrator: \<^verbatim>\<open>src/fleet.cpp\<close> and \<^verbatim>\<open>struct FleetSoA\<close>. The
  structure of arrays is a record of lists of length 64. Each signed 64-bit
  operation of \<open>step\<close> is one of the partial operations of the prelude, so
  \<open>None\<close> would be undefined behaviour of the C++ program; the lemmas show that
  \<open>integrate\<close> never meets it, and give the exact result on every branch.
\<close>

section \<open>State\<close>

record FleetSoA =
  f_pos_x :: "i32 list"
  f_pos_y :: "i32 list"
  f_vel_x :: "i32 list"
  f_vel_y :: "i32 list"
  f_sequence :: "u32 list"
  f_time_ns :: "i64 list"
  f_valid :: "bool list"

definition FleetSoA_default :: FleetSoA where
  "FleetSoA_default = \<lparr>f_pos_x = replicate 64 0, f_pos_y = replicate 64 0,
     f_vel_x = replicate 64 0, f_vel_y = replicate 64 0, f_sequence = replicate 64 0,
     f_time_ns = replicate 64 0, f_valid = replicate 64 False\<rparr>"

definition fleet_wf :: "FleetSoA \<Rightarrow> bool" where
  "fleet_wf f \<longleftrightarrow> length (f_pos_x f) = 64 \<and> length (f_pos_y f) = 64 \<and>
     length (f_vel_x f) = 64 \<and> length (f_vel_y f) = 64 \<and> length (f_sequence f) = 64 \<and>
     length (f_time_ns f) = 64 \<and> length (f_valid f) = 64"

section \<open>One axis\<close>

text \<open>
  The magnitude test: \<open>mag\<close> is \<open>|vel|\<close> in int64, and a step is refused when
  \<open>dt_ns > INT64_MAX / mag\<close>. \<open>Some True\<close> means the multiplication may go ahead.
\<close>

definition step_guard :: "i32 \<Rightarrow> i64 \<Rightarrow> bool option" where
  "step_guard vel dt_ns =
     (if sint vel \<noteq> 0 then
        do {
          mag \<leftarrow> (if sint vel > 0 then Some (sint vel) else i64_neg (sint vel));
          q \<leftarrow> i64_div INT64_MAX mag;
          Some (\<not> sint dt_ns > q)
        }
      else Some True)"

text \<open>
  \<open>step\<close> returns the C++ return value and the value of \<open>next\<close>; \<open>next\<close> is the
  caller's \<open>next0\<close> where the function returns before the store.
\<close>

definition step :: "i32 \<Rightarrow> i32 \<Rightarrow> i64 \<Rightarrow> int \<Rightarrow> (bool \<times> int) option" where
  "step pos vel dt_ns next0 =
     do {
       ok \<leftarrow> step_guard vel dt_ns;
       if \<not> ok then Some (False, next0)
       else do {
         prod \<leftarrow> i64_mul (sint vel) (sint dt_ns);
         delta \<leftarrow> i64_div prod 1000000000;
         next \<leftarrow> i64_add (sint pos) delta;
         Some (next \<le> INT32_MAX \<and> next \<ge> INT32_MIN, next)
       }
     }"

section \<open>One sample\<close>

text \<open>The seven stores of an accepted sample into row \<open>id\<close>.\<close>

definition store_row :: "FleetSoA \<Rightarrow> nat \<Rightarrow> Record \<Rightarrow> int \<Rightarrow> int \<Rightarrow> FleetSoA" where
  "store_row f sid s next_x next_y = f\<lparr>
     f_pos_x := (f_pos_x f)[sid := word_of_int next_x],
     f_pos_y := (f_pos_y f)[sid := word_of_int next_y],
     f_vel_x := (f_vel_x f)[sid := r_vel_x s],
     f_vel_y := (f_vel_y f)[sid := r_vel_y s],
     f_sequence := (f_sequence f)[sid := r_sequence s],
     f_time_ns := (f_time_ns f)[sid := r_time_ns s],
     f_valid := (f_valid f)[sid := True]\<rparr>"

definition integrate :: "FleetSoA \<Rightarrow> Record \<Rightarrow> i64 \<Rightarrow> (IntegrateStatus \<times> FleetSoA) option" where
  "integrate fleet sample dt_ns =
     (if r_source_id sample \<ge> kMaxSources then Some (IntegrateBadSource, fleet)
      else if sint dt_ns < 0 then Some (IntegrateBadDt, fleet)
      else
        let sid = unat (r_source_id sample);
            base_x = (if f_valid fleet ! sid then f_pos_x fleet ! sid else r_pos_x sample);
            base_y = (if f_valid fleet ! sid then f_pos_y fleet ! sid else r_pos_y sample)
        in do {
          (ok_x, next_x) \<leftarrow> step base_x (r_vel_x sample) dt_ns 0;
          if \<not> ok_x then Some (IntegrateOutOfRange, fleet)
          else do {
            (ok_y, next_y) \<leftarrow> step base_y (r_vel_y sample) dt_ns 0;
            if \<not> ok_y then Some (IntegrateOutOfRange, fleet)
            else Some (IntegrateOk, store_row fleet sid sample next_x next_y)
          }
        })"

section \<open>The intended arithmetic\<close>

text \<open>
  The step in unbounded integers, and when it is representable: the product
  of the magnitudes fits in int64 and the new coordinate fits in int32.
\<close>

definition moved :: "int \<Rightarrow> int \<Rightarrow> int \<Rightarrow> int" where
  "moved pos vel dt = pos + (vel * dt) sdiv 1000000000"

definition representable :: "int \<Rightarrow> int \<Rightarrow> int \<Rightarrow> bool" where
  "representable pos vel dt \<longleftrightarrow>
     \<bar>vel\<bar> * dt \<le> INT64_MAX \<and> INT32_MIN \<le> moved pos vel dt \<and> moved pos vel dt \<le> INT32_MAX"

lemma le_div_iff_mult_le:
  fixes a d m :: int
  assumes "0 < m"
  shows "d \<le> a div m \<longleftrightarrow> m * d \<le> a"
proof
  assume "d \<le> a div m"
  then have "m * d \<le> m * (a div m)" using assms by simp
  also have "\<dots> \<le> a" using assms mult_div_mod_eq [of m a] pos_mod_sign [of m a] by linarith
  finally show "m * d \<le> a" .
next
  assume "m * d \<le> a"
  then have "(m * d) div m \<le> a div m" using assms by (rule zdiv_mono1)
  then show "d \<le> a div m" using assms by simp
qed

lemma step_guard_eq:
  assumes "0 \<le> sint dt_ns"
  shows "step_guard vel dt_ns = Some (\<bar>sint vel\<bar> * sint dt_ns \<le> INT64_MAX)"
proof (cases "sint vel = 0")
  case False
  define mag where "mag = \<bar>sint vel\<bar>"
  have mag: "0 < mag" "mag \<le> 2147483648"
    using False sint_i32_bounds [of vel] by (auto simp: mag_def)
  have neg: "(if sint vel > 0 then Some (sint vel) else i64_neg (sint vel)) = Some mag"
    using False sint_i32_bounds [of vel] by (auto simp: mag_def cxx_arith)
  have "INT64_MAX sdiv mag = INT64_MAX div mag"
    using mag(1) by (simp add: signed_divide_int_def)
  moreover have "0 \<le> INT64_MAX div mag" "INT64_MAX div mag \<le> INT64_MAX"
    using mag(1) zdiv_mono2 [of INT64_MAX 1 mag] by (simp_all add: pos_imp_zdiv_nonneg_iff)
  ultimately have "i64_div INT64_MAX mag = Some (INT64_MAX div mag)"
    using mag(1) by (simp add: cxx_arith)
  with False neg show ?thesis
    using le_div_iff_mult_le [OF mag(1)] by (simp add: step_guard_def mag_def not_less)
qed (simp add: step_guard_def)

lemma sdiv_bounds:
  fixes p :: int
  assumes "INT64_MIN \<le> p" and "p \<le> INT64_MAX"
  shows "- 9223372037 \<le> p sdiv 1000000000" "p sdiv 1000000000 \<le> 9223372036"
proof -
  have "\<bar>p\<bar> div 1000000000 \<le> 9223372036"
    using assms by (intro order.trans [OF zdiv_mono1 [of "\<bar>p\<bar>" 9223372036854775808 1000000000]]) auto
  moreover have "0 \<le> \<bar>p\<bar> div 1000000000" by simp
  ultimately show "- 9223372037 \<le> p sdiv 1000000000" "p sdiv 1000000000 \<le> 9223372036"
    by (auto simp: signed_divide_int_def sgn_if)
qed

text \<open>No operation of \<open>step\<close> overflows when \<open>dt_ns\<close> is not negative.\<close>

lemma step_eq:
  assumes "0 \<le> sint dt_ns"
  shows "step pos vel dt_ns next0 =
    Some (if \<bar>sint vel\<bar> * sint dt_ns \<le> INT64_MAX
          then (representable (sint pos) (sint vel) (sint dt_ns), moved (sint pos) (sint vel) (sint dt_ns))
          else (False, next0))"
proof (cases "\<bar>sint vel\<bar> * sint dt_ns \<le> INT64_MAX")
  case True
  have "\<bar>sint vel * sint dt_ns\<bar> \<le> INT64_MAX"
    using True assms by (simp add: abs_mult)
  then have prod: "INT64_MIN \<le> sint vel * sint dt_ns" "sint vel * sint dt_ns \<le> INT64_MAX"
    by linarith+
  note delta = sdiv_bounds [OF prod]
  show ?thesis
    using True prod delta sint_i32_bounds [of pos]
    by (simp add: step_def step_guard_eq [OF assms] cxx_arith moved_def representable_def conj_commute)
qed (simp add: step_def step_guard_eq [OF assms])


text \<open>The position a sample is integrated from: the row if it is valid, else the sample itself.\<close>

definition base_x :: "FleetSoA \<Rightarrow> Record \<Rightarrow> int" where
  "base_x f s = sint (if f_valid f ! unat (r_source_id s) then f_pos_x f ! unat (r_source_id s) else r_pos_x s)"

definition base_y :: "FleetSoA \<Rightarrow> Record \<Rightarrow> int" where
  "base_y f s = sint (if f_valid f ! unat (r_source_id s) then f_pos_y f ! unat (r_source_id s) else r_pos_y s)"

definition step_fits :: "FleetSoA \<Rightarrow> Record \<Rightarrow> i64 \<Rightarrow> bool" where
  "step_fits f s dt_ns \<longleftrightarrow>
     representable (base_x f s) (sint (r_vel_x s)) (sint dt_ns) \<and>
     representable (base_y f s) (sint (r_vel_y s)) (sint dt_ns)"

lemma representable_product: "representable pos vel dt \<Longrightarrow> \<bar>vel\<bar> * dt \<le> INT64_MAX"
  by (simp add: representable_def)

lemma integrate_cases:
  "integrate f s dt_ns =
     Some (if r_source_id s \<ge> kMaxSources then (IntegrateBadSource, f)
           else if sint dt_ns < 0 then (IntegrateBadDt, f)
           else if step_fits f s dt_ns
           then (IntegrateOk, store_row f (unat (r_source_id s)) s
                  (moved (base_x f s) (sint (r_vel_x s)) (sint dt_ns))
                  (moved (base_y f s) (sint (r_vel_y s)) (sint dt_ns)))
           else (IntegrateOutOfRange, f))"
proof (cases "r_source_id s \<ge> kMaxSources \<or> sint dt_ns < 0")
  case False
  then have dt: "0 \<le> sint dt_ns" by simp
  have x: "step (if f_valid f ! unat (r_source_id s) then f_pos_x f ! unat (r_source_id s) else r_pos_x s)
        (r_vel_x s) dt_ns 0 =
      Some (if \<bar>sint (r_vel_x s)\<bar> * sint dt_ns \<le> INT64_MAX
        then (representable (base_x f s) (sint (r_vel_x s)) (sint dt_ns),
              moved (base_x f s) (sint (r_vel_x s)) (sint dt_ns))
        else (False, 0))"
    by (simp only: step_eq [OF dt] base_x_def)
  have y: "step (if f_valid f ! unat (r_source_id s) then f_pos_y f ! unat (r_source_id s) else r_pos_y s)
        (r_vel_y s) dt_ns 0 =
      Some (if \<bar>sint (r_vel_y s)\<bar> * sint dt_ns \<le> INT64_MAX
        then (representable (base_y f s) (sint (r_vel_y s)) (sint dt_ns),
              moved (base_y f s) (sint (r_vel_y s)) (sint dt_ns))
        else (False, 0))"
    by (simp only: step_eq [OF dt] base_y_def)
  show ?thesis
    using False unfolding integrate_def Let_def x y
    by (auto simp: step_fits_def dest: representable_product)
qed (auto simp: integrate_def)

text \<open>
  (C21) \<^verbatim>\<open>integrate\<close> is free of undefined behaviour on every input (no int64
  operation overflows) and its status is exact: a bad source first, then a
  negative step, then Ok precisely when both axis products fit in int64 and
  both new coordinates fit in int32, else OutOfRange.
\<close>

theorem integrate_status:
  "map_option fst (integrate f s dt_ns) =
     Some (if r_source_id s \<ge> kMaxSources then IntegrateBadSource
           else if sint dt_ns < 0 then IntegrateBadDt
           else if step_fits f s dt_ns then IntegrateOk
           else IntegrateOutOfRange)"
  by (simp add: integrate_cases)

text \<open>
  (C12) An accepted sample moves its own row by one step of
  \<open>vel * dt / 10^9\<close> truncated toward zero, in exact integers, from the row's
  position (or from the sample's, the first time), copies velocity, sequence
  and time, marks the row valid, and touches no other row.
\<close>

theorem integrate_accepts:
  assumes "integrate f s dt_ns = Some (IntegrateOk, f')" and "fleet_wf f"
    and "i = unat (r_source_id s)"
  shows "sint (f_pos_x f' ! i) = moved (base_x f s) (sint (r_vel_x s)) (sint dt_ns) \<and>
    sint (f_pos_y f' ! i) = moved (base_y f s) (sint (r_vel_y s)) (sint dt_ns) \<and>
    f_vel_x f' ! i = r_vel_x s \<and> f_vel_y f' ! i = r_vel_y s \<and>
    f_sequence f' ! i = r_sequence s \<and> f_time_ns f' ! i = r_time_ns s \<and> f_valid f' ! i \<and>
    (\<forall>j. j \<noteq> i \<longrightarrow>
       f_pos_x f' ! j = f_pos_x f ! j \<and> f_pos_y f' ! j = f_pos_y f ! j \<and>
       f_vel_x f' ! j = f_vel_x f ! j \<and> f_vel_y f' ! j = f_vel_y f ! j \<and>
       f_sequence f' ! j = f_sequence f ! j \<and> f_time_ns f' ! j = f_time_ns f ! j \<and>
       f_valid f' ! j = f_valid f ! j)"
proof -
  from assms(1) have src: "r_source_id s < kMaxSources" and fits: "step_fits f s dt_ns"
    and f': "f' = store_row f i s (moved (base_x f s) (sint (r_vel_x s)) (sint dt_ns))
                  (moved (base_y f s) (sint (r_vel_y s)) (sint dt_ns))"
    by (auto simp: integrate_cases assms(3) not_le split: if_splits)
  have "i < 64" using src assms(3) by (simp add: less_kMaxSources_iff)
  then show ?thesis
    using fits assms(2)
    by (simp add: f' store_row_def fleet_wf_def step_fits_def representable_def sint_of_int_i32)
qed

text \<open>The sample of \<^verbatim>\<open>tests/test_fleet.cpp\<close>: 2000 mm/s from 1000 mm for 5 ms.\<close>

definition test_sample :: Record where
  "test_sample = \<lparr>r_source_id = 1, r_sequence = 1, r_time_ns = 0,
     r_pos_x = 1000, r_pos_y = 0, r_vel_x = 2000, r_vel_y = 0\<rparr>"

lemma test_sample_integrates:
  "integrate FleetSoA_default test_sample kFastPeriodNs =
     Some (IntegrateOk, store_row FleetSoA_default 1 test_sample 1010 0)"
  by (simp add: integrate_cases test_sample_def FleetSoA_default_def kMaxSources_def
      step_fits_def representable_def moved_def base_x_def base_y_def kFastPeriodNs_def
      word_le_nat_alt)

lemma fleet_wf_default [simp]: "fleet_wf FleetSoA_default"
  by (simp add: fleet_wf_def FleetSoA_default_def)

theorem integrate_accepts_witness:
  "\<exists>f'. integrate FleetSoA_default test_sample kFastPeriodNs = Some (IntegrateOk, f') \<and>
     sint (f_pos_x f' ! 1) = 1010 \<and> f_valid f' ! 1 \<and> \<not> f_valid f' ! 2"
proof -
  note accepted = integrate_accepts [OF test_sample_integrates fleet_wf_default refl]
  have "sint (f_pos_x (store_row FleetSoA_default 1 test_sample 1010 0) ! 1) = 1010"
    using accepted
    by (simp add: test_sample_def base_x_def moved_def FleetSoA_default_def kFastPeriodNs_def)
  with accepted show ?thesis
    by (simp add: test_sample_integrates) (simp add: test_sample_def FleetSoA_default_def store_row_def)
qed

text \<open>
  A sample that is not accepted leaves the whole fleet table unchanged,
  and every sample keeps the table well formed.
\<close>

theorem integrate_frame:
  assumes "integrate f s dt_ns = Some (st, f')"
  shows "(st \<noteq> IntegrateOk \<longrightarrow> f' = f) \<and> (fleet_wf f \<longrightarrow> fleet_wf f')"
  using assms by (auto simp: integrate_cases store_row_def fleet_wf_def split: if_splits)

theorem integrate_frame_witness:
  "integrate FleetSoA_default (test_sample\<lparr>r_pos_x := 2147483647\<rparr>) 1000000000 =
     Some (IntegrateOutOfRange, FleetSoA_default) \<and> fleet_wf FleetSoA_default"
proof -
  have "integrate FleetSoA_default (test_sample\<lparr>r_pos_x := 2147483647\<rparr>) 1000000000 =
     Some (IntegrateOutOfRange, FleetSoA_default)"
    by (simp add: integrate_cases test_sample_def FleetSoA_default_def kMaxSources_def
        step_fits_def representable_def moved_def base_x_def word_le_nat_alt)
  from this integrate_frame [OF this] show ?thesis by simp
qed

end
