(* ===== verification/Pace.thy ===== *)
theory Pace
  imports Types
begin

text \<open>
  Period budgets and the silence test: \<^verbatim>\<open>include/ratehub/pace.hpp\<close> and the pacing
  helpers of \<^verbatim>\<open>src/compute.cpp\<close>. The process environment is a parameter: \<open>getenv\<close>
  maps a variable to its value, \<open>None\<close> for the null pointer. Signed subtraction
  and multiplication are the partial C++ operations of the prelude.
\<close>

section \<open>Budgets\<close>

record Budget =
  bud_overrun :: bool
  bud_sleep_ns :: i64

definition pacing_enabled :: "(string \<Rightarrow> string option) \<Rightarrow> bool" where
  "pacing_enabled getenv =
     (case getenv ''RATEHUB_PACE'' of
        None \<Rightarrow> True
      | Some [] \<Rightarrow> True
      | Some (c # _) \<Rightarrow> c \<noteq> CHR ''0'')"

definition budget :: "i64 \<Rightarrow> i64 \<Rightarrow> Budget option" where
  "budget work_ns0 period_ns =
     (let work_ns = (if sint work_ns0 < 0 then 0 else work_ns0) in
      if sint period_ns \<le> 0 \<or> sint work_ns > sint period_ns
      then Some \<lparr>bud_overrun = True, bud_sleep_ns = 0\<rparr>
      else do {
        rest \<leftarrow> i64_sub (sint period_ns) (sint work_ns);
        Some \<lparr>bud_overrun = False, bud_sleep_ns = word_of_int rest\<rparr>
      })"

text \<open>
  The end of a cycle: what \<open>fetch_add\<close> leaves in the overrun counter (it wraps)
  and whether the thread sleeps or yields.
\<close>

datatype pause = SleepFor i64 | Yield

definition finish_cycle :: "(string \<Rightarrow> string option) \<Rightarrow> u32 \<Rightarrow> i64 \<Rightarrow> i64 \<Rightarrow> (u32 \<times> pause) option" where
  "finish_cycle getenv overruns work_ns period_ns =
     do {
       spent \<leftarrow> budget work_ns period_ns;
       let overruns' = (if bud_overrun spent then overruns + 1 else overruns);
       if pacing_enabled getenv \<and> sint (bud_sleep_ns spent) > 0
       then Some (overruns', SleepFor (bud_sleep_ns spent))
       else Some (overruns', Yield)
     }"

section \<open>Silence\<close>

definition heartbeat_stalled :: "u64 \<Rightarrow> u64 \<Rightarrow> u64 \<Rightarrow> bool \<Rightarrow> bool" where
  "heartbeat_stalled now beat silence_ns stage_done =
     (if stage_done \<or> beat = 0 \<or> now < beat then False
      else now - beat > silence_ns)"

definition kFloorNs :: u64 where "kFloorNs = 200000000"

definition stall_limit_ns :: "i64 \<Rightarrow> u64 option" where
  "stall_limit_ns period_ns =
     do {
       p \<leftarrow> i64_mul 4 (sint period_ns);
       let four = (word_of_int p :: u64);
       Some (if four > kFloorNs then four else kFloorNs)
     }"

section \<open>Lemmas\<close>

lemma sint_of_int_i64: "in_i64 z \<Longrightarrow> sint (word_of_int z :: i64) = z"
  by (simp add: in_i64_def signed_of_int signed_take_bit_int_eq_self)

lemma sint_sub_i64: "in_i64 (sint (x :: i64) - sint y) \<Longrightarrow> sint (x - y) = sint x - sint y"
  using sint_of_int_i64 [of "sint x - sint y"] by simp

text \<open>The two outcomes of \<open>budget\<close>, in integers; it never meets signed overflow.\<close>

lemma budget_cases:
  obtains (overrun) "sint p \<le> 0 \<or> sint p < sint w" "budget w p = Some \<lparr>bud_overrun = True, bud_sleep_ns = 0\<rparr>"
  | (within) b where "0 < sint p" "sint w \<le> sint p" "budget w p = Some b" "\<not> bud_overrun b"
      "sint (bud_sleep_ns b) = sint p - max 0 (sint w)"
proof (cases "sint p \<le> 0 \<or> sint p < sint w")
  case True
  then show ?thesis by (intro overrun) (auto simp: budget_def Let_def)
next
  case False
  have "in_i64 (sint p - max 0 (sint w))"
    using False sint_i64_bounds [of p] sint_i64_bounds [of w] by (auto simp: in_i64_def)
  with False show ?thesis
    by (intro within [of "\<lparr>bud_overrun = False, bud_sleep_ns = word_of_int (sint p - max 0 (sint w))\<rparr>"])
      (auto simp: budget_def Let_def i64_sub_def i64_result_def sint_of_int_i64 sint_sub_i64 max_def)
qed

lemma stall_limits:
  "stall_limit_ns kFastPeriodNs = Some 200000000"
  "stall_limit_ns kWindowPeriodNs = Some 200000000"
  "stall_limit_ns kSnapshotPeriodNs = Some 400000000"
  by (simp_all add: stall_limit_ns_def bound_defs kFloorNs_def i64_mul_def i64_result_def in_i64_def)

section \<open>Properties\<close>

text \<open>
  The end of a cycle is exact on every input and never meets signed overflow. The
  overrun counter goes up by one exactly when the period is not positive or the
  work exceeds it, and then the thread does not sleep; otherwise the counter is
  unchanged and, when pacing is on and time is left, the thread sleeps the
  period less the work (a negative work counts as zero).
\<close>

theorem finish_cycle_exact:
  "(if sint p \<le> 0 \<or> sint p < sint w then finish_cycle getenv n w p = Some (n + 1, Yield)
    else if pacing_enabled getenv \<and> max 0 (sint w) < sint p then
      (\<exists>ns. finish_cycle getenv n w p = Some (n, SleepFor ns) \<and> sint ns + max 0 (sint w) = sint p)
    else finish_cycle getenv n w p = Some (n, Yield))"
  by (rule budget_cases [where w = w and p = p]) (auto simp: finish_cycle_def Let_def)

text \<open>
  The silence test has no wrap-around: a stage is late exactly when it is not done,
  has reported, its last beat is not in the future and lies more than the limit
  back; the limits of the three compute threads are 200, 200 and 400 ms.
\<close>

theorem heartbeat_stalled_exact:
  "(heartbeat_stalled now beat silence_ns stage_done \<longleftrightarrow>
      \<not> stage_done \<and> beat \<noteq> 0 \<and> unat beat + unat silence_ns < unat now) \<and>
   map stall_limit_ns [kFastPeriodNs, kWindowPeriodNs, kSnapshotPeriodNs] =
     map Some [200000000, 200000000, 400000000]"
proof -
  have "unat (now - beat) = unat now - unat beat" if "\<not> now < beat"
    using that by (simp add: unat_sub not_less)
  then show ?thesis
    by (auto simp: heartbeat_stalled_def stall_limits word_less_nat_alt)
qed

end
