(* ===== verification/Compute.thy ===== *)
theory Compute
  imports Shm_Region Fleet Pace
begin

text \<open>
  \<^verbatim>\<open>src/compute.cpp\<close>: the four threads of the compute process. Each thread is a
  function from the state to its next state, \<open>None\<close> when it has finished; a call
  covers one access of shared state or one evaluation of a loop condition. The
  clock is outside the program, so the value a call of \<open>now_ns\<close> returns is the
  argument \<open>now\<close>, and the environment variables are the argument \<open>getenv\<close>.

  A \<open>load\<close> of a row may also fail: its 64 attempts can all meet a writer inside
  \<open>publish\<close> (see \<^verbatim>\<open>Seqlock\<close>). The argument \<open>busy\<close> says so, and \<open>compute_step\<close>
  allows it only while the writer of that row is inside \<open>publish\<close>.
\<close>

section \<open>Start-up\<close>

definition crash_marker :: "string \<Rightarrow> string" where
  "crash_marker shm_name = ''/tmp/ratehub-once'' @ map (\<lambda>c. if c = CHR ''/'' then CHR ''_'' else c) shm_name"

text \<open>
  \<open>exists\<close> and \<open>creates\<close> tell whether a file opens for reading and for writing. The
  second result is the marker file the call creates.
\<close>

definition crash_requested :: "(string \<Rightarrow> string option) \<Rightarrow> (string \<Rightarrow> bool) \<Rightarrow> (string \<Rightarrow> bool) \<Rightarrow> string \<Rightarrow>
    bool \<times> string option" where
  "crash_requested getenv exists creates shm_name =
     (case getenv ''RATEHUB_CRASH'' of
        None \<Rightarrow> (False, None)
      | Some crash \<Rightarrow>
          if crash = ''always'' then (True, None)
          else if crash \<noteq> ''once'' then (False, None)
          else let marker = crash_marker shm_name in
            if exists marker then (False, None)
            else (creates marker, if creates marker then Some marker else None))"

section \<open>Threads\<close>

datatype fast_pc = FastTest | FastBeat | FastStart | FastPop u64 bool | FastHandle u64 Record
  | FastPublish u64 nat SourceState | FastBeatCompute u64 u32 | FastCheck u64 bool | FastStore | FastDone

text \<open>A scan of the rows belongs to a cycle that began at some time, or is the last one (\<open>None\<close>).\<close>

datatype window_pc = WinTest | WinBeat | WinStart | WinScan "u64 option" nat
  | WinPublish "u64 option" nat WindowState | WinBeatEnd | WinStore | WinDone

datatype snapshot_pc = SnapTest | SnapBeat | SnapStart | SnapCycle u64 | SnapGeneration | SnapRow Snapshot nat
  | SnapPublish Snapshot | SnapBeatEnd | SnapStore | SnapDone

datatype watchdog_pc = DogTest | DogCheck | DogDone

text \<open>The locals of \<open>run_compute\<close>; \<open>cp_taken\<close> and \<open>cp_snaps\<close> are the histories of popped records and published snapshots.\<close>

record compute_local =
  cp_fleet :: FleetSoA
  cp_publishes :: "u32 list"
  cp_fast :: fast_pc
  cp_window :: window_pc
  cp_snapshot :: snapshot_pc
  cp_watchdog :: watchdog_pc
  cp_exit :: "nat option"
  cp_taken :: "Record list"
  cp_snaps :: "Snapshot list"

definition compute_start :: compute_local where
  "compute_start = \<lparr>cp_fleet = FleetSoA_default, cp_publishes = replicate 64 0,
     cp_fast = FastTest, cp_window = WinTest, cp_snapshot = SnapTest, cp_watchdog = DogTest,
     cp_exit = None, cp_taken = [], cp_snaps = []\<rparr>"

definition run_compute :: "bool \<Rightarrow> ShmStatus \<Rightarrow> nat + compute_local" where
  "run_compute crash attached =
     (if crash then Inl 2 else if attached \<noteq> ShmOk then Inl 1 else Inr compute_start)"

subsection \<open>The 5 ms thread\<close>

text \<open>
  One popped record: integrate it, and when it is accepted build the row to
  publish. \<open>None\<close> would be undefined behaviour of \<open>integrate\<close>.
\<close>

definition fast_record :: "FleetSoA \<Rightarrow> u32 list \<Rightarrow> Record \<Rightarrow>
    (FleetSoA \<times> u32 list \<times> (nat \<times> SourceState) option) option" where
  "fast_record fleet publishes rec =
     do {
       (status, fleet) \<leftarrow> integrate fleet rec kFastPeriodNs;
       if status \<noteq> IntegrateOk then Some (fleet, publishes, None)
       else
         let sid = unat (r_source_id rec);
             n = publishes ! sid + 1;
             state = \<lparr>s_pos_x = f_pos_x fleet ! sid, s_pos_y = f_pos_y fleet ! sid,
               s_vel_x = f_vel_x fleet ! sid, s_vel_y = f_vel_y fleet ! sid,
               s_sequence = f_sequence fleet ! sid, s_publishes = n,
               s_time_ns = f_time_ns fleet ! sid, s_valid = 1\<rparr>
         in Some (fleet, publishes[sid := n], Some (sid, state))
     }"

text \<open>The drain loop over the records \<open>try_pop\<close> delivers, with the rows it publishes.\<close>

fun fast_records :: "Record list \<Rightarrow> FleetSoA \<times> u32 list \<times> SourceState list \<Rightarrow>
    (FleetSoA \<times> u32 list \<times> SourceState list) option" where
  "fast_records [] s = Some s"
| "fast_records (rec # recs) (fleet, publishes, rows) =
     (case fast_record fleet publishes rec of
        None \<Rightarrow> None
      | Some (fleet, publishes, None) \<Rightarrow> fast_records recs (fleet, publishes, rows)
      | Some (fleet, publishes, Some (sid, state)) \<Rightarrow> fast_records recs (fleet, publishes, rows[sid := state]))"

definition set_control :: "(ShmControl \<Rightarrow> ShmControl) \<Rightarrow> Layout \<Rightarrow> Layout" where
  "set_control f l = l\<lparr>l_control := f (l_control l)\<rparr>"

fun fast_step :: "(string \<Rightarrow> string option) \<Rightarrow> u64 \<Rightarrow> compute_local \<times> Layout \<Rightarrow> (compute_local \<times> Layout) option" where
  "fast_step getenv now (cp, l) =
     (case cp_fast cp of
        FastTest \<Rightarrow> Some (cp\<lparr>cp_fast := (if stopped (l_control l) then FastStore else FastBeat)\<rparr>, l)
      | FastBeat \<Rightarrow> Some (cp\<lparr>cp_fast := FastStart\<rparr>, set_control (\<lambda>c. c\<lparr>c_heartbeat_fast := now\<rparr>) l)
      | FastStart \<Rightarrow> Some (cp\<lparr>cp_fast := FastPop now False\<rparr>, l)
      | FastPop started drained \<Rightarrow>
          (case SpscRing_try_pop kRingCapacity (l_ring l) Record_default of
             (True, rec, ring) \<Rightarrow>
               Some (cp\<lparr>cp_fast := FastHandle started rec, cp_taken := cp_taken cp @ [rec]\<rparr>, l\<lparr>l_ring := ring\<rparr>)
           | (False, _, ring) \<Rightarrow> Some (cp\<lparr>cp_fast := FastCheck started drained\<rparr>, l\<lparr>l_ring := ring\<rparr>))
      | FastHandle started rec \<Rightarrow>
          (case fast_record (cp_fleet cp) (cp_publishes cp) rec of
             None \<Rightarrow> None
           | Some (fleet, publishes, None) \<Rightarrow>
               Some (cp\<lparr>cp_fleet := fleet, cp_publishes := publishes, cp_fast := FastPop started True\<rparr>, l)
           | Some (fleet, publishes, Some (sid, state)) \<Rightarrow>
               Some (cp\<lparr>cp_fleet := fleet, cp_publishes := publishes, cp_fast := FastPublish started sid state\<rparr>, l))
      | FastPublish started sid state \<Rightarrow>
          Some (cp\<lparr>cp_fast := FastBeatCompute started (s_publishes state)\<rparr>, latest_publish sid state l)
      | FastBeatCompute started n \<Rightarrow>
          Some (cp\<lparr>cp_fast := FastPop started True\<rparr>, set_control (\<lambda>c. c\<lparr>c_heartbeat_compute := ucast n\<rparr>) l)
      | FastCheck started drained \<Rightarrow>
          (if \<not> drained \<and> c_ingest_done (l_control l) \<noteq> 0 then Some (cp\<lparr>cp_fast := FastStore\<rparr>, l)
           else case finish_cycle getenv (c_overrun_fast (l_control l)) (now - started) kFastPeriodNs of
             None \<Rightarrow> None
           | Some (overruns, _) \<Rightarrow>
               Some (cp\<lparr>cp_fast := FastTest\<rparr>, set_control (\<lambda>c. c\<lparr>c_overrun_fast := overruns\<rparr>) l))
      | FastStore \<Rightarrow> Some (cp\<lparr>cp_fast := FastDone\<rparr>, set_control (\<lambda>c. c\<lparr>c_fast_done := 1\<rparr>) l)
      | FastDone \<Rightarrow> None)"

subsection \<open>The 25 ms thread\<close>

text \<open>The row \<open>publish_windows\<close> makes of a loaded \<open>SourceState\<close>.\<close>

definition window_of :: "SourceState \<Rightarrow> WindowState" where
  "window_of source = \<lparr>w_pos_x = s_pos_x source, w_pos_y = s_pos_y source,
     w_sequence = s_sequence source, w_publishes = s_publishes source\<rparr>"

text \<open>
  \<open>publish_windows\<close> as one thread alone runs it; in \<open>window_step\<close> it is the scan,
  row by row, between which the other threads may run.
\<close>

definition publish_window :: "nat \<Rightarrow> Layout \<Rightarrow> Layout" where
  "publish_window i l =
     (case latest_load i l SourceState_default of
        (ok, source) \<Rightarrow> if \<not> ok \<or> s_valid source = 0 then l else window_publish i (window_of source) l)"

definition publish_windows :: "Layout \<Rightarrow> Layout" where
  "publish_windows l = fold publish_window [0..<unat kMaxSources] l"

fun window_step :: "(string \<Rightarrow> string option) \<Rightarrow> u64 \<Rightarrow> bool \<Rightarrow> compute_local \<times> Layout \<Rightarrow>
    (compute_local \<times> Layout) option" where
  "window_step getenv now busy (cp, l) =
     (case cp_window cp of
        WinTest \<Rightarrow>
          Some (cp\<lparr>cp_window := (if c_fast_done (l_control l) = 0 \<and> \<not> stopped (l_control l)
            then WinBeat else WinScan None 0)\<rparr>, l)
      | WinBeat \<Rightarrow> Some (cp\<lparr>cp_window := WinStart\<rparr>, set_control (\<lambda>c. c\<lparr>c_heartbeat_window := now\<rparr>) l)
      | WinStart \<Rightarrow> Some (cp\<lparr>cp_window := WinScan (Some now) 0\<rparr>, l)
      | WinScan cycle i \<Rightarrow>
          (if i < unat kMaxSources then
             (case (if busy then (False, SourceState_default) else latest_load i l SourceState_default) of
                (ok, source) \<Rightarrow>
                  if \<not> ok \<or> s_valid source = 0 then Some (cp\<lparr>cp_window := WinScan cycle (i + 1)\<rparr>, l)
                  else Some (cp\<lparr>cp_window := WinPublish cycle i (window_of source)\<rparr>, l))
           else
             (case cycle of
                None \<Rightarrow> Some (cp\<lparr>cp_window := WinBeatEnd\<rparr>, l)
              | Some started \<Rightarrow>
                  (case finish_cycle getenv (c_overrun_window (l_control l)) (now - started) kWindowPeriodNs of
                     None \<Rightarrow> None
                   | Some (overruns, _) \<Rightarrow>
                       Some (cp\<lparr>cp_window := WinTest\<rparr>, set_control (\<lambda>c. c\<lparr>c_overrun_window := overruns\<rparr>) l))))
      | WinPublish cycle i w \<Rightarrow> Some (cp\<lparr>cp_window := WinScan cycle (i + 1)\<rparr>, window_publish i w l)
      | WinBeatEnd \<Rightarrow> Some (cp\<lparr>cp_window := WinStore\<rparr>, set_control (\<lambda>c. c\<lparr>c_heartbeat_window := now\<rparr>) l)
      | WinStore \<Rightarrow> Some (cp\<lparr>cp_window := WinDone\<rparr>, set_control (\<lambda>c. c\<lparr>c_window_done := 1\<rparr>) l)
      | WinDone \<Rightarrow> None)"

subsection \<open>The 100 ms thread\<close>

fun snapshot_step :: "(string \<Rightarrow> string option) \<Rightarrow> u64 \<Rightarrow> bool \<Rightarrow> compute_local \<times> Layout \<Rightarrow>
    (compute_local \<times> Layout) option" where
  "snapshot_step getenv now busy (cp, l) =
     (case cp_snapshot cp of
        SnapTest \<Rightarrow>
          Some (cp\<lparr>cp_snapshot := (if c_window_done (l_control l) = 0 \<and> \<not> stopped (l_control l)
            then SnapBeat else SnapGeneration)\<rparr>, l)
      | SnapBeat \<Rightarrow> Some (cp\<lparr>cp_snapshot := SnapStart\<rparr>, set_control (\<lambda>c. c\<lparr>c_heartbeat_snapshot := now\<rparr>) l)
      | SnapStart \<Rightarrow> Some (cp\<lparr>cp_snapshot := SnapCycle now\<rparr>, l)
      | SnapCycle started \<Rightarrow>
          (case finish_cycle getenv (c_overrun_snapshot (l_control l)) (now - started) kSnapshotPeriodNs of
             None \<Rightarrow> None
           | Some (overruns, _) \<Rightarrow>
               Some (cp\<lparr>cp_snapshot := SnapTest\<rparr>, set_control (\<lambda>c. c\<lparr>c_overrun_snapshot := overruns\<rparr>) l))
      | SnapGeneration \<Rightarrow>
          Some (cp\<lparr>cp_snapshot := SnapRow (Snapshot_default\<lparr>sn_generation := c_generation (l_control l)\<rparr>) 0\<rparr>, l)
      | SnapRow snap i \<Rightarrow>
          (if i < unat kMaxSources then
             (case (if busy then (False, WindowState_default) else window_load i l WindowState_default) of
                (ok, row) \<Rightarrow>
                  Some (cp\<lparr>cp_snapshot :=
                    SnapRow (if ok then snap\<lparr>sn_rows := (sn_rows snap)[i := row]\<rparr> else snap) (i + 1)\<rparr>, l))
           else Some (cp\<lparr>cp_snapshot := SnapPublish snap\<rparr>, l))
      | SnapPublish snap \<Rightarrow>
          Some (cp\<lparr>cp_snapshot := SnapBeatEnd, cp_snaps := cp_snaps cp @ [snap]\<rparr>,
            l\<lparr>l_snapshots := TripleBuffer_publish (TripleBuffer_write_slot snap (l_snapshots l))\<rparr>)
      | SnapBeatEnd \<Rightarrow> Some (cp\<lparr>cp_snapshot := SnapStore\<rparr>, set_control (\<lambda>c. c\<lparr>c_heartbeat_snapshot := now\<rparr>) l)
      | SnapStore \<Rightarrow> Some (cp\<lparr>cp_snapshot := SnapDone\<rparr>, set_control (\<lambda>c. c\<lparr>c_snapshot_done := 1\<rparr>) l)
      | SnapDone \<Rightarrow> None)"

subsection \<open>The watchdog\<close>

definition late :: "u64 \<Rightarrow> u64 \<Rightarrow> i64 \<Rightarrow> bool \<Rightarrow> bool option" where
  "late now beat period_ns stage_done =
     do { limit \<leftarrow> stall_limit_ns period_ns; Some (heartbeat_stalled now beat limit stage_done) }"

definition watchdog_fault :: "u64 \<Rightarrow> ShmControl \<Rightarrow> bool option" where
  "watchdog_fault now c =
     do {
       late_fast \<leftarrow> late now (c_heartbeat_fast c) kFastPeriodNs (c_fast_done c \<noteq> 0);
       late_window \<leftarrow> late now (c_heartbeat_window c) kWindowPeriodNs (c_window_done c \<noteq> 0);
       late_snapshot \<leftarrow> late now (c_heartbeat_snapshot c) kSnapshotPeriodNs False;
       Some (late_fast \<or> late_window \<or> late_snapshot)
     }"

fun watchdog_step :: "u64 \<Rightarrow> compute_local \<times> Layout \<Rightarrow> (compute_local \<times> Layout) option" where
  "watchdog_step now (cp, l) =
     (case cp_watchdog cp of
        DogTest \<Rightarrow>
          Some (cp\<lparr>cp_watchdog := (if c_snapshot_done (l_control l) = 0 \<and> \<not> stopped (l_control l)
            then DogCheck else DogDone)\<rparr>, l)
      | DogCheck \<Rightarrow>
          (case watchdog_fault now (l_control l) of
             None \<Rightarrow> None
           | Some fault \<Rightarrow>
               Some (cp\<lparr>cp_watchdog := DogTest\<rparr>, if fault then set_control (\<lambda>c. c\<lparr>c_fault := 1\<rparr>) l else l))
      | DogDone \<Rightarrow> None)"

subsection \<open>Joining\<close>

fun compute_main_step :: "compute_local \<times> Layout \<Rightarrow> (compute_local \<times> Layout) option" where
  "compute_main_step (cp, l) =
     (if cp_fast cp = FastDone \<and> cp_window cp = WinDone \<and> cp_snapshot cp = SnapDone \<and>
         cp_watchdog cp = DogDone \<and> cp_exit cp = None
      then Some (cp\<lparr>cp_exit := Some (if c_fault (l_control l) \<noteq> 0 then 3 else 0)\<rparr>,
                 set_control (\<lambda>c. c\<lparr>c_compute_done := 1\<rparr>) l)
      else None)"

fun latest_busy :: "compute_local \<Rightarrow> bool" where
  "latest_busy cp =
     (case (cp_fast cp, cp_window cp) of (FastPublish _ sid _, WinScan _ i) \<Rightarrow> sid = i | _ \<Rightarrow> False)"

fun window_busy :: "compute_local \<Rightarrow> bool" where
  "window_busy cp =
     (case (cp_window cp, cp_snapshot cp) of (WinPublish _ sid _, SnapRow _ i) \<Rightarrow> sid = i | _ \<Rightarrow> False)"

inductive compute_step :: "(string \<Rightarrow> string option) \<Rightarrow> compute_local \<times> Layout \<Rightarrow> compute_local \<times> Layout \<Rightarrow> bool"
  for getenv where
  cs_fast: "fast_step getenv now s = Some t \<Longrightarrow> compute_step getenv s t"
| cs_window: "window_step getenv now busy s = Some t \<Longrightarrow> (busy \<longrightarrow> latest_busy (fst s)) \<Longrightarrow> compute_step getenv s t"
| cs_snapshot: "snapshot_step getenv now busy s = Some t \<Longrightarrow> (busy \<longrightarrow> window_busy (fst s)) \<Longrightarrow> compute_step getenv s t"
| cs_watchdog: "watchdog_step now s = Some t \<Longrightarrow> compute_step getenv s t"
| cs_main: "compute_main_step s = Some t \<Longrightarrow> compute_step getenv s t"

section \<open>What a source's row should be\<close>

text \<open>
  The specification of the 5 ms thread, one source at a time and without the
  structure of arrays: a row moves with each of its own samples that can be
  represented, and counts them.
\<close>

definition row_base_x :: "SourceState \<Rightarrow> Record \<Rightarrow> int" where
  "row_base_x st rec = sint (if s_valid st \<noteq> 0 then s_pos_x st else r_pos_x rec)"

definition row_base_y :: "SourceState \<Rightarrow> Record \<Rightarrow> int" where
  "row_base_y st rec = sint (if s_valid st \<noteq> 0 then s_pos_y st else r_pos_y rec)"

definition advance :: "Record \<Rightarrow> SourceState \<Rightarrow> SourceState" where
  "advance rec st =
     (if representable (row_base_x st rec) (sint (r_vel_x rec)) 5000000 \<and>
         representable (row_base_y st rec) (sint (r_vel_y rec)) 5000000
      then \<lparr>s_pos_x = word_of_int (moved (row_base_x st rec) (sint (r_vel_x rec)) 5000000),
            s_pos_y = word_of_int (moved (row_base_y st rec) (sint (r_vel_y rec)) 5000000),
            s_vel_x = r_vel_x rec, s_vel_y = r_vel_y rec, s_sequence = r_sequence rec,
            s_publishes = s_publishes st + 1, s_time_ns = r_time_ns rec, s_valid = 1\<rparr>
      else st)"

definition track :: "Record list \<Rightarrow> nat \<Rightarrow> SourceState" where
  "track rs sid = fold advance (filter (\<lambda>r. unat (r_source_id r) = sid) rs) SourceState_default"

definition coupled :: "FleetSoA \<Rightarrow> u32 list \<Rightarrow> (nat \<Rightarrow> SourceState) \<Rightarrow> bool" where
  "coupled f publishes rows \<longleftrightarrow> fleet_wf f \<and> length publishes = 64 \<and>
     (\<forall>i < 64. f_pos_x f ! i = s_pos_x (rows i) \<and> f_pos_y f ! i = s_pos_y (rows i) \<and>
        f_vel_x f ! i = s_vel_x (rows i) \<and> f_vel_y f ! i = s_vel_y (rows i) \<and>
        f_sequence f ! i = s_sequence (rows i) \<and> f_time_ns f ! i = s_time_ns (rows i) \<and>
        f_valid f ! i = (s_valid (rows i) \<noteq> 0) \<and> publishes ! i = s_publishes (rows i))"

lemma track_Nil [simp]: "track [] = (\<lambda>_. SourceState_default)"
  by (simp add: track_def fun_eq_iff)

lemma track_snoc [simp]:
  "track (rs @ [rec]) = (track rs)(unat (r_source_id rec) := advance rec (track rs (unat (r_source_id rec))))"
  by (auto simp: track_def fun_eq_iff)

lemma coupled_start: "coupled FleetSoA_default (replicate 64 0) (track [])"
  by (simp add: coupled_def SourceState_default_def) (simp add: FleetSoA_default_def)

lemma sint_kFastPeriodNs [simp]: "sint kFastPeriodNs = 5000000"
  by (simp add: kFastPeriodNs_def)

text \<open>\<open>integrate\<close> accepts exactly the samples that advance the row.\<close>

lemma coupled_fits:
  assumes "coupled f p rows" and "unat (r_source_id rec) < 64"
  shows "base_x f rec = row_base_x (rows (unat (r_source_id rec))) rec"
    and "base_y f rec = row_base_y (rows (unat (r_source_id rec))) rec"
  using assms by (auto simp: coupled_def base_x_def base_y_def row_base_x_def row_base_y_def)

lemma advance_store:
  assumes "coupled f p rows" and "sid < 64" and "s_valid st = 1" and "s_publishes st = p ! sid + 1"
    and "f' = store_row f sid rec nx ny" and "s_pos_x st = word_of_int nx" and "s_pos_y st = word_of_int ny"
    and "s_vel_x st = r_vel_x rec" and "s_vel_y st = r_vel_y rec"
    and "s_sequence st = r_sequence rec" and "s_time_ns st = r_time_ns rec"
  shows "coupled f' (p[sid := p ! sid + 1]) (rows(sid := st))"
  using assms by (auto simp: coupled_def fleet_wf_def store_row_def nth_list_update)

text \<open>One record of the 5 ms thread advances its row and no other.\<close>

lemma fast_record_cases:
  assumes cpl: "coupled f p (track rs)"
  obtains (accept) f' st where "unat (r_source_id rec) < 64"
      "st = track (rs @ [rec]) (unat (r_source_id rec))" "s_valid st = 1"
      "fast_record f p rec = Some (f', p[unat (r_source_id rec) := s_publishes st], Some (unat (r_source_id rec), st))"
      "coupled f' (p[unat (r_source_id rec) := s_publishes st]) (track (rs @ [rec]))"
  | (ignore) "fast_record f p rec = Some (f, p, None)"
      "coupled f p (track (rs @ [rec]))" "\<And>i. i < 64 \<Longrightarrow> track (rs @ [rec]) i = track rs i"
proof (cases "unat (r_source_id rec) < 64")
  case False
  then have "r_source_id rec \<ge> kMaxSources" by (simp add: less_kMaxSources_iff flip: not_less)
  then have "fast_record f p rec = Some (f, p, None)" by (simp add: fast_record_def integrate_cases)
  with False cpl show ?thesis by (intro ignore) (auto simp: coupled_def)
next
  case True
  define sid where "sid = unat (r_source_id rec)"
  define st where "st = track (rs @ [rec]) sid"
  have id: "sid < 64" and src: "\<not> r_source_id rec \<ge> kMaxSources"
    using True by (simp_all add: less_kMaxSources_iff not_le sid_def)
  note base = coupled_fits [OF cpl True, folded sid_def]
  have fits: "step_fits f rec kFastPeriodNs \<longleftrightarrow>
      representable (row_base_x (track rs sid) rec) (sint (r_vel_x rec)) 5000000 \<and>
      representable (row_base_y (track rs sid) rec) (sint (r_vel_y rec)) 5000000"
    by (simp add: step_fits_def base)
  show ?thesis
  proof (cases "step_fits f rec kFastPeriodNs")
    case False
    with fits have "advance rec (track rs sid) = track rs sid" by (auto simp: advance_def)
    then have "track (rs @ [rec]) = track rs" by (simp add: sid_def)
    moreover have "fast_record f p rec = Some (f, p, None)"
      using False src by (simp add: fast_record_def integrate_cases)
    ultimately show ?thesis using cpl by (intro ignore) simp_all
  next
    case fit: True
    define f' where "f' = store_row f sid rec (moved (base_x f rec) (sint (r_vel_x rec)) 5000000)
        (moved (base_y f rec) (sint (r_vel_y rec)) 5000000)"
    have st: "st = advance rec (track rs sid)" by (simp add: st_def sid_def)
    have pub: "p ! sid = s_publishes (track rs sid)" using cpl id by (simp add: coupled_def)
    have fields: "s_valid st = 1" "s_publishes st = p ! sid + 1" "s_pos_x st = f_pos_x f' ! sid"
      "s_pos_y st = f_pos_y f' ! sid" "s_vel_x st = f_vel_x f' ! sid" "s_vel_y st = f_vel_y f' ! sid"
      "s_sequence st = f_sequence f' ! sid" "s_time_ns st = f_time_ns f' ! sid"
      using fit cpl id by (simp_all add: st fits advance_def pub f'_def store_row_def base coupled_def fleet_wf_def)
    have integ: "integrate f rec kFastPeriodNs = Some (IntegrateOk, f')"
      using fit src by (simp add: integrate_cases f'_def sid_def)
    have "fast_record f p rec = Some (f', p[sid := s_publishes st], Some (sid, st))"
      by (simp add: fast_record_def integ Let_def fields flip: sid_def)
    moreover have "coupled f' (p[sid := s_publishes st]) (track (rs @ [rec]))"
      using advance_store [OF cpl id fields(1,2) f'_def] fit
      by (simp add: fields(2) sid_def [symmetric] st [symmetric]) (simp add: st fits advance_def base)
    ultimately show ?thesis using accept [of st f'] fields(1) id by (simp add: sid_def st_def)
  qed
qed

lemma fast_records_from:
  assumes "coupled f p (track rs)" and "rows = map (track rs) [0..<64]"
  shows "\<exists>f' p'. fast_records recs (f, p, rows) = Some (f', p', map (track (rs @ recs)) [0..<64]) \<and>
    coupled f' p' (track (rs @ recs))"
  using assms
proof (induction recs arbitrary: rs f p rows)
  case (Cons rec recs)
  from Cons.prems(1) show ?case
  proof (cases rule: fast_record_cases [where rec = rec])
    case (accept f' st)
    have "rows[unat (r_source_id rec) := st] = map (track (rs @ [rec])) [0..<64]"
      using accept(1,2) Cons.prems(2) by (auto intro!: nth_equalityI simp: nth_list_update)
    from Cons.IH [OF accept(5) this] accept(4) show ?thesis by simp
  next
    case ignore
    have "rows = map (track (rs @ [rec])) [0..<64]" using ignore(3) Cons.prems(2) by simp
    from Cons.IH [OF ignore(2) this] ignore(1) show ?thesis by simp
  qed
qed simp

section \<open>Properties\<close>

text \<open>
  (C13) The drain loop of the 5 ms thread refines the per-source specification: on any
  sequence of records it runs without undefined behaviour, and the rows it
  publishes, the fleet table and the publish counters are those of \<open>track\<close>: each
  source's row is moved by exactly its own representable samples, in order, and
  counts them.
\<close>

theorem fast_records_track:
  "\<exists>f p. fast_records recs (FleetSoA_default, replicate 64 0, replicate 64 SourceState_default) =
       Some (f, p, map (track recs) [0..<64]) \<and> coupled f p (track recs)"
proof -
  have "replicate 64 SourceState_default = map (track []) [0..<64]"
    by (auto intro!: nth_equalityI)
  from fast_records_from [OF coupled_start this, of recs] show ?thesis by simp
qed

lemma publish_window_value:
  assumes "latest_wf (l_latest l)" and "window_wf (l_window l)" and "i < 64"
  shows "window_wf (l_window (publish_window i l)) \<and> l_latest (publish_window i l) = l_latest l \<and>
    window_value (publish_window i l) j =
      (if j = i \<and> s_valid (latest_value l i) \<noteq> 0 then window_of (latest_value l i) else window_value l j)"
  using assms window_publish_wf [OF assms(2,3)] by (simp add: publish_window_def latest_load_wf)

lemma publish_windows_fold:
  assumes "latest_wf (l_latest l)" and "window_wf (l_window l)" and "n \<le> 64"
  shows "window_wf (l_window (fold publish_window [0..<n] l)) \<and> l_latest (fold publish_window [0..<n] l) = l_latest l \<and>
    window_value (fold publish_window [0..<n] l) j =
      (if j < n \<and> s_valid (latest_value l j) \<noteq> 0 then window_of (latest_value l j) else window_value l j)"
  using assms(3)
proof (induction n)
  case (Suc n)
  let ?l = "fold publish_window [0..<n] l"
  have same: "latest_value ?l = latest_value l" using Suc by (simp add: latest_value_def fun_eq_iff)
  from Suc assms(1) have "latest_wf (l_latest ?l)" "window_wf (l_window ?l)" "n < 64" by auto
  from publish_window_value [OF this, of j] Suc show ?case by (auto simp: same less_Suc_eq)
qed (use assms(2) in simp)

text \<open>
  A pass of the 25 ms thread that nothing interrupts copies every valid source row
  to its window, leaves the windows of the other sources alone, changes no
  source row and keeps both tables well formed.
\<close>

theorem publish_windows_exact:
  assumes "latest_wf (l_latest l)" and "window_wf (l_window l)"
  shows "map (window_value (publish_windows l)) [0..<64] =
      map (\<lambda>i. if s_valid (latest_value l i) \<noteq> 0 then window_of (latest_value l i) else window_value l i) [0..<64] \<and>
    l_latest (publish_windows l) = l_latest l \<and> window_wf (l_window (publish_windows l))"
  using publish_windows_fold [OF assms order_refl] by (simp add: publish_windows_def)

theorem publish_windows_exact_witness:
  "window_value (publish_windows (latest_publish 5 (SourceState_default\<lparr>s_pos_x := 7, s_valid := 1\<rparr>) Layout_init)) 5 =
     WindowState_default\<lparr>w_pos_x := 7\<rparr>"
proof -
  have wf: "latest_wf (l_latest Layout_init)" "window_wf (l_window Layout_init)"
    using layout_wf_init by (simp_all add: layout_wf_def)
  let ?l = "latest_publish 5 (SourceState_default\<lparr>s_pos_x := 7, s_valid := 1\<rparr>) Layout_init"
  note pub = latest_publish_wf [OF wf(1), of 5 "SourceState_default\<lparr>s_pos_x := 7, s_valid := 1\<rparr>"]
  have "latest_wf (l_latest ?l)" "window_wf (l_window ?l)" using pub(1) wf(2) by simp_all
  from publish_windows_exact [OF this] have "map (window_value (publish_windows ?l)) [0..<64] ! 5 =
      map (\<lambda>i. if s_valid (latest_value ?l i) \<noteq> 0 then window_of (latest_value ?l i) else window_value ?l i) [0..<64] ! 5"
    by simp
  then show ?thesis
    by (simp add: pub(2)) (simp add: window_of_def SourceState_default_def WindowState_default_def)
qed

end
