(* ===== verification/Compute_Threads.thy ===== *)
theory Compute_Threads
  imports Compute
begin

text \<open>
  The four threads of \<^verbatim>\<open>src/compute.cpp\<close> under every interleaving: the invariant of
  the 5 ms, 25 ms and 100 ms threads against the per-source specification
  \<open>track\<close>, and what a published snapshot holds.
\<close>

section \<open>Invariant of the four threads\<close>

fun handled :: "fast_pc \<Rightarrow> Record list \<Rightarrow> Record list" where
  "handled (FastHandle started rec) taken = butlast taken"
| "handled pc taken = taken"

fun about_to_publish :: "fast_pc \<Rightarrow> (nat \<times> SourceState) option" where
  "about_to_publish (FastPublish started sid st) = Some (sid, st)"
| "about_to_publish pc = None"

definition latest_view :: "fast_pc \<Rightarrow> Layout \<Rightarrow> nat \<Rightarrow> SourceState" where
  "latest_view pc l =
     (case about_to_publish pc of None \<Rightarrow> latest_value l | Some (sid, st) \<Rightarrow> (latest_value l)(sid := st))"

text \<open>
  The rows of the region may be left from an earlier run (\<open>base\<close>, invalid rows being
  default ones). A source shows its stale row until a record of its own is
  accepted, and the row of the specification from then on.
\<close>

definition shown :: "(nat \<Rightarrow> SourceState) \<Rightarrow> Record list \<Rightarrow> nat \<Rightarrow> SourceState" where
  "shown base rs i = (if s_valid (track rs i) \<noteq> 0 then track rs i else base i)"

definition base_ok :: "(nat \<Rightarrow> SourceState) \<Rightarrow> bool" where
  "base_ok base \<longleftrightarrow> (\<forall>i. s_valid (base i) = 0 \<longrightarrow> base i = SourceState_default)"

abbreviation no_rows :: "nat \<Rightarrow> SourceState" where
  "no_rows \<equiv> \<lambda>_. SourceState_default"

text \<open>A state source \<open>i\<close> showed after some of the records taken so far.\<close>

definition state_seen :: "(nat \<Rightarrow> SourceState) \<Rightarrow> Record list \<Rightarrow> nat \<Rightarrow> SourceState \<Rightarrow> bool" where
  "state_seen base taken i st \<longleftrightarrow> (\<exists>rs later. taken = rs @ later \<and> st = shown base rs i)"

text \<open>The 5 ms thread: fleet, counters and published rows are what the records handled so far make them.\<close>

definition fast_inv :: "(nat \<Rightarrow> SourceState) \<Rightarrow> compute_local \<Rightarrow> Layout \<Rightarrow> bool" where
  "fast_inv base cp l \<longleftrightarrow>
     coupled (cp_fleet cp) (cp_publishes cp) (track (handled (cp_fast cp) (cp_taken cp))) \<and>
     latest_wf (l_latest l) \<and>
     base_ok base \<and>
     (\<forall>i < 64. latest_view (cp_fast cp) l i = shown base (handled (cp_fast cp) (cp_taken cp)) i) \<and>
     (\<forall>i < 64. state_seen base (cp_taken cp) i (latest_value l i)) \<and>
     (\<forall>started rec. cp_fast cp = FastHandle started rec \<longrightarrow> (\<exists>rs. cp_taken cp = rs @ [rec])) \<and>
     (\<forall>sid st. about_to_publish (cp_fast cp) = Some (sid, st) \<longrightarrow> sid < 64 \<and> s_valid st = 1) \<and>
     (c_fast_done (l_control l) \<noteq> 0 \<longrightarrow> cp_fast cp = FastDone)"

text \<open>The window row of such a state, or a row nobody has loaded.\<close>

definition row_seen :: "(nat \<Rightarrow> SourceState) \<Rightarrow> Record list \<Rightarrow> nat \<Rightarrow> WindowState \<Rightarrow> bool" where
  "row_seen base taken i w \<longleftrightarrow>
     w = WindowState_default \<or> (\<exists>st. state_seen base taken i st \<and> w = window_of st)"

definition copied :: "Layout \<Rightarrow> nat \<Rightarrow> bool" where
  "copied l n \<longleftrightarrow> (\<forall>i < 64. i < n \<longrightarrow> window_value l i = window_of (latest_value l i))"

fun window_progress :: "window_pc \<Rightarrow> nat option" where
  "window_progress (WinScan None n) = Some n"
| "window_progress (WinPublish None n w) = Some n"
| "window_progress WinBeatEnd = Some 64"
| "window_progress WinStore = Some 64"
| "window_progress WinDone = Some 64"
| "window_progress _ = None"

text \<open>The 25 ms thread: the last pass copies every valid row of the finished 5 ms thread.\<close>

definition window_inv :: "(nat \<Rightarrow> SourceState) \<Rightarrow> compute_local \<Rightarrow> Layout \<Rightarrow> bool" where
  "window_inv base cp l \<longleftrightarrow>
     window_wf (l_window l) \<and>
     (\<forall>i < 64. s_valid (latest_value l i) = 0 \<longrightarrow> window_value l i = WindowState_default) \<and>
     (\<forall>i < 64. row_seen base (cp_taken cp) i (window_value l i)) \<and>
     (\<forall>cycle i w. cp_window cp = WinPublish cycle i w \<longrightarrow>
        i < 64 \<and> s_valid (latest_value l i) \<noteq> 0 \<and> row_seen base (cp_taken cp) i w) \<and>
     (c_window_done (l_control l) \<noteq> 0 \<longrightarrow> cp_window cp = WinDone) \<and>
     (\<forall>n. window_progress (cp_window cp) = Some n \<and> \<not> stopped (l_control l) \<longrightarrow>
        cp_fast cp = FastDone \<and> copied l n \<and>
        (\<forall>w. cp_window cp = WinPublish None n w \<longrightarrow> w = window_of (latest_value l n)))"

fun snapshot_progress :: "snapshot_pc \<Rightarrow> (Snapshot \<times> nat) option" where
  "snapshot_progress SnapGeneration = Some (Snapshot_default, 0)"
| "snapshot_progress (SnapRow snap n) = Some (snap, n)"
| "snapshot_progress (SnapPublish snap) = Some (snap, 64)"
| "snapshot_progress _ = None"

text \<open>A snapshot under construction, or published (\<open>n = 64\<close>).\<close>

definition snapshot_rows :: "(nat \<Rightarrow> SourceState) \<Rightarrow> compute_local \<Rightarrow> Layout \<Rightarrow> Snapshot \<Rightarrow> nat \<Rightarrow> bool" where
  "snapshot_rows base cp l snap n \<longleftrightarrow>
     length (sn_rows snap) = 64 \<and> (\<forall>i < 64. row_seen base (cp_taken cp) i (sn_rows snap ! i)) \<and>
     (\<not> stopped (l_control l) \<longrightarrow>
        cp_window cp = WinDone \<and> (\<forall>i < 64. i < n \<longrightarrow> sn_rows snap ! i = window_value l i))"

definition snapshot_inv :: "(nat \<Rightarrow> SourceState) \<Rightarrow> compute_local \<Rightarrow> Layout \<Rightarrow> bool" where
  "snapshot_inv base cp l \<longleftrightarrow>
     (\<forall>snap n. snapshot_progress (cp_snapshot cp) = Some (snap, n) \<longrightarrow> snapshot_rows base cp l snap n) \<and>
     list_all (\<lambda>snap. snapshot_rows base cp l snap 64) (cp_snaps cp) \<and>
     (cp_snaps cp \<noteq> [] \<longleftrightarrow> cp_snapshot cp \<in> {SnapBeatEnd, SnapStore, SnapDone}) \<and>
     length (cp_snaps cp) \<le> 1 \<and>
     (cp_exit cp \<noteq> None \<longrightarrow> cp_fast cp = FastDone \<and> cp_window cp = WinDone \<and> cp_snapshot cp = SnapDone)"

definition compute_inv :: "(nat \<Rightarrow> SourceState) \<Rightarrow> compute_local \<times> Layout \<Rightarrow> bool" where
  "compute_inv base s \<longleftrightarrow> (case s of (cp, l) \<Rightarrow> fast_inv base cp l \<and> window_inv base cp l \<and> snapshot_inv base cp l)"

subsection \<open>Helpers\<close>

lemma value_cong:
  "l_latest l' = l_latest l \<Longrightarrow> latest_value l' = latest_value l"
  "l_window l' = l_window l \<Longrightarrow> window_value l' = window_value l"
  by (simp_all add: latest_value_def window_value_def fun_eq_iff)

lemma set_control_frame [simp]:
  "l_control (set_control f l) = f (l_control l)" "l_ring (set_control f l) = l_ring l"
  "l_latest (set_control f l) = l_latest l" "l_window (set_control f l) = l_window l"
  "l_snapshots (set_control f l) = l_snapshots l" "l_supervisor (set_control f l) = l_supervisor l"
  by (simp_all add: set_control_def)

lemma value_frame [simp]:
  "latest_value (set_control f l) = latest_value l" "window_value (set_control f l) = window_value l"
  "latest_value (l\<lparr>l_ring := ring\<rparr>) = latest_value l" "window_value (l\<lparr>l_ring := ring\<rparr>) = window_value l"
  "latest_value (l\<lparr>l_snapshots := b\<rparr>) = latest_value l" "window_value (l\<lparr>l_snapshots := b\<rparr>) = window_value l"
  "latest_value (window_publish i w l) = latest_value l" "window_value (latest_publish i st l) = window_value l"
  by (rule value_cong; simp)+

lemma window_of_default [simp]: "window_of SourceState_default = WindowState_default"
  by (simp add: window_of_def SourceState_default_def WindowState_default_def)

lemma shown_Nil [simp]: "shown base [] = base"
  by (simp add: shown_def fun_eq_iff SourceState_default_def)

lemma state_seen_now: "state_seen base rs i (shown base rs i)"
  by (auto simp: state_seen_def)

lemma state_seen_more: "state_seen base rs i st \<Longrightarrow> state_seen base (rs @ [r]) i st"
  unfolding state_seen_def by (metis append_assoc)

lemma row_seen_default: "row_seen base rs i WindowState_default"
  by (simp add: row_seen_def)

lemma row_seen_more: "row_seen base rs i w \<Longrightarrow> row_seen base (rs @ [r]) i w"
  by (auto simp: row_seen_def intro: state_seen_more)

lemma advance_valid: "s_valid (advance rec st) = 0 \<Longrightarrow> advance rec st = st"
  by (auto simp: advance_def split: if_splits)

lemma track_invalid: "s_valid (track rs i) = 0 \<Longrightarrow> track rs i = SourceState_default"
proof (induction rs rule: rev_induct)
  case (snoc rec rs)
  then show ?case using advance_valid [of rec "track rs i"] by (auto split: if_splits)
qed simp

lemma shown_invalid: "base_ok base \<Longrightarrow> s_valid (shown base rs i) = 0 \<Longrightarrow> shown base rs i = SourceState_default"
  by (auto simp: shown_def base_ok_def split: if_splits)

lemma shown_other: "unat (r_source_id rec) \<noteq> i \<Longrightarrow> shown base (rs @ [rec]) i = shown base rs i"
  by (simp add: shown_def)

lemma shown_valid: "s_valid (track rs i) \<noteq> 0 \<Longrightarrow> shown base rs i = track rs i"
  by (simp add: shown_def)

lemma shown_cong: "track rs i = track rs' i \<Longrightarrow> shown base rs i = shown base rs' i"
  by (simp add: shown_def)

lemma shown_no_rows [simp]: "shown no_rows rs i = track rs i"
  using track_invalid [of rs i] by (auto simp: shown_def)

lemma base_ok_no_rows [simp]: "base_ok no_rows"
  by (simp add: base_ok_def)

lemma latest_view_None: "about_to_publish pc = None \<Longrightarrow> latest_view pc l = latest_value l"
  by (simp add: latest_view_def)

text \<open>What each thread leaves alone.\<close>

lemma fast_step_frame:
  assumes "fast_step getenv now (cp, l) = Some (cp', l')"
  shows "cp_window cp' = cp_window cp \<and> cp_snapshot cp' = cp_snapshot cp \<and> cp_exit cp' = cp_exit cp \<and>
    cp_snaps cp' = cp_snaps cp \<and> l_window l' = l_window l \<and> l_snapshots l' = l_snapshots l \<and>
    c_shutdown (l_control l') = c_shutdown (l_control l) \<and>
    c_window_done (l_control l') = c_window_done (l_control l) \<and> cp_fast cp \<noteq> FastDone"
  using assms by (auto split: fast_pc.splits if_splits option.splits prod.splits bool.splits)

lemma window_step_frame:
  assumes "window_step getenv now busy (cp, l) = Some (cp', l')"
  shows "cp_fast cp' = cp_fast cp \<and> cp_fleet cp' = cp_fleet cp \<and> cp_publishes cp' = cp_publishes cp \<and>
    cp_taken cp' = cp_taken cp \<and> cp_snapshot cp' = cp_snapshot cp \<and> cp_exit cp' = cp_exit cp \<and>
    cp_snaps cp' = cp_snaps cp \<and> l_latest l' = l_latest l \<and> l_snapshots l' = l_snapshots l \<and> l_ring l' = l_ring l \<and>
    c_shutdown (l_control l') = c_shutdown (l_control l) \<and>
    c_fast_done (l_control l') = c_fast_done (l_control l) \<and> cp_window cp \<noteq> WinDone"
  using assms by (auto split: window_pc.splits if_splits option.splits prod.splits)

lemma snapshot_step_frame:
  assumes "snapshot_step getenv now busy (cp, l) = Some (cp', l')"
  shows "cp_fast cp' = cp_fast cp \<and> cp_fleet cp' = cp_fleet cp \<and> cp_publishes cp' = cp_publishes cp \<and>
    cp_taken cp' = cp_taken cp \<and> cp_window cp' = cp_window cp \<and> cp_exit cp' = cp_exit cp \<and>
    l_latest l' = l_latest l \<and> l_window l' = l_window l \<and> l_ring l' = l_ring l \<and>
    c_shutdown (l_control l') = c_shutdown (l_control l) \<and>
    c_fast_done (l_control l') = c_fast_done (l_control l) \<and>
    c_window_done (l_control l') = c_window_done (l_control l) \<and> cp_snapshot cp \<noteq> SnapDone"
  using assms by (auto split: snapshot_pc.splits if_splits option.splits prod.splits)

subsection \<open>The 5 ms thread keeps its invariant\<close>

lemma fast_inv_handle:
  assumes inv: "fast_inv base cp l" and pc: "cp_fast cp = FastHandle started rec"
    and st: "fast_step getenv now (cp, l) = Some (cp', l')"
  shows "fast_inv base cp' l'"
proof -
  from inv pc obtain rs where taken: "cp_taken cp = rs @ [rec]" by (auto simp: fast_inv_def)
  have cpl: "coupled (cp_fleet cp) (cp_publishes cp) (track rs)"
    and view: "\<And>i. i < 64 \<Longrightarrow> latest_value l i = shown base rs i"
    using inv pc taken by (auto simp: fast_inv_def latest_view_None)
  from cpl show ?thesis
  proof (cases rule: fast_record_cases [where rec = rec])
    case (accept f' st)
    with st pc inv taken view show ?thesis
      by (auto simp: fast_inv_def latest_view_def shown_other shown_valid simp del: track_snoc)
  next
    case ignore
    with st pc inv taken view shown_cong [OF ignore(3)] show ?thesis
      by (auto simp: fast_inv_def latest_view_def simp del: track_snoc)
  qed
qed

lemma fast_inv_publish:
  assumes inv: "fast_inv base cp l" and pc: "cp_fast cp = FastPublish started sid st"
  shows "fast_inv base (cp\<lparr>cp_fast := FastBeatCompute started (s_publishes st)\<rparr>) (latest_publish sid st l)"
proof -
  from inv pc have "latest_wf (l_latest l)" "sid < 64" by (auto simp: fast_inv_def)
  note pub = latest_publish_wf [OF this]
  have "latest_value (latest_publish sid st l) i = shown base (cp_taken cp) i" if "i < 64" for i
    using that inv pc pub(2) by (auto simp: fast_inv_def latest_view_def)
  with pub(1) inv pc show ?thesis
    by (auto simp: fast_inv_def latest_view_None intro: state_seen_now)
qed

lemma fast_step_inv:
  assumes inv: "fast_inv base cp l" and st: "fast_step getenv now (cp, l) = Some (cp', l')"
  shows "fast_inv base cp' l'"
proof (cases "cp_fast cp")
  case (FastHandle started rec)
  then show ?thesis using fast_inv_handle [OF inv _ st] by simp
next
  case (FastPublish started sid s)
  then show ?thesis using fast_inv_publish [OF inv FastPublish] st by simp
next
  case (FastPop started drained)
  with inv st show ?thesis
    by (auto simp: fast_inv_def latest_view_None intro!: state_seen_more state_seen_now split: prod.splits bool.splits)
next
  case (FastCheck started drained)
  with inv st show ?thesis
    by (auto simp: fast_inv_def latest_view_None split: if_splits option.splits prod.splits)
next
  case FastTest
  with inv st show ?thesis by (cases "stopped (l_control l)") (auto simp: fast_inv_def latest_view_None)
qed (use inv st in \<open>auto simp: fast_inv_def latest_view_None\<close>)

lemma fast_inv_cong:
  assumes "fast_inv base cp l" and "cp_fast cp' = cp_fast cp" and "cp_fleet cp' = cp_fleet cp"
    and "cp_publishes cp' = cp_publishes cp" and "cp_taken cp' = cp_taken cp" and "l_latest l' = l_latest l"
    and "c_fast_done (l_control l') = c_fast_done (l_control l)"
  shows "fast_inv base cp' l'"
proof -
  have "latest_view (cp_fast cp') l' = latest_view (cp_fast cp) l"
    using assms(2) value_cong(1) [OF assms(6)] by (simp add: latest_view_def split: option.split)
  with assms value_cong(1) [OF assms(6)] show ?thesis by (simp add: fast_inv_def)
qed

text \<open>How a step of the 5 ms thread looks from the other threads.\<close>

lemma fast_step_taken:
  assumes "fast_step getenv now (cp, l) = Some (cp', l')"
  shows "cp_taken cp' = cp_taken cp \<or> (\<exists>r. cp_taken cp' = cp_taken cp @ [r])"
  using assms by (auto split: fast_pc.splits if_splits option.splits prod.splits bool.splits)

lemma fast_step_seen:
  assumes "fast_step getenv now (cp, l) = Some (cp', l')" and "row_seen base (cp_taken cp) i w"
  shows "row_seen base (cp_taken cp') i w"
  using fast_step_taken [OF assms(1)] assms(2) row_seen_more by auto

lemma fast_step_valid:
  assumes inv: "fast_inv base cp l" and st: "fast_step getenv now (cp, l) = Some (cp', l')"
    and "s_valid (latest_value l' i) = 0"
  shows "s_valid (latest_value l i) = 0"
proof (cases "\<exists>started sid s. cp_fast cp = FastPublish started sid s")
  case True
  then obtain started sid s where pc: "cp_fast cp = FastPublish started sid s" by blast
  with inv have "latest_wf (l_latest l)" "sid < 64" "s_valid s = 1" by (auto simp: fast_inv_def)
  with latest_publish_wf(2) [of l sid s i] pc st assms(3) show ?thesis by (auto split: if_splits)
next
  case False
  then have "latest_value l' = latest_value l"
    using st by (auto split: fast_pc.splits if_splits option.splits prod.splits bool.splits)
  with assms(3) show ?thesis by simp
qed

subsection \<open>The 25 ms thread keeps its invariant\<close>

lemma stopped_cong: "c_shutdown c' = c_shutdown c \<Longrightarrow> stopped c' = stopped c"
  by (simp add: stopped_def)

lemma window_inv_fast:
  assumes "fast_inv base cp l" and "window_inv base cp l" and st: "fast_step getenv now (cp, l) = Some (cp', l')"
  shows "window_inv base cp' l'"
proof -
  note frame = fast_step_frame [OF st]
  have stop: "stopped (l_control l') = stopped (l_control l)" using frame stopped_cong by blast
  have win: "window_value l' = window_value l" using frame value_cong(2) by blast
  show ?thesis unfolding window_inv_def win stop
    using assms(2) frame fast_step_valid [OF assms(1) st] fast_step_seen [OF st]
    by (auto simp: window_inv_def)
qed

lemma window_inv_cong:
  assumes "window_inv base cp l" and "cp_window cp' = cp_window cp" and "cp_fast cp' = cp_fast cp"
    and "cp_taken cp' = cp_taken cp" and "l_latest l' = l_latest l" and "l_window l' = l_window l"
    and "c_window_done (l_control l') = c_window_done (l_control l)"
    and "stopped (l_control l) \<longrightarrow> stopped (l_control l')"
  shows "window_inv base cp' l'"
  using assms value_cong [of l' l] by (auto simp: window_inv_def copied_def)

lemma copied_Suc: "copied l n \<Longrightarrow> (n < 64 \<longrightarrow> window_value l n = window_of (latest_value l n)) \<Longrightarrow> copied l (Suc n)"
  by (auto simp: copied_def less_Suc_eq)

lemma window_inv_scan:
  assumes fast: "fast_inv base cp l" and inv: "window_inv base cp l" and pc: "cp_window cp = WinScan cycle i" and i: "i < 64"
    and st: "window_step getenv now busy (cp, l) = Some (cp', l')" and busy: "busy \<longrightarrow> latest_busy cp"
  shows "window_inv base cp' l'"
proof -
  have load: "latest_load i l SourceState_default = (True, latest_value l i)"
    using fast i by (intro latest_load_wf) (simp_all add: fast_inv_def)
  have seen: "state_seen base (cp_taken cp) i (latest_value l i)" using fast i by (simp add: fast_inv_def)
  show ?thesis
  proof (cases "busy \<or> s_valid (latest_value l i) = 0")
    case True
    with pc i st load have cp': "cp' = cp\<lparr>cp_window := WinScan cycle (i + 1)\<rparr>" and l': "l' = l"
      by (auto split: if_splits)
    have "copied l (Suc i)" if "cycle = None" "\<not> stopped (l_control l)"
    proof -
      from inv pc that have fd: "cp_fast cp = FastDone" and "copied l i" by (auto simp: window_inv_def)
      with True busy pc have "s_valid (latest_value l i) = 0" by auto
      moreover from fast fd i have "base_ok base" "latest_value l i = shown base (cp_taken cp) i"
        by (simp_all add: fast_inv_def latest_view_None)
      ultimately have "window_value l i = window_of (latest_value l i)"
        using inv i shown_invalid [of base "cp_taken cp" i] by (simp add: window_inv_def)
      with \<open>copied l i\<close> show ?thesis by (intro copied_Suc) simp_all
    qed
    with inv pc show ?thesis by (cases cycle) (auto simp: window_inv_def cp' l')
  next
    case False
    with pc i st load have "cp' = cp\<lparr>cp_window := WinPublish cycle i (window_of (latest_value l i))\<rparr>" "l' = l"
      by (auto split: if_splits)
    with inv pc i False seen show ?thesis
      by (cases cycle) (auto simp: window_inv_def row_seen_def)
  qed
qed

lemma window_inv_publish:
  assumes inv: "window_inv base cp l" and pc: "cp_window cp = WinPublish cycle i w"
  shows "window_inv base (cp\<lparr>cp_window := WinScan cycle (i + 1)\<rparr>) (window_publish i w l)"
proof -
  from inv pc have "window_wf (l_window l)" and i: "i < 64" and valid: "s_valid (latest_value l i) \<noteq> 0"
    and seen: "row_seen base (cp_taken cp) i w"
    by (auto simp: window_inv_def)
  note pub = window_publish_wf [OF this(1,2)]
  have "copied (window_publish i w l) (Suc i)" if "copied l i" "w = window_of (latest_value l i)"
    using that i by (auto simp: copied_def pub(2) less_Suc_eq)
  with inv pc valid seen pub(1) show ?thesis
    by (cases cycle) (auto simp: window_inv_def pub(2))
qed

lemma window_step_inv:
  assumes fast: "fast_inv base cp l" and inv: "window_inv base cp l"
    and st: "window_step getenv now busy (cp, l) = Some (cp', l')" and busy: "busy \<longrightarrow> latest_busy cp"
  shows "window_inv base cp' l'"
proof (cases "cp_window cp")
  case (WinScan cycle i)
  show ?thesis
  proof (cases "i < 64")
    case True
    then show ?thesis using window_inv_scan [OF fast inv WinScan _ st busy] by simp
  next
    case False
    with WinScan inv st show ?thesis
      by (cases cycle) (auto simp: window_inv_def copied_def stopped_def split: option.splits prod.splits)
  qed
next
  case (WinPublish cycle i w)
  with st window_inv_publish [OF inv WinPublish] show ?thesis by simp
next
  case WinTest
  with st fast inv show ?thesis
    by (cases "c_fast_done (l_control l) = 0 \<and> \<not> stopped (l_control l)")
      (auto simp: window_inv_def fast_inv_def copied_def)
qed (use inv st in \<open>auto simp: window_inv_def stopped_def copied_def\<close>)

subsection \<open>The 100 ms thread keeps its invariant\<close>

lemma snapshot_inv_cong:
  assumes "snapshot_inv base cp l" and "cp_snapshot cp' = cp_snapshot cp" and "cp_window cp' = cp_window cp"
    and "cp_snaps cp' = cp_snaps cp" and "cp_exit cp' = cp_exit cp" and "cp_fast cp = FastDone \<longrightarrow> cp_fast cp' = FastDone"
    and "\<And>i w. row_seen base (cp_taken cp) i w \<Longrightarrow> row_seen base (cp_taken cp') i w"
    and "l_window l' = l_window l" and "stopped (l_control l) \<longrightarrow> stopped (l_control l')"
  shows "snapshot_inv base cp' l'"
proof -
  have "snapshot_rows base cp' l' snap n" if "snapshot_rows base cp l snap n" for snap n
    using that assms(3,7-9) value_cong(2) [OF assms(8)] by (auto simp: snapshot_rows_def)
  with assms(1-6) show ?thesis by (auto simp: snapshot_inv_def elim: list.pred_mono_strong)
qed

lemma snapshot_inv_window:
  assumes inv: "snapshot_inv base cp l" and st: "window_step getenv now busy (cp, l) = Some (cp', l')"
  shows "snapshot_inv base cp' l'"
proof -
  note frame = window_step_frame [OF st]
  have stop: "stopped (l_control l') = stopped (l_control l)" using frame stopped_cong by blast
  have "snapshot_rows base cp' l' snap n" if "snapshot_rows base cp l snap n" for snap n
    using that frame stop by (auto simp: snapshot_rows_def)
  with inv frame show ?thesis by (auto simp: snapshot_inv_def elim: list.pred_mono_strong)
qed

lemma snapshot_rows_start:
  assumes "\<not> stopped (l_control l) \<longrightarrow> cp_window cp = WinDone"
  shows "snapshot_rows base cp l (Snapshot_default\<lparr>sn_generation := g\<rparr>) 0"
  using assms by (simp add: snapshot_rows_def Snapshot_default_def row_seen_default)

lemma snapshot_rows_load:
  assumes win: "window_inv base cp l" and rows: "snapshot_rows base cp l snap n" and n: "n < 64"
    and busy: "busy \<longrightarrow> window_busy cp"
    and load: "(if busy then (False, WindowState_default) else window_load n l WindowState_default) = (ok, row)"
  shows "snapshot_rows base cp l (if ok then snap\<lparr>sn_rows := (sn_rows snap)[n := row]\<rparr> else snap) (n + 1)"
proof (cases busy)
  case True
  then have "cp_window cp \<noteq> WinDone" using busy by auto
  with True rows load show ?thesis by (auto simp: snapshot_rows_def)
next
  case False
  with win n load have "ok" "row = window_value l n" by (auto simp: window_inv_def window_load_wf)
  with win rows n show ?thesis
    by (auto simp: snapshot_rows_def window_inv_def nth_list_update less_Suc_eq)
qed

lemma snapshot_step_inv:
  assumes win: "window_inv base cp l" and inv: "snapshot_inv base cp l"
    and st: "snapshot_step getenv now busy (cp, l) = Some (cp', l')" and busy: "busy \<longrightarrow> window_busy cp"
  shows "snapshot_inv base cp' l'"
proof -
  note frame = snapshot_step_frame [OF st]
  have stop: "stopped (l_control l') = stopped (l_control l)" using frame stopped_cong by blast
  have rows: "snapshot_rows base cp' l' snap n = snapshot_rows base cp l snap n" for snap n
    using frame stop value_cong(2) [of l' l] by (simp add: snapshot_rows_def)
  show ?thesis
  proof (cases "cp_snapshot cp")
    case (SnapRow snap n)
    show ?thesis
    proof (cases "n < 64")
      case True
      obtain ok row where load:
        "(if busy then (False, WindowState_default) else window_load n l WindowState_default) = (ok, row)"
        by (metis surj_pair)
      have "snapshot_rows base cp l snap n" using inv SnapRow by (simp add: snapshot_inv_def)
      from snapshot_rows_load [OF win this True busy load] show ?thesis
        using inv SnapRow True st load rows by (auto simp: snapshot_inv_def)
    next
      case False
      with inv SnapRow st rows show ?thesis by (auto simp: snapshot_inv_def snapshot_rows_def)
    qed
  next
    case SnapTest
    with inv st win rows show ?thesis
      by (cases "c_window_done (l_control l) = 0 \<and> \<not> stopped (l_control l)")
        (auto simp: snapshot_inv_def window_inv_def snapshot_rows_start [of _ _ _ "sn_generation Snapshot_default", simplified])
  next
    case SnapGeneration
    with inv st rows snapshot_rows_start [of l cp base "c_generation (l_control l)"] show ?thesis
      by (auto simp: snapshot_inv_def snapshot_rows_def)
  qed (use inv st rows in \<open>auto simp: snapshot_inv_def split: option.splits prod.splits\<close>)
qed

subsection \<open>All of compute\<close>

text \<open>
  The rest of the program, as compute sees it: ring, snapshots and heartbeats
  of the other roles may change, the tables and stage flags of compute do not,
  and a shutdown is not taken back.
\<close>

definition compute_env :: "compute_local \<times> Layout \<Rightarrow> compute_local \<times> Layout \<Rightarrow> bool" where
  "compute_env s t \<longleftrightarrow> fst t = fst s \<and> l_latest (snd t) = l_latest (snd s) \<and> l_window (snd t) = l_window (snd s) \<and>
     c_fast_done (l_control (snd t)) = c_fast_done (l_control (snd s)) \<and>
     c_window_done (l_control (snd t)) = c_window_done (l_control (snd s)) \<and>
     (c_fault (l_control (snd s)) \<noteq> 0 \<longrightarrow> c_fault (l_control (snd t)) \<noteq> 0) \<and>
     (stopped (l_control (snd s)) \<longrightarrow> stopped (l_control (snd t)))"

definition compute_run_step :: "(string \<Rightarrow> string option) \<Rightarrow> compute_local \<times> Layout \<Rightarrow> compute_local \<times> Layout \<Rightarrow> bool" where
  "compute_run_step getenv s t \<longleftrightarrow> compute_step getenv s t \<or> compute_env s t"

text \<open>A region whose flags are clear and whose rows are \<open>base\<close> in both tables.\<close>

definition compute_fresh :: "(nat \<Rightarrow> SourceState) \<Rightarrow> Layout \<Rightarrow> bool" where
  "compute_fresh base l \<longleftrightarrow> latest_wf (l_latest l) \<and> window_wf (l_window l) \<and>
     base_ok base \<and> (\<forall>i < 64. latest_value l i = base i \<and> window_value l i = window_of (base i)) \<and>
     c_fast_done (l_control l) = 0 \<and> c_window_done (l_control l) = 0"

lemma compute_fresh_init: "compute_fresh no_rows Layout_init"
  using layout_wf_init source_cell.words_zero window_cell.words_zero
  by (simp add: compute_fresh_def layout_wf_def latest_value_def window_value_def)
    (simp add: Layout_init_def Seqlock_init_def ShmControl_default_def)

lemma compute_inv_start: "compute_fresh base l \<Longrightarrow> compute_inv base (compute_start, l)"
  using coupled_start state_seen_now [of base "[]"]
  by (auto simp: compute_inv_def fast_inv_def window_inv_def snapshot_inv_def compute_start_def compute_fresh_def
      latest_view_None row_seen_def base_ok_def)

lemma watchdog_step_frame:
  assumes "watchdog_step now (cp, l) = Some (cp', l')"
  shows "cp' = cp\<lparr>cp_watchdog := cp_watchdog cp'\<rparr>" and "compute_env (cp, l) (cp, l')"
  using assms by (auto simp: compute_env_def stopped_def split: watchdog_pc.splits option.splits if_splits)

lemma compute_main_frame:
  assumes "compute_main_step (cp, l) = Some (cp', l')"
  shows "cp' = cp\<lparr>cp_exit := cp_exit cp'\<rparr>" and "compute_env (cp, l) (cp, l')"
    and "cp_fast cp = FastDone \<and> cp_window cp = WinDone \<and> cp_snapshot cp = SnapDone"
  using assms by (auto simp: compute_env_def stopped_def split: if_splits)

lemma compute_env_inv:
  assumes "compute_inv base (cp, l)" and "compute_env (cp, l) (cp, l')"
  shows "compute_inv base (cp, l')"
  using assms by (auto simp: compute_inv_def compute_env_def elim: fast_inv_cong window_inv_cong snapshot_inv_cong)

lemma compute_inv_pc:
  assumes "compute_inv base (cp, l)"
  shows "compute_inv base (cp\<lparr>cp_watchdog := pc\<rparr>, l)"
    and "cp_fast cp = FastDone \<and> cp_window cp = WinDone \<and> cp_snapshot cp = SnapDone \<Longrightarrow>
      compute_inv base (cp\<lparr>cp_exit := code\<rparr>, l)"
  using assms
  by (auto simp: compute_inv_def fast_inv_def window_inv_def snapshot_inv_def snapshot_rows_def)

lemma compute_step_inv:
  assumes inv: "compute_inv base (cp, l)" and "compute_step getenv (cp, l) (cp', l')"
  shows "compute_inv base (cp', l')"
  using assms(2)
proof cases
  case (cs_fast now)
  note frame = fast_step_frame [OF cs_fast]
  have stop: "stopped (l_control l') = stopped (l_control l)" using frame stopped_cong by blast
  have "snapshot_inv base cp' l'"
  proof (rule snapshot_inv_cong)
    show "snapshot_inv base cp l" using inv by (simp add: compute_inv_def)
    show "row_seen base (cp_taken cp') i w" if "row_seen base (cp_taken cp) i w" for i w
      using that by (rule fast_step_seen [OF cs_fast])
  qed (use frame stop in simp_all)
  with inv fast_step_inv [OF _ cs_fast] window_inv_fast [OF _ _ cs_fast] show ?thesis
    by (simp add: compute_inv_def)
next
  case (cs_window now busy)
  then have st: "window_step getenv now busy (cp, l) = Some (cp', l')" and busy: "busy \<longrightarrow> latest_busy cp" by simp_all
  have "fast_inv base cp l" using inv by (simp add: compute_inv_def)
  then have "fast_inv base cp' l'"
    by (rule fast_inv_cong) (simp_all add: window_step_frame [OF st])
  with inv window_step_inv [OF _ _ st busy] snapshot_inv_window [OF _ st] show ?thesis
    by (simp add: compute_inv_def)
next
  case (cs_snapshot now busy)
  then have st: "snapshot_step getenv now busy (cp, l) = Some (cp', l')" and busy: "busy \<longrightarrow> window_busy cp" by simp_all
  note frame = snapshot_step_frame [OF st]
  have stop: "stopped (l_control l') = stopped (l_control l)" using frame stopped_cong by blast
  have "fast_inv base cp l" "window_inv base cp l" using inv by (simp_all add: compute_inv_def)
  then have "fast_inv base cp' l'" "window_inv base cp' l'"
    using frame stop by (auto elim: fast_inv_cong window_inv_cong)
  with inv snapshot_step_inv [OF _ _ st busy] show ?thesis by (simp add: compute_inv_def)
next
  case (cs_watchdog now)
  from compute_env_inv [OF inv watchdog_step_frame(2) [OF cs_watchdog]] show ?thesis
    by (subst watchdog_step_frame(1) [OF cs_watchdog]) (rule compute_inv_pc)
next
  case cs_main
  from compute_env_inv [OF inv compute_main_frame(2) [OF cs_main]] compute_main_frame(3) [OF cs_main] show ?thesis
    by (subst compute_main_frame(1) [OF cs_main]) (rule compute_inv_pc)
qed

lemma compute_run_inv:
  assumes "compute_inv base s" and "compute_run_step getenv s t"
  shows "compute_inv base t"
proof -
  obtain cp l cp' l' where st: "s = (cp, l)" "t = (cp', l')" by fastforce
  from assms(2) consider "compute_step getenv (cp, l) (cp', l')" | "compute_env (cp, l) (cp, l')" "cp' = cp"
    unfolding st compute_run_step_def by (auto simp: compute_env_def)
  then show ?thesis
    by cases (use assms(1) st compute_step_inv compute_env_inv in blast)+
qed

interpretation compute_machine: step_machine "\<lambda>s. \<exists>l. s = (compute_start, l) \<and> compute_fresh base l"
  "compute_run_step getenv" "compute_inv base" for base getenv
  by unfold_locales (auto intro: compute_inv_start compute_run_inv)

subsection \<open>The 5 ms thread makes progress\<close>

text \<open>
  The steps the 5 ms thread still has to take once ingest is done, with \<open>k\<close>
  records left in the ring: four per record, and one more cycle after a cycle
  that drained something.
\<close>

fun fast_rank :: "fast_pc \<Rightarrow> nat \<Rightarrow> nat" where
  "fast_rank FastDone k = 0"
| "fast_rank FastStore k = 1"
| "fast_rank (FastCheck started drained) k = (if \<not> drained then 2 else if k = 0 then 7 else 12 + 4 * k)"
| "fast_rank (FastPop started drained) k = (if \<not> drained \<and> k = 0 then 3 else 8 + 4 * k)"
| "fast_rank FastStart k = (if k = 0 then 4 else 9 + 4 * k)"
| "fast_rank FastBeat k = (if k = 0 then 5 else 10 + 4 * k)"
| "fast_rank FastTest k = (if k = 0 then 6 else 11 + 4 * k)"
| "fast_rank (FastHandle started rec) k = 11 + 4 * k"
| "fast_rank (FastPublish started sid st) k = 10 + 4 * k"
| "fast_rank (FastBeatCompute started n) k = 9 + 4 * k"

definition fast_left :: "compute_local \<times> Layout \<Rightarrow> nat" where
  "fast_left s = fast_rank (cp_fast (fst s)) (length (ring_items kRingCapacity (l_ring (snd s))))"

definition ingest_finished :: "Layout \<Rightarrow> bool" where
  "ingest_finished l \<longleftrightarrow> ring_wf kRingCapacity (l_ring l) \<and> c_ingest_done (l_control l) \<noteq> 0"

lemma finish_cycle_total: "\<exists>r. finish_cycle getenv n w p = Some r"
  by (rule budget_cases [where w = w and p = p]) (auto simp: finish_cycle_def Let_def)

lemma fast_record_total: "\<exists>r. fast_record f p rec = Some r"
proof -
  have "integrate f rec kFastPeriodNs \<noteq> None" by (simp add: integrate_cases)
  then obtain st f' where "integrate f rec kFastPeriodNs = Some (st, f')" by auto
  then show ?thesis by (cases "st = IntegrateOk") (simp_all add: fast_record_def Let_def)
qed

lemma fast_step_progress: "cp_fast cp \<noteq> FastDone \<Longrightarrow> \<exists>t. fast_step getenv now (cp, l) = Some t"
proof (cases "cp_fast cp")
  case (FastHandle started rec)
  obtain f p r where "fast_record (cp_fleet cp) (cp_publishes cp) rec = Some (f, p, r)"
    using fast_record_total [of "cp_fleet cp" "cp_publishes cp" rec] by auto
  with FastHandle show ?thesis by (cases r) auto
next
  case (FastCheck started drained)
  obtain n a where "finish_cycle getenv (c_overrun_fast (l_control l)) (now - started) kFastPeriodNs = Some (n, a)"
    using finish_cycle_total [of getenv _ "now - started" kFastPeriodNs] by fastforce
  with FastCheck show ?thesis by simp
qed (simp_all split: prod.splits bool.splits)

lemma pop_cases:
  assumes "ring_wf kRingCapacity r"
  obtains (empty) "SpscRing_try_pop kRingCapacity r Record_default = (False, Record_default, r)" "ring_items kRingCapacity r = []"
  | (taken) x r' where "SpscRing_try_pop kRingCapacity r Record_default = (True, x, r')"
      "ring_wf kRingCapacity r'" "ring_items kRingCapacity r = x # ring_items kRingCapacity r'"
proof (cases "ring_items kRingCapacity r")
  case Nil
  then have "ring_take kRingCapacity Record_default r = None"
    using assms by (simp add: record_ring.pop_empty)
  then show ?thesis
    using empty Nil by (auto simp: ring_take_def SpscRing_try_pop_def Let_def split: if_splits)
next
  case (Cons x xs)
  then obtain r' where "ring_take kRingCapacity Record_default r = Some (x, r')" "ring_wf kRingCapacity r'" "ring_items kRingCapacity r' = xs"
    using record_ring.pop_first [OF assms Cons] by blast
  with Cons taken show ?thesis by (auto simp: ring_take_def split: prod.splits if_splits)
qed

lemma fast_left_step:
  assumes fin: "ingest_finished l" and st: "fast_step getenv now (cp, l) = Some (cp', l')"
  shows "fast_left (cp', l') < fast_left (cp, l) \<and> ingest_finished l'"
proof (cases "cp_fast cp")
  case (FastPop started drained)
  have wf: "ring_wf kRingCapacity (l_ring l)" using fin by (simp add: ingest_finished_def)
  from wf show ?thesis
    by (cases rule: pop_cases) (use FastPop fin st in \<open>auto simp: fast_left_def ingest_finished_def simp del: length_ring_items\<close>)
next
  case (FastHandle started rec)
  with fin st show ?thesis
    by (auto simp: fast_left_def ingest_finished_def split: option.splits prod.splits)
next
  case (FastCheck started drained)
  with fin st show ?thesis
    by (auto simp: fast_left_def ingest_finished_def split: option.splits prod.splits if_splits)
qed (use fin st in \<open>auto simp: fast_left_def ingest_finished_def\<close>)

text \<open>Steps of the rest of the program that neither refill the ring nor touch the 5 ms thread.\<close>

definition fast_other :: "compute_local \<times> Layout \<Rightarrow> compute_local \<times> Layout \<Rightarrow> bool" where
  "fast_other s t \<longleftrightarrow> cp_fast (fst t) = cp_fast (fst s) \<and> l_ring (snd t) = l_ring (snd s) \<and>
     c_ingest_done (l_control (snd t)) = c_ingest_done (l_control (snd s))"

definition fast_own :: "(string \<Rightarrow> string option) \<Rightarrow> compute_local \<times> Layout \<Rightarrow> compute_local \<times> Layout \<Rightarrow> bool" where
  "fast_own getenv s t \<longleftrightarrow> ingest_finished (snd s) \<and> (\<exists>now. fast_step getenv now s = Some t)"

interpretation fast_thread: ranked_steps "fast_own getenv" fast_other fast_left for getenv
proof unfold_locales
  show "fast_left t < fast_left s" if "fast_own getenv s t" for s t
    using that fast_left_step by (cases s; cases t) (auto simp: fast_own_def)
  show "fast_left t \<le> fast_left s" if "fast_other s t" for s t
    using that by (simp add: fast_other_def fast_left_def)
qed

lemma fast_rank_bound: "fast_rank pc k \<le> 12 + 4 * k"
  by (cases pc) auto

end
