(* ===== verification/Compute_Snapshot.thy ===== *)
theory Compute_Snapshot
  imports Compute_Threads
begin

text \<open>
  What the compute process promises the rest of the program, stated over whole
  runs of its four threads, with one concrete run as the witness.
\<close>

section \<open>A run\<close>

text \<open>
  Two samples of source 1 are in the ring and ingest is done. The 5 ms thread
  handles both, the 25 ms thread makes its last pass, the 100 ms thread
  publishes the snapshot, the watchdog stops and compute exits.
\<close>

definition no_pace :: "string \<Rightarrow> string option" where
  "no_pace name = (if name = ''RATEHUB_PACE'' then Some ''0'' else None)"

definition demo_ring :: "Record SpscRing" where
  "demo_ring = snd (SpscRing_try_push kRingCapacity (test_sample\<lparr>r_sequence := 2\<rparr>)
     (snd (SpscRing_try_push kRingCapacity test_sample (SpscRing_init kRingCapacity Record_default))))"

definition demo_layout :: Layout where
  "demo_layout = Layout_init\<lparr>l_control := ShmControl_default\<lparr>c_ingest_done := 1, c_heartbeat_ingest := 2\<rparr>,
     l_ring := demo_ring\<rparr>"

definition demo_schedule :: "(compute_local \<times> Layout \<Rightarrow> (compute_local \<times> Layout) option) list" where
  "demo_schedule = replicate 19 (fast_step no_pace 1) @ replicate 69 (window_step no_pace 1 False) @
     replicate 70 (snapshot_step no_pace 1 False) @ [watchdog_step 1, compute_main_step]"

definition demo_snapshot :: Snapshot where
  "demo_snapshot = \<lparr>sn_generation = 1, sn_rows = (replicate 64 WindowState_default)
     [1 := \<lparr>w_pos_x = 1020, w_pos_y = 0, w_sequence = 2, w_publishes = 2\<rparr>]\<rparr>"

definition demo_result :: "(compute_local \<times> Layout) option" where
  "demo_result = run_threads demo_schedule (compute_start, demo_layout)"

lemma demo_result_eval:
  "map_option (\<lambda>(cp, l). (cp_exit cp, cp_snaps cp, l_snapshots l, c_compute_done (l_control l), c_shutdown (l_control l),
       ring_items kRingCapacity (l_ring l)))
     demo_result =
   Some (Some 0, [demo_snapshot], TripleBuffer_publish (TripleBuffer_write_slot demo_snapshot (TripleBuffer_init Snapshot_default)),
     1, 0, [])"
  by code_simp

lemma demo_result_cases:
  obtains cp l where "demo_result = Some (cp, l)" "cp_exit cp = Some 0" "cp_snaps cp = [demo_snapshot]"
    "l_snapshots l = TripleBuffer_publish (TripleBuffer_write_slot demo_snapshot (TripleBuffer_init Snapshot_default))"
    "c_compute_done (l_control l) = 1" "c_shutdown (l_control l) = 0" "ring_items kRingCapacity (l_ring l) = []"
  using demo_result_eval by (cases demo_result) (auto simp: prod_eq_iff)

lemma demo_schedule_steps:
  "f \<in> set demo_schedule \<Longrightarrow> f s = Some t \<Longrightarrow> compute_step no_pace s t"
  unfolding demo_schedule_def set_append Un_iff set_replicate_conv_if list.set
  by (auto simp only: insert_iff empty_iff if_True if_False numeral_eq_Suc nat.distinct simp_thms
      intro: cs_fast cs_window cs_snapshot cs_watchdog cs_main split: if_splits)

lemma demo_fresh: "compute_fresh no_rows demo_layout"
  using compute_fresh_init
  by (simp add: compute_fresh_def demo_layout_def latest_value_def window_value_def ShmControl_default_def)

lemma demo_run: "demo_result = Some t \<Longrightarrow> (compute_run_step no_pace)\<^sup>*\<^sup>* (compute_start, demo_layout) t"
  unfolding demo_result_def
  by (rule run_threads_run [rotated]) (auto simp: compute_run_step_def intro: demo_schedule_steps)

lemma compute_reachable_inv:
  assumes "compute_fresh base l0" and "(compute_run_step getenv)\<^sup>*\<^sup>* (compute_start, l0) (cp, l)"
  shows "compute_inv base (cp, l)"
  using assms by (intro compute_machine.inv_reachable [of "(compute_start, l0)"]) auto

lemma published_rows:
  assumes inv: "compute_inv base (cp, l)" and snap: "snap \<in> set (cp_snaps cp)" and run: "\<not> stopped (l_control l)"
    and i: "i < 64"
  shows "sn_rows snap ! i = window_of (shown base (cp_taken cp) i)"
proof -
  have rows: "snapshot_rows base cp l snap 64" using inv snap by (auto simp: compute_inv_def snapshot_inv_def list_all_iff)
  with run i have "cp_window cp = WinDone" "sn_rows snap ! i = window_value l i" by (auto simp: snapshot_rows_def)
  moreover from inv this(1) run have fd: "cp_fast cp = FastDone" and "copied l 64"
    by (auto simp: compute_inv_def window_inv_def)
  moreover from inv fd i have "latest_value l i = shown base (cp_taken cp) i"
    by (simp add: compute_inv_def fast_inv_def latest_view_None)
  ultimately show ?thesis using i by (simp add: copied_def)
qed

lemma row_seen_fresh:
  assumes "row_seen no_rows taken i w"
  shows "\<exists>rs later. taken = rs @ later \<and> w = window_of (track rs i)"
  using assms unfolding row_seen_def
proof
  assume "w = WindowState_default"
  then have "taken = [] @ taken \<and> w = window_of (track [] i)" by simp
  then show ?thesis by blast
qed (simp add: state_seen_def, blast)

lemma published_once:
  assumes "compute_inv base (cp, l)" and "cp_exit cp \<noteq> None"
  shows "\<exists>snap. cp_snaps cp = [snap]"
proof -
  from assms have "cp_snaps cp \<noteq> []" and "length (cp_snaps cp) \<le> 1"
    by (auto simp: compute_inv_def snapshot_inv_def)
  then show ?thesis by (cases "cp_snaps cp") auto
qed

text \<open>The fault flag is never cleared by a compute process, and decides its exit code.\<close>

lemma compute_step_fault:
  assumes "compute_run_step getenv (cp, l) (cp', l')" and "c_fault (l_control l) \<noteq> 0"
    and "cp_exit cp \<in> {None, Some 3}"
  shows "c_fault (l_control l') \<noteq> 0 \<and> cp_exit cp' \<in> {None, Some 3}"
  using assms(1) unfolding compute_run_step_def
proof
  assume "compute_step getenv (cp, l) (cp', l')"
  then show ?thesis
  proof cases
    case (cs_fast now)
    then have "c_fault (l_control l') = c_fault (l_control l)"
      by (auto split: fast_pc.splits if_splits option.splits prod.splits bool.splits)
    with fast_step_frame [OF cs_fast] assms(2,3) show ?thesis by simp
  next
    case (cs_window now busy)
    then have "c_fault (l_control l') = c_fault (l_control l)"
      by (auto split: window_pc.splits if_splits option.splits prod.splits)
    with window_step_frame [OF cs_window(1)] assms(2,3) show ?thesis by simp
  next
    case (cs_snapshot now busy)
    then have "c_fault (l_control l') = c_fault (l_control l)"
      by (auto split: snapshot_pc.splits if_splits option.splits prod.splits)
    with snapshot_step_frame [OF cs_snapshot(1)] assms(2,3) show ?thesis by simp
  next
    case (cs_watchdog now)
    with assms(2,3) show ?thesis by (auto split: watchdog_pc.splits if_splits option.splits)
  next
    case cs_main
    with assms(2,3) show ?thesis by (auto split: if_splits)
  qed
qed (use assms(2,3) in \<open>auto simp: compute_env_def\<close>)

section \<open>Properties\<close>

text \<open>
  (C2) The published snapshot is complete. On a fresh region, under every interleaving
  of the four threads and whatever the other processes do, as long as no
  shutdown is seen: a published snapshot holds, for each of the 64 sources,
  exactly the row that all the records taken from the ring give it; and compute
  exits only after publishing exactly one snapshot.
\<close>

theorem compute_snapshot_complete:
  assumes "compute_fresh no_rows l0" and "(compute_run_step getenv)\<^sup>*\<^sup>* (compute_start, l0) (cp, l)"
    and "\<not> stopped (l_control l)"
  shows "(snap \<in> set (cp_snaps cp) \<longrightarrow> sn_rows snap = map (\<lambda>i. window_of (track (cp_taken cp) i)) [0..<64]) \<and>
    (cp_exit cp \<noteq> None \<longrightarrow> length (cp_snaps cp) = 1)"
proof -
  note inv = compute_reachable_inv [OF assms(1,2)]
  have "sn_rows snap = map (\<lambda>i. window_of (track (cp_taken cp) i)) [0..<64]" if "snap \<in> set (cp_snaps cp)"
  proof (rule nth_equalityI)
    show len: "length (sn_rows snap) = length (map (\<lambda>i. window_of (track (cp_taken cp) i)) [0..<64])"
      using inv that by (auto simp: compute_inv_def snapshot_inv_def list_all_iff snapshot_rows_def)
    show "sn_rows snap ! i = map (\<lambda>i. window_of (track (cp_taken cp) i)) [0..<64] ! i" if "i < length (sn_rows snap)" for i
      using published_rows [OF inv \<open>snap \<in> _\<close> assms(3), of i] that len by simp
  qed
  with published_once [OF inv] show ?thesis by auto
qed

theorem compute_snapshot_complete_witness:
  "\<exists>cp l. demo_result = Some (cp, l) \<and> cp_exit cp = Some 0 \<and>
     map (\<lambda>i. window_of (track (cp_taken cp) i)) [0..<64] = sn_rows demo_snapshot"
proof -
  obtain cp l where r: "demo_result = Some (cp, l)" and "cp_exit cp = Some 0" "cp_snaps cp = [demo_snapshot]"
    and "c_shutdown (l_control l) = 0"
    by (rule demo_result_cases)
  with compute_snapshot_complete [OF demo_fresh demo_run [OF r], of demo_snapshot] show ?thesis
    by (intro exI [of _ cp] exI [of _ l]) (simp add: stopped_def)
qed

text \<open>
  Also under a shutdown, no row is invented or torn: every row of every published
  snapshot is the row its source had after some prefix of the records taken
  from the ring.
\<close>

theorem compute_snapshot_seen:
  assumes "compute_fresh no_rows l0" and "(compute_run_step getenv)\<^sup>*\<^sup>* (compute_start, l0) (cp, l)"
    and "snap \<in> set (cp_snaps cp)" and "i < 64"
  shows "length (sn_rows snap) = 64 \<and>
    (\<exists>rs later. cp_taken cp = rs @ later \<and> sn_rows snap ! i = window_of (track rs i))"
proof -
  from compute_reachable_inv [OF assms(1,2)] assms(3) have "snapshot_rows no_rows cp l snap 64"
    by (auto simp: compute_inv_def snapshot_inv_def list_all_iff)
  then have "length (sn_rows snap) = 64" and "row_seen no_rows (cp_taken cp) i (sn_rows snap ! i)"
    using assms(4) by (simp_all add: snapshot_rows_def)
  with row_seen_fresh show ?thesis by blast
qed

theorem compute_snapshot_seen_witness:
  "\<exists>cp l rs later. demo_result = Some (cp, l) \<and> cp_taken cp = rs @ later \<and>
     sn_rows demo_snapshot ! 1 = window_of (track rs 1)"
proof -
  obtain cp l where r: "demo_result = Some (cp, l)" and "cp_snaps cp = [demo_snapshot]"
    by (rule demo_result_cases)
  with compute_snapshot_seen [OF demo_fresh demo_run [OF r], of demo_snapshot 1] show ?thesis by auto
qed

text \<open>
  (C32) A fault outlives a restart: a compute process that starts on a region whose
  \<open>fault\<close> flag is set (which the supervisor does not clear between attempts) can
  only exit with status 3, whatever its threads do.
\<close>

theorem compute_fault_sticky:
  assumes "(compute_run_step getenv)\<^sup>*\<^sup>* (compute_start, l0) (cp, l)" and "c_fault (l_control l0) \<noteq> 0"
  shows "c_fault (l_control l) \<noteq> 0 \<and> cp_exit cp \<in> {None, Some 3}"
proof -
  have "c_fault (l_control (snd t)) \<noteq> 0 \<and> cp_exit (fst t) \<in> {None, Some 3}"
    if "(compute_run_step getenv)\<^sup>*\<^sup>* (compute_start, l0) t" for t
    using that
  proof (induction rule: rtranclp_induct)
    case base
    with assms(2) show ?case by (simp add: compute_start_def)
  next
    case (step s t)
    then show ?case using compute_step_fault [of getenv "fst s" "snd s" "fst t" "snd t"] by simp
  qed
  from this [OF assms(1)] show ?thesis by simp
qed

definition faulty_layout :: Layout where
  "faulty_layout = demo_layout\<lparr>l_control := (l_control demo_layout)\<lparr>c_fault := 1\<rparr>\<rparr>"

theorem compute_fault_sticky_witness:
  "c_fault (l_control faulty_layout) = 1 \<and>
   (\<forall>cp l. if (compute_run_step no_pace)\<^sup>*\<^sup>* (compute_start, faulty_layout) (cp, l) \<and> cp_exit cp \<noteq> None
           then cp_exit cp = Some 3 else True)"
proof -
  have "c_fault (l_control faulty_layout) = 1" by (simp add: faulty_layout_def)
  then show ?thesis using compute_fault_sticky [of no_pace faulty_layout] by (fastforce split: if_splits)
qed

text \<open>
  (C24) The 5 ms thread finishes. Once ingest is done and the ring is not refilled, it
  takes at most four steps per record left and twelve more, however the other
  threads interleave, and until it has stored \<open>fast_done\<close> it can always take a step.
\<close>

theorem fast_thread_finishes:
  assumes "interleaved (fast_own getenv) fast_other n (cp, l) (cp', l')"
  shows "n \<le> 12 + 4 * length (ring_items kRingCapacity (l_ring l)) \<and>
    (cp_fast cp' = FastDone \<or> (\<exists>t. fast_step getenv now (cp', l') = Some t))"
  using fast_thread.own_steps_bounded [OF assms] fast_rank_bound fast_step_progress
  unfolding fast_left_def fst_conv snd_conv by (meson le_trans)

theorem fast_thread_finishes_witness:
  "\<exists>t. interleaved (fast_own no_pace) fast_other 1 (compute_start, demo_layout) (compute_start\<lparr>cp_fast := FastBeat\<rparr>, demo_layout) \<and>
     fast_step no_pace 7 (compute_start\<lparr>cp_fast := FastBeat\<rparr>, demo_layout) = Some t"
proof -
  have "ring_wf kRingCapacity demo_ring"
    using layout_wf_init record_ring.push_room
    by (simp add: demo_ring_def ring_wf_def SpscRing_try_push_def SpscRing_init_def kRingCapacity_def kMask_def
        valid_capacity_def word_le_nat_alt word_less_nat_alt)
  then have "ingest_finished demo_layout" by (simp add: ingest_finished_def demo_layout_def)
  then have "fast_own no_pace (compute_start, demo_layout) (compute_start\<lparr>cp_fast := FastBeat\<rparr>, demo_layout)"
    by (simp add: fast_own_def compute_start_def demo_layout_def stopped_def ShmControl_default_def)
  then have run: "interleaved (fast_own no_pace) fast_other 1 (compute_start, demo_layout)
      (compute_start\<lparr>cp_fast := FastBeat\<rparr>, demo_layout)"
    using interleaved.mine [OF interleaved.none [of "fast_own no_pace" fast_other "(compute_start, demo_layout)"]] by simp
  from fast_thread_finishes [OF run, of 7] run show ?thesis by auto
qed

end
