(* ===== verification/Decimal.thy ===== *)
theory Decimal
  imports Types
begin

text \<open>
  Decimal text, as \<^verbatim>\<open>operator<<\<close> and the \<^verbatim>\<open>%u\<close>, \<^verbatim>\<open>%d\<close> and \<^verbatim>\<open>%llu\<close> conversions print it: no
  padding, no leading zero, a minus sign for negative numbers. Readers for the
  same text, the round trips, and the length bounds that the fixed-size
  buffers of the program rely on.
\<close>

section \<open>Printing\<close>

definition digit :: "nat \<Rightarrow> char" where
  "digit d = char_of (48 + d)"

fun show_nat :: "nat \<Rightarrow> string" where
  "show_nat n = (if n < 10 then [digit n] else show_nat (n div 10) @ [digit (n mod 10)])"

declare show_nat.simps [simp del]

definition show_int :: "int \<Rightarrow> string" where
  "show_int z = (if z < 0 then CHR ''-'' # show_nat (nat (- z)) else show_nat (nat z))"

definition show_u32 :: "u32 \<Rightarrow> string" where
  "show_u32 w = show_nat (unat w)"

definition show_u64 :: "u64 \<Rightarrow> string" where
  "show_u64 w = show_nat (unat w)"

definition show_i32 :: "i32 \<Rightarrow> string" where
  "show_i32 w = show_int (sint w)"

section \<open>Reading\<close>

definition is_digit :: "char \<Rightarrow> bool" where
  "is_digit c \<longleftrightarrow> 48 \<le> (of_char c :: nat) \<and> (of_char c :: nat) \<le> 57"

definition digits_value :: "string \<Rightarrow> nat" where
  "digits_value s = foldl (\<lambda>a c. 10 * a + (of_char c - 48)) 0 s"

text \<open>Split off a number; \<open>None\<close> when there is no digit.\<close>

definition read_nat :: "string \<Rightarrow> (nat \<times> string) option" where
  "read_nat s =
     (let ds = takeWhile is_digit s in
      if ds = [] then None else Some (digits_value ds, dropWhile is_digit s))"

fun read_int :: "string \<Rightarrow> (int \<times> string) option" where
  "read_int [] = None"
| "read_int (c # s) =
     (if c = CHR ''-'' then map_option (\<lambda>(n, rest). (- int n, rest)) (read_nat s)
      else map_option (\<lambda>(n, rest). (int n, rest)) (read_nat (c # s)))"

section \<open>Facts\<close>

lemma of_char_digit [simp]: "d < 10 \<Longrightarrow> (of_char (digit d) :: nat) = 48 + d"
  by (simp add: digit_def)

lemma is_digit_digit [simp]: "d < 10 \<Longrightarrow> is_digit (digit d)"
  by (simp add: is_digit_def)

lemma show_nat_digits: "list_all is_digit (show_nat n)"
  by (induction n rule: show_nat.induct) (simp add: show_nat.simps [of n for n])

lemma show_nat_nonempty [simp]: "show_nat n \<noteq> []"
  by (simp add: show_nat.simps [of n])

lemma digits_value_snoc [simp]: "digits_value (s @ [c]) = 10 * digits_value s + (of_char c - 48)"
  by (simp add: digits_value_def)

lemma digits_value_show [simp]: "digits_value (show_nat n) = n"
proof (induction n rule: show_nat.induct)
  case (1 n)
  show ?case
  proof (cases "n < 10")
    case True
    then show ?thesis by (simp add: show_nat.simps [of n] digits_value_def)
  next
    case False
    with 1 have "digits_value (show_nat (n div 10)) = n div 10" by simp
    with False show ?thesis by (subst show_nat.simps) simp
  qed
qed

lemma length_show_nat: "n < 10 ^ k \<Longrightarrow> 0 < k \<Longrightarrow> length (show_nat n) \<le> k"
proof (induction n arbitrary: k rule: show_nat.induct)
  case (1 n)
  show ?case
  proof (cases "n < 10")
    case False
    obtain j where k: "k = Suc j" using 1(3) by (cases k) simp_all
    with 1(2) False have "0 < j" by (cases j) simp_all
    moreover have "n div 10 < 10 ^ j" using 1(2) k by (simp add: less_mult_imp_div_less mult.commute)
    ultimately have "length (show_nat (n div 10)) \<le> j" using 1(1) False by simp
    with False k show ?thesis by (subst show_nat.simps) simp
  qed (use 1 in \<open>simp add: show_nat.simps [of n]\<close>)
qed

lemma show_nat_length_less: "length (show_nat n) \<le> k \<Longrightarrow> n < 10 ^ k"
proof (induction n arbitrary: k rule: show_nat.induct)
  case (1 n)
  obtain j where k: "k = Suc j"
    using 1(2) show_nat_nonempty [of n] by (cases k) auto
  show ?case
  proof (cases "n < 10")
    case True
    then have "n < 10 ^ 1" by simp
    also have "\<dots> \<le> (10 :: nat) ^ k" unfolding k by (rule power_increasing) simp_all
    finally show ?thesis .
  next
    case False
    with 1(2) k have "length (show_nat (n div 10)) \<le> j" by (simp add: show_nat.simps [of n])
    with 1(1) False have "n div 10 < 10 ^ j" by simp
    then show ?thesis using k by (simp add: div_less_iff_less_mult mult.commute)
  qed
qed

lemma length_show_nat_iff: "0 < k \<Longrightarrow> length (show_nat n) \<le> k \<longleftrightarrow> n < 10 ^ k"
  using length_show_nat show_nat_length_less by blast

lemma length_show_nat_pos: "0 < length (show_nat n)"
  by simp

text \<open>A printed number is read back, whatever follows it, unless it is a digit.\<close>

lemma takeWhile_digits:
  assumes "list_all is_digit ds" and "rest = [] \<or> \<not> is_digit (hd rest)"
  shows "takeWhile is_digit (ds @ rest) = ds" and "dropWhile is_digit (ds @ rest) = rest"
  using assms by (induction ds) (cases rest; simp)+

lemma read_show_nat:
  assumes "rest = [] \<or> \<not> is_digit (hd rest)"
  shows "read_nat (show_nat n @ rest) = Some (n, rest)"
  by (simp add: read_nat_def takeWhile_digits [OF show_nat_digits assms])

lemma show_nat_hd: "is_digit (hd (show_nat n))"
  using show_nat_digits [of n] show_nat_nonempty [of n] by (cases "show_nat n") auto

lemma read_show_int:
  assumes "rest = [] \<or> \<not> is_digit (hd rest)"
  shows "read_int (show_int z @ rest) = Some (z, rest)"
proof (cases "z < 0")
  case False
  obtain c ds where ds: "show_nat (nat z) = c # ds" by (cases "show_nat (nat z)") simp_all
  with show_nat_hd [of "nat z"] have "c \<noteq> CHR ''-''" by (auto simp: is_digit_def)
  with False ds read_show_nat [OF assms, of "nat z"] show ?thesis by (simp add: show_int_def)
qed (use assms in \<open>simp add: show_int_def read_show_nat\<close>)

text \<open>The widths the fixed-size buffers rely on.\<close>

lemma length_show_u32: "length (show_u32 w) \<le> 10"
proof -
  have "unat w < 10 ^ 10" using unsigned_less [of w, where ?'a = nat] by simp
  then show ?thesis unfolding show_u32_def by (rule length_show_nat) simp
qed

lemma length_show_u64: "length (show_u64 w) \<le> 20"
proof -
  have "unat w < 10 ^ 20" using unsigned_less [of w, where ?'a = nat] by simp
  then show ?thesis unfolding show_u64_def by (rule length_show_nat) simp
qed

lemma length_show_i32: "length (show_i32 w) \<le> 11"
proof -
  have "nat (sint w) < 10 ^ 10" "nat (- sint w) < 10 ^ 10" using sint_i32_bounds [of w] by auto
  from length_show_nat [OF this(1)] length_show_nat [OF this(2)] show ?thesis
    by (simp add: show_i32_def show_int_def)
qed

end
