(* ===== verification/Publish.thy ===== *)
theory Publish
  imports Shm_Region Decimal
begin

text \<open>
  \<^verbatim>\<open>src/publish.cpp\<close>: the publish role. It polls the triple buffer until compute is
  done and a snapshot was consumed, or a shutdown is seen, and then writes the
  last snapshot as text. The loop is a step function as in the other roles;
  whether the output file opens is the argument \<open>can_open\<close>.
\<close>

section \<open>The report\<close>

definition newline :: char where "newline = CHR 0x0A"

definition publish_row :: "nat \<Rightarrow> WindowState \<Rightarrow> string" where
  "publish_row sid row =
     show_u32 (of_nat sid) @ '' '' @ show_i32 (w_pos_x row) @ '' '' @ show_i32 (w_pos_y row) @ '' '' @
     show_u32 (w_publishes row) @ [newline]"

definition publish_text :: "Snapshot \<Rightarrow> string" where
  "publish_text snap =
     ''generation '' @ show_u32 (sn_generation snap) @ [newline] @
     concat (map (\<lambda>sid. if w_publishes (sn_rows snap ! sid) = 0 then [] else publish_row sid (sn_rows snap ! sid))
       [0..<unat kMaxSources])"

section \<open>The loop\<close>

datatype publish_pc = PubTest | PubConsume | PubBeat | PubCheck | PubWrite | PubDone

text \<open>The locals of \<open>run_publish\<close>; \<open>pb_out\<close> is the text in the output file, if it was written.\<close>

record publish_local =
  pb_last :: Snapshot
  pb_have :: bool
  pb_beats :: u64
  pb_pc :: publish_pc
  pb_out :: "string option"
  pb_exit :: "nat option"

definition publish_start :: publish_local where
  "publish_start = \<lparr>pb_last = Snapshot_default, pb_have = False, pb_beats = 0, pb_pc = PubTest,
     pb_out = None, pb_exit = None\<rparr>"

definition run_publish :: "ShmStatus \<Rightarrow> nat + publish_local" where
  "run_publish attached = (if attached \<noteq> ShmOk then Inl 1 else Inr publish_start)"

fun publish_step :: "bool \<Rightarrow> publish_local \<times> Layout \<Rightarrow> (publish_local \<times> Layout) option" where
  "publish_step can_open (pb, l) =
     (case pb_pc pb of
        PubTest \<Rightarrow> Some (pb\<lparr>pb_pc := (if c_shutdown (l_control l) = 0 then PubConsume else PubWrite)\<rparr>, l)
      | PubConsume \<Rightarrow>
          (case TripleBuffer_consume (l_snapshots l) of
             (True, b) \<Rightarrow>
               Some (pb\<lparr>pb_last := TripleBuffer_read_slot b, pb_have := True, pb_pc := PubBeat\<rparr>, l\<lparr>l_snapshots := b\<rparr>)
           | (False, b) \<Rightarrow> Some (pb\<lparr>pb_pc := PubBeat\<rparr>, l\<lparr>l_snapshots := b\<rparr>))
      | PubBeat \<Rightarrow>
          Some (pb\<lparr>pb_beats := pb_beats pb + 1, pb_pc := PubCheck\<rparr>,
                l\<lparr>l_control := (l_control l)\<lparr>c_heartbeat_publish := pb_beats pb + 1\<rparr>\<rparr>)
      | PubCheck \<Rightarrow>
          Some (pb\<lparr>pb_pc := (if c_compute_done (l_control l) \<noteq> 0 \<and> pb_have pb then PubWrite else PubTest)\<rparr>, l)
      | PubWrite \<Rightarrow>
          (if \<not> pb_have pb then Some (pb\<lparr>pb_exit := Some 0, pb_pc := PubDone\<rparr>, l)
           else if \<not> can_open then Some (pb\<lparr>pb_exit := Some 1, pb_pc := PubDone\<rparr>, l)
           else Some (pb\<lparr>pb_out := Some (publish_text (pb_last pb)), pb_exit := Some 0, pb_pc := PubDone\<rparr>, l))
      | PubDone \<Rightarrow> None)"

section \<open>Reading a report back\<close>

definition expect :: "char \<Rightarrow> string \<Rightarrow> string option" where
  "expect c s = (case s of [] \<Rightarrow> None | d # rest \<Rightarrow> if d = c then Some rest else None)"

definition read_row :: "string \<Rightarrow> ((nat \<times> int \<times> int \<times> nat) \<times> string) option" where
  "read_row s = do {
     (sid, s) \<leftarrow> read_nat s; s \<leftarrow> expect CHR '' '' s;
     (x, s) \<leftarrow> read_int s; s \<leftarrow> expect CHR '' '' s;
     (y, s) \<leftarrow> read_int s; s \<leftarrow> expect CHR '' '' s;
     (n, s) \<leftarrow> read_nat s; s \<leftarrow> expect newline s;
     Some ((sid, x, y, n), s)
   }"

fun read_rows :: "nat \<Rightarrow> string \<Rightarrow> (nat \<times> int \<times> int \<times> nat) list option" where
  "read_rows 0 s = (if s = [] then Some [] else None)"
| "read_rows (Suc fuel) s =
     (if s = [] then Some [] else do { (row, s) \<leftarrow> read_row s; rows \<leftarrow> read_rows fuel s; Some (row # rows) })"

text \<open>Every row takes at least one character, so the length of the text is fuel enough.\<close>

definition read_report :: "string \<Rightarrow> (nat \<times> (nat \<times> int \<times> int \<times> nat) list) option" where
  "read_report s =
     (if take 11 s = ''generation '' then do {
        (g, s) \<leftarrow> read_nat (drop 11 s); s \<leftarrow> expect newline s;
        rows \<leftarrow> read_rows (length s) s; Some (g, rows) }
      else None)"

lemma not_digit_sep [simp]: "\<not> is_digit CHR '' ''" "\<not> is_digit newline"
  by (simp_all add: is_digit_def newline_def)

lemma expect_Cons [simp]: "expect c (c # s) = Some s"
  by (simp add: expect_def)

lemma read_publish_row:
  assumes "sid < 64"
  shows "read_row (publish_row sid row @ rest) =
    Some ((sid, sint (w_pos_x row), sint (w_pos_y row), unat (w_publishes row)), rest)"
proof -
  have "unat (of_nat sid :: u32) = sid" using assms by (simp add: unat_of_nat)
  then show ?thesis
    by (simp add: read_row_def publish_row_def show_u32_def show_i32_def read_show_nat read_show_int)
qed

lemma publish_row_nonempty: "0 < length (publish_row sid row)"
  by (simp add: publish_row_def)

definition reported :: "Snapshot \<Rightarrow> nat list \<Rightarrow> (nat \<times> int \<times> int \<times> nat) list" where
  "reported snap ids =
     map (\<lambda>sid. (sid, sint (w_pos_x (sn_rows snap ! sid)), sint (w_pos_y (sn_rows snap ! sid)),
                 unat (w_publishes (sn_rows snap ! sid))))
       (filter (\<lambda>sid. w_publishes (sn_rows snap ! sid) \<noteq> 0) ids)"

definition report_rows :: "Snapshot \<Rightarrow> nat list \<Rightarrow> string" where
  "report_rows snap ids =
     concat (map (\<lambda>sid. if w_publishes (sn_rows snap ! sid) = 0 then [] else publish_row sid (sn_rows snap ! sid)) ids)"

lemma read_report_rows:
  assumes "\<And>sid. sid \<in> set ids \<Longrightarrow> sid < 64" and "length (report_rows snap ids) \<le> fuel"
  shows "read_rows fuel (report_rows snap ids) = Some (reported snap ids)"
  using assms
proof (induction ids arbitrary: fuel)
  case Nil
  then show ?case by (cases fuel) (simp_all add: report_rows_def reported_def)
next
  case (Cons sid ids)
  show ?case
  proof (cases "w_publishes (sn_rows snap ! sid) = 0")
    case True
    then have "report_rows snap (sid # ids) = report_rows snap ids" "reported snap (sid # ids) = reported snap ids"
      by (simp_all add: report_rows_def reported_def)
    with Cons show ?thesis by simp
  next
    case False
    let ?row = "publish_row sid (sn_rows snap ! sid)"
    have rows: "report_rows snap (sid # ids) = ?row @ report_rows snap ids"
      using False by (simp add: report_rows_def)
    obtain n where n: "fuel = Suc n"
      using Cons.prems(2) publish_row_nonempty [of sid "sn_rows snap ! sid"] by (cases fuel) (simp_all add: rows)
    have "length (report_rows snap ids) \<le> n"
      using Cons.prems(2) publish_row_nonempty [of sid "sn_rows snap ! sid"] by (simp add: rows n del: length_greater_0_conv)
    with Cons have "read_rows n (report_rows snap ids) = Some (reported snap ids)" by simp
    moreover have "?row \<noteq> []" using publish_row_nonempty by auto
    ultimately show ?thesis
      using False Cons.prems(1) [of sid]
      by (simp add: rows n read_publish_row) (simp add: reported_def)
  qed
qed

section \<open>Properties\<close>

text \<open>
  (C22) The report can be read back: parsing the written text yields the generation and,
  in order of the source, the position and publish count of every row that has
  been published, and no other row.
\<close>

theorem publish_text_roundtrip:
  "read_report (publish_text snap) = Some (unat (sn_generation snap), reported snap [0..<64])"
proof -
  have body: "publish_text snap = ''generation '' @ show_u32 (sn_generation snap) @ [newline] @ report_rows snap [0..<64]"
    by (simp add: publish_text_def report_rows_def)
  have "read_rows (length (report_rows snap [0..<64])) (report_rows snap [0..<64]) = Some (reported snap [0..<64])"
    by (rule read_report_rows) simp_all
  then show ?thesis
    unfolding body read_report_def by (simp add: show_u32_def read_show_nat)
qed

end
