(* ===== verification/Make_Replay.thy ===== *)
theory Make_Replay
  imports Ingest
begin

text \<open>
  \<^verbatim>\<open>tools/make_replay.cpp\<close>: the generator of replay files. Whether the output file
  opens is the argument \<open>opens\<close>; the frame buffer on the stack is not initialised,
  so what it holds before each \<open>encode_frame\<close> is the argument \<open>junk\<close>. Errors of the
  stream after it was opened are not looked at by the tool and not modelled.
\<close>

section \<open>The tool\<close>

text \<open>The argument loop: the last argument other than \<open>--demo\<close> is the path.\<close>

fun replay_args :: "string list \<Rightarrow> string \<times> bool \<Rightarrow> string \<times> bool" where
  "replay_args [] (path, demo) = (path, demo)"
| "replay_args (arg # args) (path, demo) =
     (if arg = ''--demo'' then replay_args args (path, True) else replay_args args (arg, demo))"

definition default_record :: "u32 \<Rightarrow> Record" where
  "default_record seq = Record_default\<lparr>r_source_id := 1, r_pos_x := 1000, r_vel_x := 2000, r_sequence := seq\<rparr>"

definition default_records :: "Record list" where
  "default_records = map (\<lambda>seq. default_record (of_nat seq)) [1..<3]"

definition demo_record :: "u32 \<Rightarrow> u32 \<Rightarrow> Record" where
  "demo_record seq sid = Record_default\<lparr>r_source_id := sid, r_sequence := seq,
     r_pos_x := sid * 800 - 2800, r_pos_y := (sid mod 2) * 1500 - 750,
     r_vel_x := 400 + sid * 80,
     r_vel_y := (if sid AND 1 \<noteq> 0 then 280 + sid * 30 else - (280 + sid * 30))\<rparr>"

definition kSources :: nat where "kSources = 8"

definition kTicks :: nat where "kTicks = 500"

definition demo_records :: "Record list" where
  "demo_records =
     concat (map (\<lambda>seq. map (\<lambda>sid. demo_record (of_nat seq) (of_nat sid)) [0..<kSources]) [1..<kTicks + 1])"

text \<open>The bytes written before the tool ends, and whether it wrote all records.\<close>

fun write_frames :: "(Record \<Rightarrow> u8 list) \<Rightarrow> Record list \<Rightarrow> u8 list \<Rightarrow> bool \<times> u8 list" where
  "write_frames junk [] out = (True, out)"
| "write_frames junk (r # rs) out =
     (case encode_frame r (junk r) of
        (False, _) \<Rightarrow> (False, out)
      | (True, frame) \<Rightarrow> write_frames junk rs (out @ frame))"

text \<open>Exit code and the file that was written.\<close>

definition make_replay :: "(Record \<Rightarrow> u8 list) \<Rightarrow> (string \<Rightarrow> bool) \<Rightarrow> string list \<Rightarrow> nat \<times> (string \<times> u8 list) option" where
  "make_replay junk opens argv =
     (case replay_args (tl argv) (''replay.bin'', False) of (path, demo) \<Rightarrow>
        if \<not> opens path then (1, None)
        else case write_frames junk (if demo then demo_records else default_records) [] of
          (ok, bytes) \<Rightarrow> (if ok then 0 else 1, Some (path, bytes)))"

section \<open>Lemmas\<close>

lemma replay_args_exact:
  "replay_args args (path, demo) =
     (last (path # filter (\<lambda>a. a \<noteq> ''--demo'') args), demo \<or> ''--demo'' \<in> set args)"
  by (induction args arbitrary: path demo) auto

lemma write_frames_image:
  assumes "\<And>r. length (junk r) = kFrameBytes" and "list_all (\<lambda>r. r_source_id r < kMaxSources) rs"
  shows "write_frames junk rs out = (True, out @ concat (map wire_image rs))"
  using assms(2) by (induction rs arbitrary: out) (simp_all add: encode_frame_image assms(1))

lemma replay_frames_image: "replay_frames (concat (map wire_image rs)) = map wire_image rs"
proof (induction rs)
  case Nil
  show ?case using replay_frames_read(1) [of "[]"] by (simp add: read_frame_def kFrameBytes_def)
next
  case (Cons r rs)
  have "read_frame (wire_image r @ concat (map wire_image rs)) = Some (wire_image r, concat (map wire_image rs))"
    by (simp add: read_frame_def kFrameBytes_def)
  from replay_frames_read(2) [OF this] Cons show ?case by simp
qed

lemma decode_all_image:
  assumes "list_all (\<lambda>r. r_source_id r < kMaxSources) rs"
  shows "decode_all (map wire_image rs) = rs"
  using assms
proof (induction rs)
  case (Cons r rs)
  then show ?case
    using decode_wire_image [of r Record_default] by (simp add: decode_all_def decoded_def kFrameBytes_def)
qed (simp add: decode_all_def)

lemma default_records_wf: "list_all (\<lambda>r. r_source_id r < kMaxSources) default_records"
  by (simp add: default_records_def default_record_def list_all_iff kMaxSources_def)

lemma demo_records_wf: "list_all (\<lambda>r. r_source_id r < kMaxSources) demo_records"
  by (auto simp: demo_records_def demo_record_def list_all_iff kMaxSources_def kSources_def word_less_nat_alt unat_of_nat)

lemma length_concat_images: "length (concat (map wire_image rs)) = kFrameBytes * length rs"
  by (induction rs) (simp_all add: kFrameBytes_def)

section \<open>Properties\<close>

text \<open>
  (C23) What the generator writes, ingest reads: the tool names the file after the last
  argument that is not \<open>--demo\<close>, writes 38 bytes per record, succeeds, and cutting
  that file into frames and decoding them gives back the two default records or
  the demo records, none rejected.
\<close>

theorem make_replay_ingest:
  assumes "\<And>r. length (junk r) = kFrameBytes" and "opens (last (''replay.bin'' # filter (\<lambda>a. a \<noteq> ''--demo'') args))"
  shows "\<exists>bytes. make_replay junk opens (exe # args) = (0, Some (last (''replay.bin'' # filter (\<lambda>a. a \<noteq> ''--demo'') args), bytes)) \<and>
    decode_all (replay_frames bytes) = (if ''--demo'' \<in> set args then demo_records else default_records) \<and>
    length bytes = kFrameBytes * (if ''--demo'' \<in> set args then 4000 else 2)"
proof -
  define rs where "rs = (if ''--demo'' \<in> set args then demo_records else default_records)"
  have wf: "list_all (\<lambda>r. r_source_id r < kMaxSources) rs"
    using default_records_wf demo_records_wf by (simp add: rs_def)
  have "make_replay junk opens (exe # args) =
      (0, Some (last (''replay.bin'' # filter (\<lambda>a. a \<noteq> ''--demo'') args), concat (map wire_image rs)))"
    using assms(2) write_frames_image [of junk rs "[]", OF assms(1) wf]
    by (simp only: make_replay_def list.sel replay_args_exact prod.case simp_thms if_False if_True append_Nil rs_def)
  moreover have "length rs = (if ''--demo'' \<in> set args then 4000 else 2)"
    by (simp add: rs_def demo_records_def default_records_def length_concat o_def kSources_def kTicks_def sum_list_triv)
  ultimately show ?thesis
    using decode_all_image [OF wf] length_concat_images [of rs] unfolding rs_def [symmetric]
    by (intro exI [of _ "concat (map wire_image rs)"]) (simp add: replay_frames_image)
qed

theorem make_replay_ingest_witness:
  "\<exists>bytes. make_replay (\<lambda>_. replicate 38 0) (\<lambda>_. True) [''make_replay'', ''--demo'', ''out.bin''] = (0, Some (''out.bin'', bytes)) \<and>
     decode_all (replay_frames bytes) = demo_records \<and> length bytes = 152000"
  using make_replay_ingest [of "\<lambda>_. replicate 38 0" "\<lambda>_. True" "[''--demo'', ''out.bin'']" "''make_replay''"]
  by (simp add: kFrameBytes_def)

end
