(* ===== verification/Pipeline.thy ===== *)
theory Pipeline
  imports Ingest Compute_Snapshot Publish Make_Replay
begin

text \<open>
  The three children of one \<open>run_once_pipeline\<close> on one region: ingest, compute and
  publish interleave step by step, and the supervisor stores \<open>shutdown\<close> once compute
  has exited with status 0. The region is as \<open>shm_create\<close> made it, except that the
  generation may have been bumped by attempts that crashed before attaching, or
  it is what an earlier run of the supervisor left behind.
\<close>

section \<open>The processes\<close>

record pipeline =
  pl_ingest :: ingest_local
  pl_compute :: compute_local
  pl_publish :: publish_local
  pl_region :: Layout

definition pipeline_on :: "u8 list \<Rightarrow> Layout \<Rightarrow> pipeline" where
  "pipeline_on input l = \<lparr>pl_ingest = ingest_start (Some input), pl_compute = compute_start,
     pl_publish = publish_start, pl_region = l\<rparr>"

definition pipeline_start :: "u8 list \<Rightarrow> u32 \<Rightarrow> pipeline" where
  "pipeline_start input g = pipeline_on input (set_control (\<lambda>c. c\<lparr>c_generation := g\<rparr>) Layout_init)"

definition supervisor_shutdown :: "pipeline \<Rightarrow> pipeline option" where
  "supervisor_shutdown p =
     (if cp_exit (pl_compute p) = Some 0 then Some (p\<lparr>pl_region := set_control (\<lambda>c. c\<lparr>c_shutdown := 1\<rparr>) (pl_region p)\<rparr>)
      else None)"

inductive pipeline_step :: "(string \<Rightarrow> string option) \<Rightarrow> bool \<Rightarrow> pipeline \<Rightarrow> pipeline \<Rightarrow> bool" for getenv can_open where
  pl_ingest_step: "ingest_step (pl_ingest p, pl_region p) (ig, l) \<Longrightarrow>
    pipeline_step getenv can_open p (p\<lparr>pl_ingest := ig, pl_region := l\<rparr>)"
| pl_compute_step: "compute_step getenv (pl_compute p, pl_region p) (cp, l) \<Longrightarrow>
    pipeline_step getenv can_open p (p\<lparr>pl_compute := cp, pl_region := l\<rparr>)"
| pl_publish_step: "publish_step can_open (pl_publish p, pl_region p) = Some (pb, l) \<Longrightarrow>
    pipeline_step getenv can_open p (p\<lparr>pl_publish := pb, pl_region := l\<rparr>)"
| pl_shutdown: "supervisor_shutdown p = Some q \<Longrightarrow> pipeline_step getenv can_open p q"

section \<open>What each process leaves alone\<close>

lemma ingest_step_frame:
  assumes "ingest_step (ig, l) (ig', l')"
  shows "compute_env (cp, l) (cp, l')" and "l_snapshots l' = l_snapshots l"
    and "c_shutdown (l_control l') = c_shutdown (l_control l)"
    and "c_generation (l_control l') = c_generation (l_control l)"
    and "c_ingest_done (l_control l') = (if ig_exit ig' \<noteq> ig_exit ig then 1 else c_ingest_done (l_control l))"
    and "c_snapshot_done (l_control l') = c_snapshot_done (l_control l)"
    and "c_compute_done (l_control l') = c_compute_done (l_control l)"
  using assms
  by (cases; auto simp: compute_env_def stopped_def split: source_pc.splits frames_pc.splits option.splits prod.splits
      bool.splits if_splits)+

lemma ingest_step_ring:
  assumes "ingest_step (ig, l) (ig', l')"
  shows "l_ring l' = l_ring l \<and> ig_fed ig' = ig_fed ig \<or>
    (\<exists>r. SpscRing_try_push kRingCapacity r (l_ring l) = (True, l_ring l') \<and> ig_fed ig' = ig_fed ig @ [r])"
  using assms
  by (cases) (auto simp: SpscRing_try_push_def Let_def split: source_pc.splits frames_pc.splits option.splits prod.splits
      bool.splits if_splits)

lemma compute_step_frame:
  assumes "compute_step getenv (cp, l) (cp', l')"
  shows "c_shutdown (l_control l') = c_shutdown (l_control l)"
    and "c_generation (l_control l') = c_generation (l_control l)"
    and "c_ingest_done (l_control l') = c_ingest_done (l_control l)"
  using assms
  by (cases; auto split: fast_pc.splits window_pc.splits snapshot_pc.splits watchdog_pc.splits if_splits option.splits
      prod.splits bool.splits)+

lemma compute_step_ring:
  assumes "compute_step getenv (cp, l) (cp', l')"
  shows "l_ring l' = l_ring l \<and> cp_taken cp' = cp_taken cp \<or>
    (\<exists>r. SpscRing_try_pop kRingCapacity (l_ring l) Record_default = (True, r, l_ring l') \<and> cp_taken cp' = cp_taken cp @ [r])"
  using assms
proof cases
  case (cs_fast now)
  then show ?thesis
    by (cases "cp_fast cp") (auto simp: SpscRing_try_pop_def Let_def split: if_splits option.splits prod.splits bool.splits)
next
  case (cs_window now busy)
  with window_step_frame show ?thesis by blast
next
  case (cs_snapshot now busy)
  with snapshot_step_frame show ?thesis by blast
qed (auto split: watchdog_pc.splits if_splits option.splits)

lemma compute_step_buffer:
  assumes "compute_step getenv (cp, l) (cp', l')"
  shows "l_snapshots l' = l_snapshots l \<and> cp_snaps cp' = cp_snaps cp \<or>
    (\<exists>snap. cp_snapshot cp = SnapPublish snap \<and> l_snapshots l' = tb_put snap (l_snapshots l) \<and>
       cp_snaps cp' = cp_snaps cp @ [snap])"
  using assms
proof cases
  case (cs_fast now)
  with fast_step_frame show ?thesis by blast
next
  case (cs_window now busy)
  with window_step_frame show ?thesis by blast
next
  case (cs_snapshot now busy)
  then show ?thesis by (auto simp: tb_put_def split: snapshot_pc.splits if_splits option.splits prod.splits)
qed (auto split: watchdog_pc.splits if_splits option.splits)

lemma publish_step_frame:
  assumes "publish_step can_open (pb, l) = Some (pb', l')"
  shows "compute_env (cp, l) (cp, l')" and "l_ring l' = l_ring l"
    and "c_shutdown (l_control l') = c_shutdown (l_control l)"
    and "c_generation (l_control l') = c_generation (l_control l)"
    and "c_ingest_done (l_control l') = c_ingest_done (l_control l)"
    and "c_snapshot_done (l_control l') = c_snapshot_done (l_control l)"
    and "c_compute_done (l_control l') = c_compute_done (l_control l)"
  using assms
  by (auto simp: compute_env_def stopped_def split: publish_pc.splits prod.splits bool.splits if_splits)

section \<open>Invariant\<close>

text \<open>The snapshot that the records \<open>rs\<close> lead to in generation \<open>g\<close>, over the rows \<open>base\<close>.\<close>

definition final_snapshot :: "(nat \<Rightarrow> SourceState) \<Rightarrow> u32 \<Rightarrow> Record list \<Rightarrow> Snapshot" where
  "final_snapshot base g rs = \<lparr>sn_generation = g, sn_rows = map (\<lambda>i. window_of (shown base rs i)) [0..<64]\<rparr>"

text \<open>
  The ring holds what it held before the run (\<open>left\<close>) and what ingest fed, less
  what compute has taken.
\<close>

definition ring_link :: "Record list \<Rightarrow> pipeline \<Rightarrow> bool" where
  "ring_link left p \<longleftrightarrow> ring_wf kRingCapacity (l_ring (pl_region p)) \<and>
     cp_taken (pl_compute p) @ ring_items kRingCapacity (l_ring (pl_region p)) = left @ ig_fed (pl_ingest p)"

text \<open>
  A flag that is set tells the truth, a finished stage has set its flag, and a
  finished compute process has copied every row.
\<close>

definition flag_link :: "u8 list \<Rightarrow> pipeline \<Rightarrow> bool" where
  "flag_link input p \<longleftrightarrow>
     (stopped (l_control (pl_region p)) \<longrightarrow> cp_exit (pl_compute p) = Some 0) \<and>
     (c_ingest_done (l_control (pl_region p)) \<noteq> 0 \<longrightarrow> ig_exit (pl_ingest p) \<noteq> None) \<and>
     (cp_fast (pl_compute p) \<in> {FastStore, FastDone} \<longrightarrow>
        ig_exit (pl_ingest p) \<noteq> None \<and> ig_fed (pl_ingest p) = decode_all (replay_frames input))"

definition stages_done :: "compute_local \<Rightarrow> ShmControl \<Rightarrow> bool" where
  "stages_done cp c \<longleftrightarrow>
     (cp_fast cp = FastDone \<longrightarrow> c_fast_done c \<noteq> 0) \<and> (cp_window cp = WinDone \<longrightarrow> c_window_done c \<noteq> 0) \<and>
     (cp_snapshot cp = SnapDone \<longrightarrow> c_snapshot_done c \<noteq> 0) \<and> (cp_exit cp \<noteq> None \<longrightarrow> c_compute_done c \<noteq> 0)"

definition done_link :: "pipeline \<Rightarrow> bool" where
  "done_link p \<longleftrightarrow>
     (cp_exit (pl_compute p) \<noteq> None \<longrightarrow> copied (pl_region p) 64) \<and>
     (ig_exit (pl_ingest p) \<noteq> None \<longrightarrow> c_ingest_done (l_control (pl_region p)) \<noteq> 0) \<and>
     stages_done (pl_compute p) (l_control (pl_region p))"

text \<open>A snapshot under construction carries the generation; a published one is the final one.\<close>

definition snapshot_link :: "(nat \<Rightarrow> SourceState) \<Rightarrow> u32 \<Rightarrow> pipeline \<Rightarrow> bool" where
  "snapshot_link base g p \<longleftrightarrow> c_generation (l_control (pl_region p)) = g \<and>
     (\<forall>snap. (\<exists>n. cp_snapshot (pl_compute p) = SnapRow snap n) \<or> cp_snapshot (pl_compute p) = SnapPublish snap \<longrightarrow>
        sn_generation snap = g) \<and>
     (\<forall>snap \<in> set (cp_snaps (pl_compute p)).
        cp_fast (pl_compute p) = FastDone \<and> snap = final_snapshot base g (cp_taken (pl_compute p)))"

definition buffer_link :: "pipeline \<Rightarrow> bool" where
  "buffer_link p \<longleftrightarrow> tb_wf (l_snapshots (pl_region p)) \<and>
     (cp_snaps (pl_compute p) = [] \<longrightarrow> tb_unread (l_snapshots (pl_region p)) = None \<and> \<not> pb_have (pl_publish p)) \<and>
     (\<forall>snap. cp_snaps (pl_compute p) = [snap] \<longrightarrow>
        tb_unread (l_snapshots (pl_region p)) = Some snap \<and> \<not> pb_have (pl_publish p) \<or>
        tb_unread (l_snapshots (pl_region p)) = None \<and> pb_have (pl_publish p) \<and> pb_last (pl_publish p) = snap) \<and>
     (pb_pc (pl_publish p) = PubDone \<longrightarrow> pb_exit (pl_publish p) \<noteq> None) \<and>
     (\<forall>txt. pb_out (pl_publish p) = Some txt \<longrightarrow>
        pb_pc (pl_publish p) = PubDone \<and> pb_have (pl_publish p) \<and> txt = publish_text (pb_last (pl_publish p)))"

text \<open>
  \<open>core_inv\<close> is about ingest and compute and holds whatever is in the triple buffer;
  \<open>report_inv\<close> is about the way of the snapshot to the report.
\<close>

definition core_inv :: "(nat \<Rightarrow> SourceState) \<Rightarrow> Record list \<Rightarrow> u8 list \<Rightarrow> pipeline \<Rightarrow> bool" where
  "core_inv base left input p \<longleftrightarrow>
     ingest_inv input (pl_ingest p, pl_region p) \<and> compute_inv base (pl_compute p, pl_region p) \<and>
     ring_link left p \<and> flag_link input p \<and> done_link p"

definition report_inv :: "(nat \<Rightarrow> SourceState) \<Rightarrow> u32 \<Rightarrow> pipeline \<Rightarrow> bool" where
  "report_inv base g p \<longleftrightarrow> snapshot_link base g p \<and> buffer_link p"

text \<open>A region a run can start on, and one whose snapshots have all been read.\<close>

definition region_ready :: "(nat \<Rightarrow> SourceState) \<Rightarrow> Record list \<Rightarrow> Layout \<Rightarrow> bool" where
  "region_ready base left l \<longleftrightarrow> compute_fresh base l \<and> ring_wf kRingCapacity (l_ring l) \<and>
     ring_items kRingCapacity (l_ring l) = left \<and> \<not> stopped (l_control l) \<and> c_ingest_done (l_control l) = 0"

definition snapshots_read :: "Layout \<Rightarrow> bool" where
  "snapshots_read l \<longleftrightarrow> tb_wf (l_snapshots l) \<and> tb_unread (l_snapshots l) = None"

lemma core_inv_start:
  assumes "region_ready base left l"
  shows "core_inv base left input (pipeline_on input l)"
proof -
  have "\<not> stopped (l_control l)" using assms by (simp add: region_ready_def)
  from ingest_inv_start [OF this, of "Some input"]
  have "ingest_inv input (pl_ingest (pipeline_on input l), pl_region (pipeline_on input l))"
    by (simp add: pipeline_on_def)
  moreover have "compute_inv base (pl_compute (pipeline_on input l), pl_region (pipeline_on input l))"
    using assms by (simp add: pipeline_on_def compute_inv_start region_ready_def)
  moreover have "ring_link left (pipeline_on input l)"
    using assms by (simp add: ring_link_def pipeline_on_def compute_start_def ingest_start_def region_ready_def)
  moreover have "flag_link input (pipeline_on input l)" "done_link (pipeline_on input l)"
    using assms
    by (simp_all add: flag_link_def done_link_def stages_done_def pipeline_on_def compute_start_def ingest_start_def region_ready_def)
  ultimately show ?thesis by (simp add: core_inv_def)
qed

lemma report_inv_start:
  assumes "snapshots_read l"
  shows "report_inv base (c_generation (l_control l)) (pipeline_on input l)"
  using assms
  by (simp add: report_inv_def snapshot_link_def buffer_link_def pipeline_on_def compute_start_def publish_start_def
      snapshots_read_def)

lemma start_region:
  "region_ready no_rows [] (pl_region (pipeline_start input g))"
  "snapshots_read (pl_region (pipeline_start input g))"
  "c_generation (l_control (pl_region (pipeline_start input g))) = g"
proof -
  have init: "l_ring Layout_init = SpscRing_init kRingCapacity Record_default"
    "l_snapshots Layout_init = TripleBuffer_init Snapshot_default" "l_control Layout_init = ShmControl_default"
    by (simp_all add: Layout_init_def)
  have "compute_fresh no_rows (set_control (\<lambda>c. c\<lparr>c_generation := g\<rparr>) Layout_init)"
    using compute_fresh_init by (simp add: compute_fresh_def)
  then show "region_ready no_rows [] (pl_region (pipeline_start input g))"
    by (simp add: region_ready_def pipeline_start_def pipeline_on_def init ring_wf_init stopped_def ShmControl_default_def)
  show "snapshots_read (pl_region (pipeline_start input g))"
    by (simp add: snapshots_read_def pipeline_start_def pipeline_on_def init)
      (simp add: tb_unread_def TripleBuffer_init_def kFresh_def)
  show "c_generation (l_control (pl_region (pipeline_start input g))) = g"
    by (simp add: pipeline_start_def pipeline_on_def)
qed

lemma ingest_exited:
  assumes "ingest_inv input (ig, l)" and "ig_exit ig \<noteq> None"
  shows "\<not> ingest_step (ig, l) t"
proof -
  from assms have "ig_frm ig = FrmDone" "ig_src ig = SrcDone" by (auto simp: ingest_inv_def frames_inv_def)
  with assms(2) show ?thesis by (auto simp: ingest_step.simps)
qed

lemma compute_exited:
  assumes "compute_inv base (cp, l)" and "cp_exit cp \<noteq> None" and "compute_step getenv (cp, l) (cp', l')"
  shows "cp_fast cp' = cp_fast cp" and "cp_taken cp' = cp_taken cp" and "cp_snaps cp' = cp_snaps cp"
    and "cp_exit cp' = cp_exit cp"
proof -
  from assms(1,2) have pcs: "cp_fast cp = FastDone" "cp_window cp = WinDone" "cp_snapshot cp = SnapDone"
    by (auto simp: compute_inv_def snapshot_inv_def)
  from assms(3) have "cp_fast cp' = cp_fast cp \<and> cp_taken cp' = cp_taken cp \<and> cp_snaps cp' = cp_snaps cp \<and>
      cp_exit cp' = cp_exit cp"
    by cases (use pcs assms(2) in \<open>auto split: watchdog_pc.splits if_splits option.splits\<close>)
  then show "cp_fast cp' = cp_fast cp" "cp_taken cp' = cp_taken cp" "cp_snaps cp' = cp_snaps cp" "cp_exit cp' = cp_exit cp"
    by simp_all
qed

lemma compute_exited_env:
  assumes "compute_inv base (cp, l)" and "cp_exit cp \<noteq> None" and "compute_step getenv (cp, l) (cp', l')"
  shows "compute_env (cp, l) (cp, l')"
proof -
  from assms(1,2) have pcs: "cp_fast cp = FastDone" "cp_window cp = WinDone" "cp_snapshot cp = SnapDone"
    by (auto simp: compute_inv_def snapshot_inv_def)
  from assms(3) show ?thesis
  proof cases
    case (cs_watchdog now)
    then show ?thesis by (rule watchdog_step_frame(2))
  qed (use pcs assms(2) in simp_all)
qed

lemma copied_cong: "l_latest l' = l_latest l \<Longrightarrow> l_window l' = l_window l \<Longrightarrow> copied l' n = copied l n"
  using value_cong [of l' l] by (simp add: copied_def)

lemma compute_exit_copied:
  assumes inv: "compute_inv base (cp, l)" and st: "compute_step getenv (cp, l) (cp', l')"
    and flags: "stopped (l_control l) \<longrightarrow> cp_exit cp \<noteq> None" and old: "cp_exit cp \<noteq> None \<longrightarrow> copied l 64"
    and exited: "cp_exit cp' \<noteq> None"
  shows "copied l' 64"
proof (cases "cp_exit cp = None")
  case True
  with flags have "\<not> stopped (l_control l)" by auto
  then have run: "\<not> stopped (l_control l')" using compute_step_frame(1) [OF st] stopped_cong by blast
  from compute_step_inv [OF inv st] exited have "cp_window cp' = WinDone" "window_inv base cp' l'"
    by (simp_all add: compute_inv_def snapshot_inv_def)
  with run show ?thesis by (auto simp: window_inv_def)
next
  case False
  from compute_exited_env [OF inv False st] copied_cong [of l' l] old False show ?thesis by (simp add: compute_env_def)
qed

lemma ring_link_push:
  assumes "ring_wf kRingCapacity (r :: Record SpscRing)" and "SpscRing_try_push kRingCapacity v r = (True, r')"
  shows "ring_wf kRingCapacity r'" and "ring_items kRingCapacity r' = ring_items kRingCapacity r @ [v]"
proof -
  have "length (ring_items kRingCapacity r) < unat kRingCapacity - 1"
    using record_ring.items_bounded [OF assms(1)] record_ring.push_full [OF assms(1), of v] assms(2) by fastforce
  from ring_push_room [OF assms(1) this, of v] assms(2)
  show "ring_wf kRingCapacity r'" "ring_items kRingCapacity r' = ring_items kRingCapacity r @ [v]" by auto
qed

lemma ring_link_pop:
  assumes "ring_wf kRingCapacity (r :: Record SpscRing)" and "SpscRing_try_pop kRingCapacity r d = (True, v, r')"
  shows "ring_wf kRingCapacity r'" and "ring_items kRingCapacity r = v # ring_items kRingCapacity r'"
proof -
  have "ring_items kRingCapacity r \<noteq> []"
    using ring_empty_iff [OF assms(1)] assms(2) by (auto simp: SpscRing_try_pop_def Let_def split: if_splits)
  then obtain x xs where items: "ring_items kRingCapacity r = x # xs" by (cases "ring_items kRingCapacity r") auto
  from ring_pop_first [OF assms(1) items, of d] assms(2) items
  show "ring_wf kRingCapacity r'" "ring_items kRingCapacity r = v # ring_items kRingCapacity r'" by auto
qed

lemma core_inv_ingest:
  assumes inv: "core_inv base left input p" and st: "ingest_step (pl_ingest p, pl_region p) (ig, l)"
  shows "core_inv base left input (p\<lparr>pl_ingest := ig, pl_region := l\<rparr>)"
proof -
  note frame = ingest_step_frame [OF st]
  from inv have ing: "ingest_inv input (pl_ingest p, pl_region p)" and cmp: "compute_inv base (pl_compute p, pl_region p)"
    by (simp_all add: core_inv_def)
  have running: "ig_exit (pl_ingest p) = None" using ingest_exited [OF ing] st by blast
  have stop: "stopped (l_control l) = stopped (l_control (pl_region p))" using frame(3) by (rule stopped_cong)
  have "ring_link left (p\<lparr>pl_ingest := ig, pl_region := l\<rparr>)"
    using inv ingest_step_ring [OF st]
    by (auto simp: core_inv_def ring_link_def dest: ring_link_push simp flip: append_assoc)
  moreover have "flag_link input (p\<lparr>pl_ingest := ig, pl_region := l\<rparr>)"
    using inv running frame(5) stop by (auto simp: core_inv_def flag_link_def)
  moreover have "done_link (p\<lparr>pl_ingest := ig, pl_region := l\<rparr>)"
    using inv running frame(1) [of "pl_compute p"] frame(5-7) copied_cong [of l "pl_region p"]
    by (auto simp: core_inv_def done_link_def stages_done_def compute_env_def)
  ultimately show ?thesis
    using ingest_step_inv [OF ing st] compute_env_inv [OF cmp frame(1)] by (simp add: core_inv_def)
qed

lemma report_inv_ingest:
  assumes "report_inv base g p" and st: "ingest_step (pl_ingest p, pl_region p) (ig, l)"
  shows "report_inv base g (p\<lparr>pl_ingest := ig, pl_region := l\<rparr>)"
  using assms(1) ingest_step_frame(2,4) [OF st] by (simp add: report_inv_def snapshot_link_def buffer_link_def)

text \<open>The 5 ms thread leaves its loop only on a shutdown or once ingest is done.\<close>

lemma fast_step_leaves:
  assumes "fast_step getenv now (cp, l) = Some (cp', l')" and "cp_fast cp' \<in> {FastStore, FastDone}"
  shows "cp_fast cp \<in> {FastStore, FastDone} \<or> stopped (l_control l) \<or> c_ingest_done (l_control l) \<noteq> 0"
  using assms by (auto split: fast_pc.splits if_splits option.splits prod.splits bool.splits)

lemma compute_step_leaves:
  assumes "compute_step getenv (cp, l) (cp', l')" and "cp_fast cp' \<in> {FastStore, FastDone}"
  shows "cp_fast cp \<in> {FastStore, FastDone} \<or> stopped (l_control l) \<or> c_ingest_done (l_control l) \<noteq> 0"
  using assms(1)
proof cases
  case (cs_fast now)
  then show ?thesis using assms(2) by (rule fast_step_leaves)
next
  case (cs_window now busy)
  with assms(2) window_step_frame show ?thesis by metis
next
  case (cs_snapshot now busy)
  with assms(2) snapshot_step_frame show ?thesis by metis
qed (use assms(2) in \<open>auto split: watchdog_pc.splits if_splits option.splits\<close>)

lemma fast_step_done:
  assumes "fast_step getenv now (cp, l) = Some (cp', l')"
  shows "cp_fast cp' = FastDone \<longrightarrow> c_fast_done (l_control l') \<noteq> 0"
    and "c_snapshot_done (l_control l') = c_snapshot_done (l_control l)"
    and "c_compute_done (l_control l') = c_compute_done (l_control l)"
  using assms by (cases "cp_fast cp"; auto split: if_splits option.splits prod.splits bool.splits)+

lemma window_step_done:
  assumes "window_step getenv now busy (cp, l) = Some (cp', l')"
  shows "cp_window cp' = WinDone \<longrightarrow> c_window_done (l_control l') \<noteq> 0"
    and "c_snapshot_done (l_control l') = c_snapshot_done (l_control l)"
    and "c_compute_done (l_control l') = c_compute_done (l_control l)"
  using assms by (cases "cp_window cp"; auto split: if_splits option.splits prod.splits)+

lemma snapshot_step_done:
  assumes "snapshot_step getenv now busy (cp, l) = Some (cp', l')"
  shows "cp_snapshot cp' = SnapDone \<longrightarrow> c_snapshot_done (l_control l') \<noteq> 0"
    and "c_compute_done (l_control l') = c_compute_done (l_control l)"
  using assms by (cases "cp_snapshot cp"; auto split: if_splits option.splits prod.splits)+

lemma compute_step_done:
  assumes "compute_step getenv (cp, l) (cp', l')" and "stages_done cp (l_control l)"
  shows "stages_done cp' (l_control l')"
  using assms(1)
proof cases
  case (cs_fast now)
  from assms(2) fast_step_frame [OF this] fast_step_done [OF this] show ?thesis by (simp add: stages_done_def)
next
  case (cs_window now busy)
  from assms(2) window_step_frame [OF this(1)] window_step_done [OF this(1)] show ?thesis by (simp add: stages_done_def)
next
  case (cs_snapshot now busy)
  from assms(2) snapshot_step_frame [OF this(1)] snapshot_step_done [OF this(1)] show ?thesis by (simp add: stages_done_def)
qed (use assms(2) in \<open>auto simp: stages_done_def split: watchdog_pc.splits if_splits option.splits\<close>)

lemma compute_step_generation:
  assumes "compute_step getenv (cp, l) (cp', l')"
    and "(\<exists>n. cp_snapshot cp' = SnapRow snap n) \<or> cp_snapshot cp' = SnapPublish snap"
    and "\<And>snap. (\<exists>n. cp_snapshot cp = SnapRow snap n) \<or> cp_snapshot cp = SnapPublish snap \<Longrightarrow>
      sn_generation snap = c_generation (l_control l)"
  shows "sn_generation snap = c_generation (l_control l)"
  using assms(1)
proof cases
  case (cs_fast now)
  then show ?thesis using assms(2,3) fast_step_frame by metis
next
  case (cs_window now busy)
  then show ?thesis using assms(2,3) window_step_frame by metis
next
  case (cs_snapshot now busy)
  with assms(2,3) show ?thesis
    by (auto split: snapshot_pc.splits if_splits option.splits prod.splits)
qed (use assms(2,3) in \<open>auto split: watchdog_pc.splits if_splits option.splits\<close>)

lemma published_final:
  assumes inv: "compute_inv base (cp, l)" and snap: "snap \<in> set (cp_snaps cp)" and run: "\<not> stopped (l_control l)"
  shows "cp_fast cp = FastDone" and "snap = final_snapshot base (sn_generation snap) (cp_taken cp)"
proof -
  have rows: "snapshot_rows base cp l snap 64" using inv snap by (auto simp: compute_inv_def snapshot_inv_def list_all_iff)
  with run have "cp_window cp = WinDone" by (auto simp: snapshot_rows_def)
  with inv run show "cp_fast cp = FastDone" by (auto simp: compute_inv_def window_inv_def)
  have "sn_rows snap = map (\<lambda>i. window_of (shown base (cp_taken cp) i)) [0..<64]"
    using rows published_rows [OF inv snap run] by (intro nth_equalityI) (simp_all add: snapshot_rows_def)
  then show "snap = final_snapshot base (sn_generation snap) (cp_taken cp)" by (simp add: final_snapshot_def)
qed

lemma compute_step_final:
  assumes inv: "core_inv base left input p" and link: "snapshot_link base g p"
    and st: "compute_step getenv (pl_compute p, pl_region p) (cp, l)" and snap: "snap \<in> set (cp_snaps cp)"
  shows "cp_fast cp = FastDone \<and> snap = final_snapshot base g (cp_taken cp)"
proof (cases "stopped (l_control (pl_region p))")
  case True
  with inv have "cp_exit (pl_compute p) \<noteq> None" by (auto simp: core_inv_def flag_link_def)
  with inv have "cp_fast cp = cp_fast (pl_compute p)" "cp_taken cp = cp_taken (pl_compute p)"
      "cp_snaps cp = cp_snaps (pl_compute p)"
    by (auto simp: core_inv_def dest: compute_exited [OF _ _ st])
  with link snap show ?thesis by (auto simp: snapshot_link_def)
next
  case False
  then have run: "\<not> stopped (l_control l)" using compute_step_frame(1) [OF st] stopped_cong by blast
  have "compute_inv base (pl_compute p, pl_region p)" using inv by (simp add: core_inv_def)
  from compute_step_inv [OF this st] have cmp: "compute_inv base (cp, l)" .
  have "sn_generation s = g" if "s \<in> set (cp_snaps (pl_compute p))" for s
  proof -
    have "s = final_snapshot base g (cp_taken (pl_compute p))" using link that by (simp add: snapshot_link_def)
    then show ?thesis by (simp add: final_snapshot_def)
  qed
  with compute_step_buffer [OF st] link snap have "sn_generation snap = g" by (auto simp: snapshot_link_def)
  with published_final [OF cmp snap run] show ?thesis by simp
qed

lemma core_inv_compute:
  assumes inv: "core_inv base left input p" and st: "compute_step getenv (pl_compute p, pl_region p) (cp, l)"
  shows "core_inv base left input (p\<lparr>pl_compute := cp, pl_region := l\<rparr>)"
proof -
  let ?q = "p\<lparr>pl_compute := cp, pl_region := l\<rparr>"
  note frame = compute_step_frame [OF st]
  from inv have ing: "ingest_inv input (pl_ingest p, pl_region p)" and cmp: "compute_inv base (pl_compute p, pl_region p)"
    and flags: "flag_link input p"
    by (simp_all add: core_inv_def)
  have stop: "stopped (l_control l) = stopped (l_control (pl_region p))" using frame(1) by (rule stopped_cong)
  have "ring_link left ?q"
    using inv compute_step_ring [OF st] by (auto simp: core_inv_def ring_link_def dest: ring_link_pop)
  moreover have "cp_exit cp = Some 0" if "stopped (l_control l)"
  proof -
    have "cp_exit (pl_compute p) = Some 0" using that stop flags by (simp add: flag_link_def)
    with compute_exited(4) [OF cmp _ st] show ?thesis by simp
  qed
  then have "flag_link input ?q"
    using flags frame(3) compute_step_leaves [OF st] ingest_inv_exit [OF ing] cmp
    by (fastforce simp: flag_link_def compute_inv_def snapshot_inv_def)
  moreover have "done_link ?q"
    using inv frame(3) compute_step_done [OF st] compute_exit_copied [OF cmp st]
    by (auto simp: core_inv_def done_link_def flag_link_def)
  ultimately show ?thesis
    using compute_step_inv [OF cmp st] ingest_env_inv [OF ing, of "(pl_ingest p, l)"] stop
    by (simp add: core_inv_def ingest_env_def)
qed

lemma report_inv_compute:
  assumes inv: "core_inv base left input p" and rep: "report_inv base g p"
    and st: "compute_step getenv (pl_compute p, pl_region p) (cp, l)"
  shows "report_inv base g (p\<lparr>pl_compute := cp, pl_region := l\<rparr>)"
proof -
  let ?q = "p\<lparr>pl_compute := cp, pl_region := l\<rparr>"
  from inv have cmp: "compute_inv base (pl_compute p, pl_region p)" by (simp add: core_inv_def)
  from rep have link: "snapshot_link base g p" and buf: "buffer_link p" by (simp_all add: report_inv_def)
  have gen: "sn_generation snap = g"
    if "(\<exists>n. cp_snapshot cp = SnapRow snap n) \<or> cp_snapshot cp = SnapPublish snap" for snap
    using compute_step_generation [OF st that] link unfolding snapshot_link_def by blast
  have "snapshot_link base g ?q"
    using link compute_step_frame(2) [OF st] gen compute_step_final [OF inv link st] by (simp add: snapshot_link_def)
  moreover have one: "length (cp_snaps cp) \<le> 1"
    using compute_step_inv [OF cmp st] by (simp add: compute_inv_def snapshot_inv_def)
  have "buffer_link ?q"
    using compute_step_buffer [OF st]
  proof
    assume "l_snapshots l = l_snapshots (pl_region p) \<and> cp_snaps cp = cp_snaps (pl_compute p)"
    with buf show ?thesis by (simp add: buffer_link_def)
  next
    assume "\<exists>snap. cp_snapshot (pl_compute p) = SnapPublish snap \<and> l_snapshots l = tb_put snap (l_snapshots (pl_region p)) \<and>
       cp_snaps cp = cp_snaps (pl_compute p) @ [snap]"
    moreover from this one have "cp_snaps (pl_compute p) = []" by auto
    ultimately show ?thesis
      using buf snapshot_buffer.put_unread [of "l_snapshots (pl_region p)"] by (auto simp: buffer_link_def)
  qed
  ultimately show ?thesis by (simp add: report_inv_def)
qed

lemma core_inv_publish:
  assumes inv: "core_inv base left input p" and st: "publish_step can_open (pl_publish p, pl_region p) = Some (pb, l)"
  shows "core_inv base left input (p\<lparr>pl_publish := pb, pl_region := l\<rparr>)"
proof -
  note frame = publish_step_frame [OF st]
  from inv have ing: "ingest_inv input (pl_ingest p, pl_region p)" and cmp: "compute_inv base (pl_compute p, pl_region p)"
    by (simp_all add: core_inv_def)
  have stop: "stopped (l_control l) = stopped (l_control (pl_region p))" using frame(3) by (rule stopped_cong)
  have "done_link (p\<lparr>pl_publish := pb, pl_region := l\<rparr>)"
    using inv frame(1) [of "pl_compute p"] frame(5-7) copied_cong [of l "pl_region p"]
    by (simp add: core_inv_def done_link_def stages_done_def compute_env_def)
  with inv frame(2,5) stop show ?thesis
    using ingest_env_inv [OF ing, of "(pl_ingest p, l)"] compute_env_inv [OF cmp frame(1)]
    by (simp add: core_inv_def ingest_env_def ring_link_def flag_link_def)
qed

lemma report_inv_publish:
  assumes inv: "core_inv base left input p" and rep: "report_inv base g p"
    and st: "publish_step can_open (pl_publish p, pl_region p) = Some (pb, l)"
  shows "report_inv base g (p\<lparr>pl_publish := pb, pl_region := l\<rparr>)"
proof -
  let ?q = "p\<lparr>pl_publish := pb, pl_region := l\<rparr>"
  from inv have cmp: "compute_inv base (pl_compute p, pl_region p)" by (simp add: core_inv_def)
  from rep have link: "snapshot_link base g p" and buf: "buffer_link p" by (simp_all add: report_inv_def)
  have one: "length (cp_snaps (pl_compute p)) \<le> 1" using cmp by (simp add: compute_inv_def snapshot_inv_def)
  have wf: "tb_wf (l_snapshots (pl_region p))" using buf by (simp add: buffer_link_def)
  have "buffer_link ?q"
  proof (cases "pb_pc (pl_publish p) = PubConsume")
    case False
    with st buf show ?thesis by (auto simp: buffer_link_def split: publish_pc.splits if_splits)
  next
    case True
    show ?thesis
    proof (cases "tb_unread (l_snapshots (pl_region p))")
      case None
      with True st buf snapshot_buffer.take_none [OF wf] show ?thesis by (auto simp: buffer_link_def)
    next
      case (Some snap)
      then obtain b where "TripleBuffer_consume (l_snapshots (pl_region p)) = (True, b)" "TripleBuffer_read_slot b = snap"
          "tb_unread b = None" "tb_wf b"
        using snapshot_buffer.take_some [OF wf] by blast
      with True st have q: "pb = (pl_publish p)\<lparr>pb_last := snap, pb_have := True, pb_pc := PubBeat\<rparr>"
          "l_snapshots l = b" "tb_unread b = None" "tb_wf b" by auto
      have "cp_snaps (pl_compute p) = [snap]" "pb_out (pl_publish p) = None"
        using buf one True Some by (cases "cp_snaps (pl_compute p)"; auto simp: buffer_link_def)+
      with q show ?thesis by (simp add: buffer_link_def)
    qed
  qed
  with link publish_step_frame(4) [OF st] show ?thesis by (simp add: report_inv_def snapshot_link_def)
qed

lemma inv_shutdown:
  assumes st: "supervisor_shutdown p = Some q"
  shows "core_inv base left input p \<Longrightarrow> core_inv base left input q" and "report_inv base g p \<Longrightarrow> report_inv base g q"
proof -
  define l where "l = set_control (\<lambda>c. c\<lparr>c_shutdown := 1\<rparr>) (pl_region p)"
  from st have q: "q = p\<lparr>pl_region := l\<rparr>" and ok: "cp_exit (pl_compute p) = Some 0"
    by (auto simp: supervisor_shutdown_def l_def split: if_splits)
  show "core_inv base left input q" if inv: "core_inv base left input p"
  proof -
    have "compute_env (pl_compute p, pl_region p) (pl_compute p, l)"
      by (simp add: compute_env_def l_def stopped_def)
    moreover have "ingest_env (pl_ingest p, pl_region p) (pl_ingest p, l)"
      by (simp add: ingest_env_def l_def stopped_def)
    ultimately have "ingest_inv input (pl_ingest p, l)" "compute_inv base (pl_compute p, l)"
      using inv ingest_env_inv compute_env_inv by (auto simp: core_inv_def)
    with inv ok copied_cong [of l "pl_region p"] show ?thesis
      by (simp add: q core_inv_def ring_link_def flag_link_def done_link_def stages_done_def l_def)
  qed
  show "report_inv base g q" if "report_inv base g p"
    using that by (simp add: q report_inv_def snapshot_link_def buffer_link_def l_def)
qed

lemma core_inv_step:
  assumes "core_inv base left input p" and "pipeline_step getenv can_open p q"
  shows "core_inv base left input q"
  using assms(2)
  by cases (auto intro: assms(1) core_inv_ingest core_inv_compute core_inv_publish inv_shutdown(1))

lemma report_inv_step:
  assumes "core_inv base left input p" and "report_inv base g p" and "pipeline_step getenv can_open p q"
  shows "report_inv base g q"
  using assms(3)
proof cases
  case (pl_ingest_step ig l)
  with report_inv_ingest [OF assms(2)] show ?thesis by simp
next
  case (pl_compute_step cp l)
  with report_inv_compute [OF assms(1,2)] show ?thesis by simp
next
  case (pl_publish_step pb l)
  with report_inv_publish [OF assms(1,2)] show ?thesis by simp
qed (rule inv_shutdown(2) [OF _ assms(2)])

interpretation core_machine: step_machine "\<lambda>p. \<exists>l. p = pipeline_on input l \<and> region_ready base left l"
  "pipeline_step getenv can_open" "core_inv base left input" for base left input getenv can_open
  by unfold_locales (auto intro: core_inv_start core_inv_step)

interpretation report_machine: step_machine
  "\<lambda>p. \<exists>l. p = pipeline_on input l \<and> region_ready base left l \<and> snapshots_read l \<and> c_generation (l_control l) = g"
  "pipeline_step getenv can_open" "\<lambda>p. core_inv base left input p \<and> report_inv base g p"
  for base left input g getenv can_open
  by unfold_locales (auto intro: core_inv_start report_inv_start core_inv_step report_inv_step)

lemma pipeline_reachable:
  assumes "region_ready base left l" and "snapshots_read l"
    and "(pipeline_step getenv can_open)\<^sup>*\<^sup>* (pipeline_on input l) p"
  shows "core_inv base left input p" and "report_inv base (c_generation (l_control l)) p"
proof -
  have "\<exists>l'. pipeline_on input l = pipeline_on input l' \<and> region_ready base left l' \<and> snapshots_read l' \<and>
      c_generation (l_control l') = c_generation (l_control l)"
    using assms(1,2) by blast
  from report_machine.inv_reachable [OF this assms(3)]
  show "core_inv base left input p" "report_inv base (c_generation (l_control l)) p" by simp_all
qed

lemma pipeline_start_reachable:
  assumes "(pipeline_step getenv can_open)\<^sup>*\<^sup>* (pipeline_start input g) p"
  shows "core_inv no_rows [] input p" and "report_inv no_rows g p"
proof -
  define l where "l = pl_region (pipeline_start input g)"
  have "pipeline_start input g = pipeline_on input l" by (simp add: l_def pipeline_start_def pipeline_on_def)
  with assms have "(pipeline_step getenv can_open)\<^sup>*\<^sup>* (pipeline_on input l) p" by simp
  from pipeline_reachable [OF start_region(1,2) [of input g, folded l_def] this] start_region(3) [of input g, folded l_def]
  show "core_inv no_rows [] input p" "report_inv no_rows g p" by simp_all
qed

text \<open>What a report is, on any region a run can start on.\<close>

lemma report_final:
  assumes core: "core_inv base left input p" and rep: "report_inv base g p" and out: "pb_out (pl_publish p) = Some txt"
  shows "txt = publish_text (final_snapshot base g (cp_taken (pl_compute p)))"
    and "cp_fast (pl_compute p) = FastDone"
    and "cp_taken (pl_compute p) @ ring_items kRingCapacity (l_ring (pl_region p)) = left @ decode_all (replay_frames input)"
    and "snapshots_read (pl_region p)"
proof -
  from rep out have have1: "pb_have (pl_publish p)" and body: "txt = publish_text (pb_last (pl_publish p))"
    by (auto simp: report_inv_def buffer_link_def)
  moreover from core have "length (cp_snaps (pl_compute p)) \<le> 1" by (simp add: core_inv_def compute_inv_def snapshot_inv_def)
  ultimately obtain snap where "cp_snaps (pl_compute p) = [snap]"
    using rep by (cases "cp_snaps (pl_compute p)") (auto simp: report_inv_def buffer_link_def)
  with rep have1 have snap: "pb_last (pl_publish p) = snap" "cp_fast (pl_compute p) = FastDone"
      "snap = final_snapshot base g (cp_taken (pl_compute p))" "snapshots_read (pl_region p)"
    by (auto simp: report_inv_def buffer_link_def snapshot_link_def snapshots_read_def)
  then show "cp_fast (pl_compute p) = FastDone" "txt = publish_text (final_snapshot base g (cp_taken (pl_compute p)))"
    "snapshots_read (pl_region p)"
    using body by simp_all
  with core show "cp_taken (pl_compute p) @ ring_items kRingCapacity (l_ring (pl_region p)) = left @ decode_all (replay_frames input)"
    by (auto simp: core_inv_def ring_link_def flag_link_def)
qed

section \<open>Runs of one process\<close>

lemma ingest_runs:
  assumes "ingest_step\<^sup>*\<^sup>* (pl_ingest p, pl_region p) t"
  shows "(pipeline_step getenv can_open)\<^sup>*\<^sup>* p (p\<lparr>pl_ingest := fst t, pl_region := snd t\<rparr>)"
proof -
  have "pipeline_step getenv can_open (p\<lparr>pl_ingest := fst s, pl_region := snd s\<rparr>)
      (p\<lparr>pl_ingest := fst u, pl_region := snd u\<rparr>)" if "ingest_step s u" for s u
    using pl_ingest_step [of "p\<lparr>pl_ingest := fst s, pl_region := snd s\<rparr>" "fst u" "snd u"] that by simp
  from rtranclp_image [of ingest_step "pipeline_step getenv can_open" "\<lambda>s. p\<lparr>pl_ingest := fst s, pl_region := snd s\<rparr>", OF this assms]
  show ?thesis by simp
qed

lemma compute_runs:
  assumes "(compute_step getenv)\<^sup>*\<^sup>* (pl_compute p, pl_region p) t"
  shows "(pipeline_step getenv can_open)\<^sup>*\<^sup>* p (p\<lparr>pl_compute := fst t, pl_region := snd t\<rparr>)"
proof -
  have "pipeline_step getenv can_open (p\<lparr>pl_compute := fst s, pl_region := snd s\<rparr>)
      (p\<lparr>pl_compute := fst u, pl_region := snd u\<rparr>)" if "compute_step getenv s u" for s u
    using pl_compute_step [of getenv "p\<lparr>pl_compute := fst s, pl_region := snd s\<rparr>" "fst u" "snd u"] that by simp
  from rtranclp_image [of "compute_step getenv" "pipeline_step getenv can_open" "\<lambda>s. p\<lparr>pl_compute := fst s, pl_region := snd s\<rparr>", OF this assms]
  show ?thesis by simp
qed

lemma publish_runs:
  assumes "run_threads (replicate n (publish_step can_open)) (pl_publish p, pl_region p) = Some t"
  shows "(pipeline_step getenv can_open)\<^sup>*\<^sup>* p (p\<lparr>pl_publish := fst t, pl_region := snd t\<rparr>)"
proof -
  let ?r = "\<lambda>s u. publish_step can_open s = Some u"
  have "?r\<^sup>*\<^sup>* (pl_publish p, pl_region p) t" using assms by (rule run_threads_run [rotated]) simp
  moreover have "pipeline_step getenv can_open (p\<lparr>pl_publish := fst s, pl_region := snd s\<rparr>)
      (p\<lparr>pl_publish := fst u, pl_region := snd u\<rparr>)" if "?r s u" for s u
    using pl_publish_step [of can_open "p\<lparr>pl_publish := fst s, pl_region := snd s\<rparr>" "fst u" "snd u"] that by simp
  ultimately show ?thesis using rtranclp_image [of ?r "pipeline_step getenv can_open"
      "\<lambda>s. p\<lparr>pl_publish := fst s, pl_region := snd s\<rparr>"] by fastforce
qed

end
