(* ===== verification/Pipeline_Report.thy ===== *)
theory Pipeline_Report
  imports Pipeline
begin

text \<open>
  What one run of the whole program delivers, with concrete runs: a complete
  one, one that leaves a record behind, and one without a report.
\<close>

section \<open>Runs\<close>

text \<open>Ingest reads the file the generator writes by default, alone, to the end.\<close>

definition default_file :: "u8 list" where
  "default_file = concat (map wire_image default_records)"

definition ingest_turns :: "(ingest_local \<times> Layout \<Rightarrow> (ingest_local \<times> Layout) option) list" where
  "ingest_turns =
     [source_step, source_step, source_step, source_step, frames_step, frames_step, frames_step,
      source_step, source_step, source_step, source_step, frames_step, frames_step, frames_step,
      source_step, source_step, frames_step, ingest_main_step]"

lemma default_records_list: "default_records = [test_sample, test_sample\<lparr>r_sequence := 2\<rparr>]"
  by (simp add: default_records_def default_record_def test_sample_def Record_default_def upt_rec)

lemma decode_samples:
  "decode_frame (Some (wire_image test_sample)) 38 out = (Ok, test_sample)"
  "decode_frame (Some (wire_image (test_sample\<lparr>r_sequence := 2\<rparr>))) 38 out = (Ok, test_sample\<lparr>r_sequence := 2\<rparr>)"
  using decode_wire_image [of test_sample out] decode_wire_image [of "test_sample\<lparr>r_sequence := 2\<rparr>" out]
  by (simp_all add: test_sample_def kMaxSources_def kFrameBytes_def)

text \<open>A region on which the 5 ms thread has beaten at time \<open>b\<close>, or not at all (\<open>b = 0\<close>).\<close>

abbreviation beaten :: "u64 \<Rightarrow> Layout \<Rightarrow> Layout" where
  "beaten b \<equiv> set_control (\<lambda>c. c\<lparr>c_heartbeat_fast := b\<rparr>)"

lemma ingest_default:
  "\<exists>ig. run_threads ingest_turns (ingest_start (Some default_file), beaten b Layout_init) = Some (ig, beaten b demo_layout) \<and>
     ig_exit ig = Some 0"
  by (simp add: ingest_turns_def default_file_def default_records_list ingest_start_def read_frame_def kFrameBytes_def
      Layout_init_def ShmControl_default_def stopped_def BoundedQueue_init_def BoundedQueue_push_def push_ready_def
      BoundedQueue_pop_def pop_ready_def BoundedQueue_close_def kQueueCapacity_def decode_samples demo_layout_def demo_ring_def
      SpscRing_init_def SpscRing_try_push_def kRingCapacity_def kMask_def set_control_def)

lemma beaten_none: "beaten 0 Layout_init = Layout_init" "beaten 0 demo_layout = demo_layout"
  "set_control (\<lambda>c. c\<lparr>c_generation := 1\<rparr>) Layout_init = Layout_init"
  by (simp_all add: set_control_def demo_layout_def Layout_init_def ShmControl_default_def)

lemma ingest_default_run:
  obtains ig where "ingest_step\<^sup>*\<^sup>* (ingest_start (Some default_file), beaten b Layout_init) (ig, beaten b demo_layout)"
    and "ig_exit ig = Some 0"
proof -
  obtain ig where ig: "run_threads ingest_turns (ingest_start (Some default_file), beaten b Layout_init) =
      Some (ig, beaten b demo_layout)" "ig_exit ig = Some 0"
    using ingest_default by blast
  have "ingest_step\<^sup>*\<^sup>* (ingest_start (Some default_file), beaten b Layout_init) (ig, beaten b demo_layout)"
    using ig(1) by (rule run_threads_run [rotated]) (auto simp only: ingest_turns_def list.set insert_iff empty_iff
        intro: ingest_step.intros)
  with ig(2) that show thesis by blast
qed

text \<open>Publish after compute, and the report it writes.\<close>

lemma publish_after:
  assumes "l_snapshots l = TripleBuffer_publish (TripleBuffer_write_slot snap (TripleBuffer_init Snapshot_default))"
    and "c_compute_done (l_control l) = 1" and "c_shutdown (l_control l) = 0"
  shows "\<exists>pb l'. run_threads (replicate 5 (publish_step True)) (publish_start, l) = Some (pb, l') \<and>
    pb_out pb = Some (publish_text snap) \<and> pb_exit pb = Some 0 \<and> l_ring l' = l_ring l"
proof -
  have "tb_unread (l_snapshots l) = Some snap" "tb_wf (l_snapshots l)"
    using assms(1) snapshot_buffer.put_unread [OF tb_wf_init, of snap Snapshot_default] by (simp_all add: tb_put_def)
  from snapshot_buffer.take_some [OF this(2,1)]
  obtain b where "TripleBuffer_consume (l_snapshots l) = (True, b)" "TripleBuffer_read_slot b = snap" by blast
  moreover have "replicate 5 f = [f, f, f, f, f]" for f :: "publish_local \<times> Layout \<Rightarrow> (publish_local \<times> Layout) option"
    by (simp add: numeral_eq_Suc)
  ultimately show ?thesis using assms(2,3) by (simp add: publish_start_def)
qed

lemma publish_at_shutdown:
  assumes "c_shutdown (l_control l) = 1"
  shows "run_threads (replicate 2 (publish_step True)) (publish_start, l) =
    Some (publish_start\<lparr>pb_exit := Some 0, pb_pc := PubDone\<rparr>, l)"
  using assms by (simp add: numeral_eq_Suc publish_start_def)

lemma demo_text: "publish_text demo_snapshot = ''generation 1'' @ [newline] @ ''1 1020 0 2'' @ [newline]"
  by code_simp

text \<open>All three children have returned 0.\<close>

definition all_exited :: "pipeline \<Rightarrow> bool" where
  "all_exited p \<longleftrightarrow> ig_exit (pl_ingest p) = Some 0 \<and> cp_exit (pl_compute p) = Some 0 \<and> pb_exit (pl_publish p) = Some 0"

lemma computed_run:
  obtains p where "(pipeline_step no_pace True)\<^sup>*\<^sup>* (pipeline_start default_file 1) p"
    and "ig_exit (pl_ingest p) = Some 0" "cp_exit (pl_compute p) = Some 0" "pl_publish p = publish_start"
    and "cp_snaps (pl_compute p) = [demo_snapshot]"
    and "l_snapshots (pl_region p) = TripleBuffer_publish (TripleBuffer_write_slot demo_snapshot (TripleBuffer_init Snapshot_default))"
    and "c_compute_done (l_control (pl_region p)) = 1" "c_shutdown (l_control (pl_region p)) = 0"
    and "ring_items kRingCapacity (l_ring (pl_region p)) = []"
proof -
  let ?p0 = "pipeline_start default_file 1"
  obtain ig where ig: "ingest_step\<^sup>*\<^sup>* (pl_ingest ?p0, pl_region ?p0) (ig, demo_layout)" "ig_exit ig = Some 0"
    by (rule ingest_default_run [of 0]) (simp add: beaten_none pipeline_start_def pipeline_on_def)
  define p1 where "p1 = ?p0\<lparr>pl_ingest := ig, pl_region := demo_layout\<rparr>"
  from ingest_runs [OF ig(1)] have r1: "(pipeline_step no_pace True)\<^sup>*\<^sup>* ?p0 p1" by (simp add: p1_def)
  obtain cp l where cp: "demo_result = Some (cp, l)" "cp_exit cp = Some 0" "cp_snaps cp = [demo_snapshot]"
    "l_snapshots l = TripleBuffer_publish (TripleBuffer_write_slot demo_snapshot (TripleBuffer_init Snapshot_default))"
    "c_compute_done (l_control l) = 1" "c_shutdown (l_control l) = 0" "ring_items kRingCapacity (l_ring l) = []"
    by (rule demo_result_cases)
  have "(compute_step no_pace)\<^sup>*\<^sup>* (pl_compute p1, pl_region p1) (cp, l)"
    using cp(1) unfolding demo_result_def p1_def pipeline_start_def pipeline_on_def
    by (auto intro!: run_threads_run demo_schedule_steps)
  from compute_runs [OF this] have "(pipeline_step no_pace True)\<^sup>*\<^sup>* p1 (p1\<lparr>pl_compute := cp, pl_region := l\<rparr>)" by simp
  with r1 have "(pipeline_step no_pace True)\<^sup>*\<^sup>* ?p0 (p1\<lparr>pl_compute := cp, pl_region := l\<rparr>)" by (rule rtranclp_trans)
  then show thesis by (rule that) (use cp ig(2) in \<open>simp_all add: p1_def pipeline_start_def pipeline_on_def\<close>)
qed

lemma default_run:
  obtains p where "(pipeline_step no_pace True)\<^sup>*\<^sup>* (pipeline_start default_file 1) p" and "all_exited p"
    and "pb_out (pl_publish p) = Some (publish_text demo_snapshot)"
    and "ring_items kRingCapacity (l_ring (pl_region p)) = []"
proof -
  obtain p where p: "(pipeline_step no_pace True)\<^sup>*\<^sup>* (pipeline_start default_file 1) p"
    "ig_exit (pl_ingest p) = Some 0" "cp_exit (pl_compute p) = Some 0" "pl_publish p = publish_start"
    "l_snapshots (pl_region p) = TripleBuffer_publish (TripleBuffer_write_slot demo_snapshot (TripleBuffer_init Snapshot_default))"
    "c_compute_done (l_control (pl_region p)) = 1" "c_shutdown (l_control (pl_region p)) = 0"
    "ring_items kRingCapacity (l_ring (pl_region p)) = []"
    by (rule computed_run)
  from publish_after [OF p(5-7)] obtain pb l where pb:
    "run_threads (replicate 5 (publish_step True)) (pl_publish p, pl_region p) = Some (pb, l)"
    "pb_out pb = Some (publish_text demo_snapshot)" "pb_exit pb = Some 0" "l_ring l = l_ring (pl_region p)"
    using p(4) by auto
  from publish_runs [OF pb(1), of no_pace] p(1)
  have "(pipeline_step no_pace True)\<^sup>*\<^sup>* (pipeline_start default_file 1) (p\<lparr>pl_publish := pb, pl_region := l\<rparr>)" by simp
  then show thesis by (rule that) (use p pb in \<open>simp_all add: all_exited_def\<close>)
qed

text \<open>
  The same file, but the 5 ms thread finds the ring empty before ingest feeds it
  and looks at \<open>ingest_done\<close> after ingest has finished.
\<close>

definition late_start :: compute_local where
  "late_start = compute_start\<lparr>cp_fast := FastCheck 1 False\<rparr>"

definition late_schedule :: "(compute_local \<times> Layout \<Rightarrow> (compute_local \<times> Layout) option) list" where
  "late_schedule = replicate 2 (fast_step no_pace 1) @ replicate 68 (window_step no_pace 1 False) @
     replicate 70 (snapshot_step no_pace 1 False) @ [watchdog_step 1, compute_main_step]"

definition empty_snapshot :: Snapshot where
  "empty_snapshot = Snapshot_default\<lparr>sn_generation := 1\<rparr>"

lemma late_eval:
  "map_option (\<lambda>(cp, l). (cp_exit cp, l_snapshots l, c_compute_done (l_control l), c_shutdown (l_control l),
       ring_items kRingCapacity (l_ring l)))
     (run_threads late_schedule (late_start, beaten 1 demo_layout)) =
   Some (Some 0, TripleBuffer_publish (TripleBuffer_write_slot empty_snapshot (TripleBuffer_init Snapshot_default)),
     1, 0, default_records)"
  by code_simp

lemma late_prefix: "run_threads (replicate 4 (fast_step no_pace 1)) (compute_start, Layout_init) =
    Some (late_start, beaten 1 Layout_init)"
proof -
  have "replicate 4 f = [f, f, f, f]" for f :: "compute_local \<times> Layout \<Rightarrow> (compute_local \<times> Layout) option"
    by (simp add: numeral_eq_Suc)
  then show ?thesis
    by (simp add: compute_start_def late_start_def stopped_def Layout_init_def ShmControl_default_def set_control_def
        SpscRing_try_pop_def SpscRing_init_def)
qed

lemma empty_text: "publish_text empty_snapshot = ''generation 1'' @ [newline]"
  by code_simp

lemma late_schedule_steps: "f \<in> set late_schedule \<Longrightarrow> f s = Some t \<Longrightarrow> compute_step no_pace s t"
  unfolding late_schedule_def set_append Un_iff set_replicate_conv_if list.set
  by (auto simp only: insert_iff empty_iff if_True if_False numeral_eq_Suc nat.distinct simp_thms
      intro: cs_fast cs_window cs_snapshot cs_watchdog cs_main split: if_splits)

lemma late_run:
  "\<exists>p. (pipeline_step no_pace True)\<^sup>*\<^sup>* (pipeline_start default_file 1) p \<and> all_exited p \<and>
     pb_out (pl_publish p) = Some (publish_text empty_snapshot) \<and>
     ring_items kRingCapacity (l_ring (pl_region p)) = default_records"
proof -
  define p0 where "p0 = pipeline_start default_file 1"
  define p1 where "p1 = p0\<lparr>pl_compute := late_start, pl_region := beaten 1 Layout_init\<rparr>"
  have start: "pl_ingest p0 = ingest_start (Some default_file)" "pl_compute p0 = compute_start"
    "pl_publish p0 = publish_start" "pl_region p0 = Layout_init"
    by (simp_all add: p0_def pipeline_start_def pipeline_on_def beaten_none)
  have "(compute_step no_pace)\<^sup>*\<^sup>* (pl_compute p0, pl_region p0) (late_start, beaten 1 Layout_init)"
    unfolding start by (rule run_threads_run [OF _ late_prefix]) (auto intro: cs_fast)
  from compute_runs [OF this] have r1: "(pipeline_step no_pace True)\<^sup>*\<^sup>* p0 p1" by (simp add: p1_def)
  obtain ig where ig: "ingest_step\<^sup>*\<^sup>* (pl_ingest p1, pl_region p1) (ig, beaten 1 demo_layout)" "ig_exit ig = Some 0"
    by (rule ingest_default_run [of 1]) (simp add: p1_def start)
  define p2 where "p2 = p1\<lparr>pl_ingest := ig, pl_region := beaten 1 demo_layout\<rparr>"
  from ingest_runs [OF ig(1)] have r2: "(pipeline_step no_pace True)\<^sup>*\<^sup>* p1 p2" by (simp add: p2_def)
  obtain cp l where cp: "run_threads late_schedule (late_start, beaten 1 demo_layout) = Some (cp, l)" "cp_exit cp = Some 0"
    "l_snapshots l = TripleBuffer_publish (TripleBuffer_write_slot empty_snapshot (TripleBuffer_init Snapshot_default))"
    "c_compute_done (l_control l) = 1" "c_shutdown (l_control l) = 0" "ring_items kRingCapacity (l_ring l) = default_records"
    using late_eval by (cases "run_threads late_schedule (late_start, beaten 1 demo_layout)") (auto simp: prod_eq_iff)
  define p3 where "p3 = p2\<lparr>pl_compute := cp, pl_region := l\<rparr>"
  have "(compute_step no_pace)\<^sup>*\<^sup>* (late_start, beaten 1 demo_layout) (cp, l)"
    by (rule run_threads_run [OF late_schedule_steps cp(1)])
  then have "(compute_step no_pace)\<^sup>*\<^sup>* (pl_compute p2, pl_region p2) (cp, l)" by (simp add: p2_def p1_def)
  from compute_runs [OF this] have r3: "(pipeline_step no_pace True)\<^sup>*\<^sup>* p2 p3" by (simp add: p3_def)
  from publish_after [OF cp(3-5)] obtain pb l' where pb:
    "run_threads (replicate 5 (publish_step True)) (publish_start, l) = Some (pb, l')"
    "pb_out pb = Some (publish_text empty_snapshot)" "pb_exit pb = Some 0" "l_ring l' = l_ring l" by blast
  have "run_threads (replicate 5 (publish_step True)) (pl_publish p3, pl_region p3) = Some (pb, l')"
    using pb(1) by (simp add: p3_def p2_def p1_def start)
  from publish_runs [OF this] have "(pipeline_step no_pace True)\<^sup>*\<^sup>* p3 (p3\<lparr>pl_publish := pb, pl_region := l'\<rparr>)" by simp
  with r1 r2 r3 have "(pipeline_step no_pace True)\<^sup>*\<^sup>* p0 (p3\<lparr>pl_publish := pb, pl_region := l'\<rparr>)"
    by (meson rtranclp_trans)
  then show ?thesis using ig(2) cp pb
    by (intro exI [of _ "p3\<lparr>pl_publish := pb, pl_region := l'\<rparr>"]) (simp add: p0_def all_exited_def p3_def p2_def)
qed

lemma unreported_run:
  "\<exists>p. (pipeline_step no_pace True)\<^sup>*\<^sup>* (pipeline_start default_file 1) p \<and> all_exited p \<and>
     pb_out (pl_publish p) = None \<and> cp_snaps (pl_compute p) = [demo_snapshot] \<and> \<not> pb_have (pl_publish p) \<and>
     stopped (l_control (pl_region p))"
proof -
  obtain p where p: "(pipeline_step no_pace True)\<^sup>*\<^sup>* (pipeline_start default_file 1) p"
    "ig_exit (pl_ingest p) = Some 0" "cp_exit (pl_compute p) = Some 0" "pl_publish p = publish_start"
    "cp_snaps (pl_compute p) = [demo_snapshot]"
    by (rule computed_run)
  define q where "q = p\<lparr>pl_region := set_control (\<lambda>c. c\<lparr>c_shutdown := 1\<rparr>) (pl_region p)\<rparr>"
  have r1: "pipeline_step no_pace True p q" by (rule pl_shutdown) (simp add: supervisor_shutdown_def p(3) q_def)
  have "run_threads (replicate 2 (publish_step True)) (pl_publish q, pl_region q) =
      Some (publish_start\<lparr>pb_exit := Some 0, pb_pc := PubDone\<rparr>, pl_region q)"
    using publish_at_shutdown [of "pl_region q"] by (simp add: q_def p(4))
  from publish_runs [OF this, of no_pace]
  have "(pipeline_step no_pace True)\<^sup>*\<^sup>* q
      (q\<lparr>pl_publish := publish_start\<lparr>pb_exit := Some 0, pb_pc := PubDone\<rparr>, pl_region := pl_region q\<rparr>)" by simp
  with p(1) r1 have "(pipeline_step no_pace True)\<^sup>*\<^sup>* (pipeline_start default_file 1)
      (q\<lparr>pl_publish := publish_start\<lparr>pb_exit := Some 0, pb_pc := PubDone\<rparr>, pl_region := pl_region q\<rparr>)"
    by (meson rtranclp_trans r_into_rtranclp)
  with p show ?thesis
    by (intro exI conjI) (assumption, simp_all add: all_exited_def q_def publish_start_def stopped_def)
qed

section \<open>Properties\<close>

text \<open>
  (C1) The report, end to end. Under every interleaving of ingest, compute, publish and the
  supervisor's shutdown, whatever publish writes is the text of the snapshot
  that the records compute took give to the 64 sources; these records are the
  records of the whole, accepted frames of the replay file, in order, except
  for those still left in the ring. With an empty ring the report is the exact
  function of the replay file.
\<close>

theorem pipeline_report:
  assumes "(pipeline_step getenv can_open)\<^sup>*\<^sup>* (pipeline_start input g) p" and "pb_out (pl_publish p) = Some txt"
  shows "\<exists>rs. decode_all (replay_frames input) = rs @ ring_items kRingCapacity (l_ring (pl_region p)) \<and>
    txt = publish_text \<lparr>sn_generation = g, sn_rows = map (\<lambda>i. window_of (track rs i)) [0..<64]\<rparr>"
proof -
  note final = report_final(1,3) [OF pipeline_start_reachable [OF assms(1)] assms(2)]
  show ?thesis
    by (intro exI [of _ "cp_taken (pl_compute p)"]) (use final in \<open>simp add: final_snapshot_def\<close>)
qed

theorem pipeline_report_witness:
  "\<exists>p. (pipeline_step no_pace True)\<^sup>*\<^sup>* (pipeline_start default_file 1) p \<and> all_exited p \<and>
     pb_out (pl_publish p) = Some (''generation 1'' @ [newline] @ ''1 1020 0 2'' @ [newline]) \<and>
     ''generation 1'' @ [newline] @ ''1 1020 0 2'' @ [newline] =
       publish_text \<lparr>sn_generation = 1, sn_rows = map (\<lambda>i. window_of (track (decode_all (replay_frames default_file)) i)) [0..<64]\<rparr>"
proof -
  obtain p where p: "(pipeline_step no_pace True)\<^sup>*\<^sup>* (pipeline_start default_file 1) p" "all_exited p"
    "pb_out (pl_publish p) = Some (publish_text demo_snapshot)" "ring_items kRingCapacity (l_ring (pl_region p)) = []"
    by (rule default_run)
  with pipeline_report [OF p(1,3)] show ?thesis by (intro exI [of _ p]) (auto simp: demo_text)
qed

text \<open>
  Records are conserved: at every moment, what compute has taken followed by what is
  in the ring is exactly what ingest has fed, and that is a prefix of the
  decoded replay file.
\<close>

theorem pipeline_conserves:
  assumes "(pipeline_step getenv can_open)\<^sup>*\<^sup>* (pipeline_start input g) p"
  shows "cp_taken (pl_compute p) @ ring_items kRingCapacity (l_ring (pl_region p)) = ig_fed (pl_ingest p) \<and>
    prefix (ig_fed (pl_ingest p)) (decode_all (replay_frames input))"
  using pipeline_start_reachable(1) [OF assms] ingest_inv_prefix by (auto simp: core_inv_def ring_link_def)

theorem pipeline_conserves_witness:
  "\<exists>p. (pipeline_step no_pace True)\<^sup>*\<^sup>* (pipeline_start default_file 1) p \<and>
     cp_taken (pl_compute p) = ig_fed (pl_ingest p) \<and> prefix (ig_fed (pl_ingest p)) default_records"
proof -
  obtain p where p: "(pipeline_step no_pace True)\<^sup>*\<^sup>* (pipeline_start default_file 1) p"
    "ring_items kRingCapacity (l_ring (pl_region p)) = []"
    by (rule default_run)
  with pipeline_conserves [OF p(1)] show ?thesis
    by (intro exI [of _ p]) (simp add: default_file_def replay_frames_image decode_all_image default_records_wf)
qed

text \<open>
  (C27) A run may succeed and still lose records. The 5 ms thread leaves its loop when a pop
  failed and \<open>ingest_done\<close> is set afterwards; if ingest feeds the ring in between, the
  records stay there: on the default replay file there is a run in which all
  three processes exit with 0, the report has no row at all, and both records
  are still in the ring.
\<close>

theorem pipeline_drops_records:
  "\<exists>p. (pipeline_step no_pace True)\<^sup>*\<^sup>* (pipeline_start default_file 1) p \<and>
     ig_exit (pl_ingest p) = Some 0 \<and> cp_exit (pl_compute p) = Some 0 \<and> pb_exit (pl_publish p) = Some 0 \<and>
     pb_out (pl_publish p) = Some (''generation 1'' @ [newline]) \<and>
     ring_items kRingCapacity (l_ring (pl_region p)) = default_records"
  using late_run by (auto simp: all_exited_def empty_text)

text \<open>
  A run may succeed and write no report: publish looks at the shutdown before it looks
  for a snapshot, so when the supervisor stores the shutdown first, all three
  processes exit with 0 and the snapshot compute published is never written.
\<close>

theorem pipeline_no_report:
  "\<exists>p. (pipeline_step no_pace True)\<^sup>*\<^sup>* (pipeline_start default_file 1) p \<and>
     ig_exit (pl_ingest p) = Some 0 \<and> cp_exit (pl_compute p) = Some 0 \<and> pb_exit (pl_publish p) = Some 0 \<and>
     pb_out (pl_publish p) = None \<and> cp_snaps (pl_compute p) = [demo_snapshot]"
  using unreported_run by (auto simp: all_exited_def)

end
