(* ===== verification/Completion.thy ===== *)
theory Completion
  imports Pipeline_Report
begin

text \<open>
  Every run of the pipeline can be completed: from each reachable state ingest,
  compute and publish can all be brought to their exits. Ranks bound the steps
  each of them still needs; ingest may have to wait for the 5 ms thread to make
  room in the ring.
\<close>

section \<open>Steps of ingest and compute\<close>

text \<open>The steps of compute while the clock reads \<open>now\<close>.\<close>

inductive compute_at :: "(string \<Rightarrow> string option) \<Rightarrow> u64 \<Rightarrow> compute_local \<times> Layout \<Rightarrow> compute_local \<times> Layout \<Rightarrow> bool" for getenv now where
  at_fast: "fast_step getenv now s = Some t \<Longrightarrow> compute_at getenv now s t"
| at_window: "window_step getenv now False s = Some t \<Longrightarrow> compute_at getenv now s t"
| at_snapshot: "snapshot_step getenv now False s = Some t \<Longrightarrow> compute_at getenv now s t"
| at_watchdog: "watchdog_step now s = Some t \<Longrightarrow> compute_at getenv now s t"
| at_main: "compute_main_step s = Some t \<Longrightarrow> compute_at getenv now s t"

lemma compute_at_step: "compute_at getenv now s t \<Longrightarrow> compute_step getenv s t"
  by (cases rule: compute_at.cases) (blast intro: cs_fast cs_window cs_snapshot cs_watchdog cs_main)+

inductive work_step :: "(string \<Rightarrow> string option) \<Rightarrow> u64 \<Rightarrow> pipeline \<Rightarrow> pipeline \<Rightarrow> bool" for getenv now where
  work_ingest: "ingest_step (pl_ingest p, pl_region p) (ig, l) \<Longrightarrow>
    work_step getenv now p (p\<lparr>pl_ingest := ig, pl_region := l\<rparr>)"
| work_compute: "compute_at getenv now (pl_compute p, pl_region p) (cp, l) \<Longrightarrow>
    work_step getenv now p (p\<lparr>pl_compute := cp, pl_region := l\<rparr>)"

lemma work_step_pipeline: "work_step getenv now p q \<Longrightarrow> pipeline_step getenv can_open p q"
  by (cases rule: work_step.cases) (auto intro: pipeline_step.intros compute_at_step)

lemma work_steps_pipeline: "(work_step getenv now)\<^sup>*\<^sup>* p q \<Longrightarrow> (pipeline_step getenv can_open)\<^sup>*\<^sup>* p q"
  by (rule rtranclp_image [of "work_step getenv now" _ id, simplified]) (rule work_step_pipeline)

lemma work_steps_publish: "(work_step getenv now)\<^sup>*\<^sup>* p q \<Longrightarrow> pl_publish q = pl_publish p"
  by (induction rule: rtranclp_induct) (auto elim: work_step.cases)

section \<open>Ingest\<close>

fun source_rank :: "source_pc \<Rightarrow> nat \<Rightarrow> nat" where
  "source_rank SrcRead n = 10 * n + 2"
| "source_rank (SrcCheck frame) n = 10 * n + 11"
| "source_rank (SrcPush frame) n = 10 * n + 10"
| "source_rank SrcBeat n = 10 * n + 3"
| "source_rank SrcClose n = 1"
| "source_rank SrcDone n = 0"

fun frames_rank :: "frames_pc \<Rightarrow> nat" where
  "frames_rank FrmPop = 1"
| "frames_rank (FrmDecode frame) = 6"
| "frames_rank (FrmPush record) = 4"
| "frames_rank (FrmFull record) = 5"
| "frames_rank FrmDone = 0"

definition ingest_rank :: "ingest_local \<Rightarrow> nat" where
  "ingest_rank ig = source_rank (ig_src ig) (length (replay_frames (ig_in ig))) + 6 * bq_size (ig_queue ig) +
     frames_rank (ig_frm ig) + (if ig_exit ig = None then 1 else 0)"

lemma length_replay_frames_read:
  "read_frame bytes = Some (frame, rest) \<Longrightarrow> length (replay_frames bytes) = Suc (length (replay_frames rest))"
  by (simp add: replay_frames_read)

text \<open>A source thread that is not blocked gets closer to its end.\<close>

lemma source_advance:
  assumes "ig_src ig \<noteq> SrcDone" and "\<not> stopped (l_control l)" and "\<not> bq_closed (ig_queue ig)"
    and "(\<exists>frame. ig_src ig = SrcPush frame) \<longrightarrow> bq_size (ig_queue ig) < kQueueCapacity"
  shows "\<exists>t. source_step (ig, l) = Some t \<and> ingest_rank (fst t) < ingest_rank ig"
proof (cases "ig_src ig")
  case SrcRead
  then show ?thesis
    by (cases "read_frame (ig_in ig)") (auto simp: ingest_rank_def length_replay_frames_read)
next
  case (SrcPush frame)
  with assms(3,4) show ?thesis by (simp add: BoundedQueue_push_def push_ready_def ingest_rank_def)
qed (use assms in \<open>simp_all add: ingest_rank_def BoundedQueue_close_def\<close>)

text \<open>So does a frame thread that is not blocked and finds room in the ring.\<close>

lemma frames_advance:
  assumes "ig_frm ig \<noteq> FrmDone" and "ig_frm ig = FrmPop \<longrightarrow> bq_closed (ig_queue ig) \<or> bq_size (ig_queue ig) \<noteq> 0"
    and "ring_wf kRingCapacity (l_ring l)" and "length (ring_items kRingCapacity (l_ring l)) < unat kRingCapacity - 1"
  shows "\<exists>t. frames_step (ig, l) = Some t \<and> ingest_rank (fst t) < ingest_rank ig"
proof (cases "ig_frm ig")
  case FrmPop
  with assms(2) show ?thesis
    by (cases "bq_size (ig_queue ig) = 0")
      (auto simp: BoundedQueue_pop_def pop_ready_def ingest_rank_def)
next
  case (FrmDecode frame)
  then show ?thesis by (auto simp: ingest_rank_def split: prod.split)
next
  case (FrmPush r)
  from ring_push_room [OF assms(3,4), of r] obtain ring where "SpscRing_try_push kRingCapacity r (l_ring l) = (True, ring)"
    by blast
  with FrmPush show ?thesis by (simp add: ingest_rank_def)
next
  case (FrmFull r)
  then show ?thesis by (cases "stopped (l_control l)") (simp_all add: ingest_rank_def)
qed (use assms(1) in simp)

lemma ingest_advance:
  assumes inv: "ingest_inv input (ig, l)" and run: "ig_exit ig = None" "\<not> stopped (l_control l)"
    and room: "ring_wf kRingCapacity (l_ring l)" "length (ring_items kRingCapacity (l_ring l)) < unat kRingCapacity - 1"
  shows "\<exists>t. ingest_step (ig, l) t \<and> ingest_rank (fst t) < ingest_rank ig"
proof -
  have wf: "bq_wf kQueueCapacity (ig_queue ig)" and closed: "bq_closed (ig_queue ig) \<longleftrightarrow> ig_src ig = SrcDone"
    and ended: "ig_frm ig = FrmDone \<longrightarrow> bq_closed (ig_queue ig)"
    using inv run by (auto simp: ingest_inv_def source_inv_def frames_inv_def)
  show ?thesis
  proof (cases "ig_src ig = SrcDone")
    case True
    show ?thesis
    proof (cases "ig_frm ig = FrmDone")
      case both: True
      with True run show ?thesis
        by (intro exI [of _ "(ig\<lparr>ig_exit := Some 0\<rparr>, l\<lparr>l_control := (l_control l)\<lparr>c_ingest_done := 1\<rparr>\<rparr>)"])
          (simp add: ingest_rank_def is_main)
    next
      case False
      have "ig_frm ig = FrmPop \<longrightarrow> bq_closed (ig_queue ig) \<or> bq_size (ig_queue ig) \<noteq> 0" using True closed by simp
      from frames_advance [OF False this room] show ?thesis by (blast intro: is_frames)
    qed
  next
    case False
    then have open': "\<not> bq_closed (ig_queue ig)" using closed by simp
    show ?thesis
    proof (cases "(\<exists>frame. ig_src ig = SrcPush frame) \<and> bq_size (ig_queue ig) = kQueueCapacity")
      case True
      with ended open' have "ig_frm ig \<noteq> FrmDone" by blast
      moreover have "ig_frm ig = FrmPop \<longrightarrow> bq_closed (ig_queue ig) \<or> bq_size (ig_queue ig) \<noteq> 0"
        using True by (simp add: kQueueCapacity_def)
      ultimately show ?thesis using frames_advance [OF _ _ room] by (blast intro: is_frames)
    next
      case nonfull: False
      have "bq_size (ig_queue ig) \<le> kQueueCapacity" using wf by (simp add: bq_wf_def)
      with nonfull have "(\<exists>frame. ig_src ig = SrcPush frame) \<longrightarrow> bq_size (ig_queue ig) < kQueueCapacity" by auto
      from source_advance [OF False run(2) open' this] show ?thesis by (blast intro: is_source)
    qed
  qed
qed

section \<open>Making room in the ring\<close>

text \<open>The steps of the 5 ms thread before its next pop.\<close>

fun pop_rank :: "fast_pc \<Rightarrow> nat" where
  "pop_rank (FastPop started drained) = 1"
| "pop_rank FastStart = 2"
| "pop_rank FastBeat = 3"
| "pop_rank FastTest = 4"
| "pop_rank (FastCheck started drained) = 5"
| "pop_rank (FastBeatCompute started n) = 2"
| "pop_rank (FastPublish started sid st) = 3"
| "pop_rank (FastHandle started rec) = 4"
| "pop_rank FastStore = 0"
| "pop_rank FastDone = 0"

definition has_room :: "pipeline \<Rightarrow> bool" where
  "has_room p \<longleftrightarrow> length (ring_items kRingCapacity (l_ring (pl_region p))) < unat kRingCapacity - 1"

definition feeding :: "(nat \<Rightarrow> SourceState) \<Rightarrow> Record list \<Rightarrow> u8 list \<Rightarrow> ingest_local \<Rightarrow> pipeline \<Rightarrow> bool" where
  "feeding base left input ig p \<longleftrightarrow> core_inv base left input p \<and> pl_ingest p = ig \<and> ig_exit ig = None"

lemma feeding_running:
  assumes "feeding base left input ig p"
  shows "\<not> stopped (l_control (pl_region p))" and "c_ingest_done (l_control (pl_region p)) = 0"
    and "cp_fast (pl_compute p) \<notin> {FastStore, FastDone}" and "ring_wf kRingCapacity (l_ring (pl_region p))"
proof -
  from assms show fast: "cp_fast (pl_compute p) \<notin> {FastStore, FastDone}"
    and "c_ingest_done (l_control (pl_region p)) = 0" and "ring_wf kRingCapacity (l_ring (pl_region p))"
    by (auto simp: feeding_def core_inv_def flag_link_def ring_link_def)
  have "cp_exit (pl_compute p) = None"
    using assms fast by (auto simp: feeding_def core_inv_def compute_inv_def snapshot_inv_def)
  with assms show "\<not> stopped (l_control (pl_region p))" by (auto simp: feeding_def core_inv_def flag_link_def)
qed

lemma fast_step_nearer:
  assumes "\<not> stopped (l_control l)" and "c_ingest_done (l_control l) = 0" and "cp_fast cp \<notin> {FastStore, FastDone}"
    and "\<nexists>started drained. cp_fast cp = FastPop started drained"
    and "fast_step getenv now (cp, l) = Some (cp', l')"
  shows "pop_rank (cp_fast cp') < pop_rank (cp_fast cp)"
  using assms by (cases "cp_fast cp") (auto split: option.splits prod.splits if_splits)

lemma fast_pop_room:
  assumes "cp_fast cp = FastPop started drained" and "ring_wf kRingCapacity (l_ring l)"
    and "ring_items kRingCapacity (l_ring l) \<noteq> []" and "fast_step getenv now (cp, l) = Some (cp', l')"
  shows "length (ring_items kRingCapacity (l_ring l')) < length (ring_items kRingCapacity (l_ring l))"
  using assms(2)
  by (cases rule: pop_cases) (use assms in \<open>auto simp del: length_ring_items\<close>)

interpretation room: ranked_goal "work_step getenv now" "feeding base left input ig" has_room
  "\<lambda>p. if has_room p then 0 else pop_rank (cp_fast (pl_compute p))" for getenv now base left input ig
proof
  fix p assume feed: "feeding base left input ig p" and full: "\<not> has_room p"
  note run = feeding_running [OF feed]
  from run(3) obtain cp l where st: "fast_step getenv now (pl_compute p, pl_region p) = Some (cp, l)"
    using fast_step_progress [of "pl_compute p" getenv now "pl_region p"] by auto
  define q where "q = p\<lparr>pl_compute := cp, pl_region := l\<rparr>"
  have comp: "compute_at getenv now (pl_compute p, pl_region p) (cp, l)" using st by (rule at_fast)
  then have step: "work_step getenv now p q" by (simp add: q_def work_compute)
  have "core_inv base left input q" using core_inv_compute [OF _ compute_at_step [OF comp]] feed by (simp add: feeding_def q_def)
  then have good: "feeding base left input ig q" using feed by (simp add: feeding_def q_def)
  have items: "length (ring_items kRingCapacity (l_ring (pl_region p))) = unat kRingCapacity - 1"
    using record_ring.items_bounded [OF run(4)] full by (simp add: has_room_def)
  then have some: "ring_items kRingCapacity (l_ring (pl_region p)) \<noteq> []" by (auto simp: kRingCapacity_def simp del: length_ring_items)
  have "has_room q \<or> pop_rank (cp_fast cp) < pop_rank (cp_fast (pl_compute p))"
  proof (cases "\<exists>started drained. cp_fast (pl_compute p) = FastPop started drained")
    case True
    with fast_pop_room [OF _ run(4) some st] items show ?thesis by (auto simp: has_room_def q_def)
  next
    case False
    from fast_step_nearer [OF run(1-3) False st] show ?thesis ..
  qed
  moreover have "0 < pop_rank (cp_fast (pl_compute p))" using run(3) by (cases "cp_fast (pl_compute p)") auto
  ultimately show "\<exists>q. (work_step getenv now)\<^sup>*\<^sup>* p q \<and> feeding base left input ig q \<and>
      (if has_room q then 0 else pop_rank (cp_fast (pl_compute q))) <
      (if has_room p then 0 else pop_rank (cp_fast (pl_compute p)))"
    using step good full by (intro exI [of _ q]) (auto simp: q_def)
qed

interpretation ingest_ends: ranked_goal "work_step getenv now" "core_inv base left input" "\<lambda>p. ig_exit (pl_ingest p) \<noteq> None"
  "\<lambda>p. ingest_rank (pl_ingest p)" for getenv now base left input
proof
  fix p assume inv: "core_inv base left input p" and "\<not> ig_exit (pl_ingest p) \<noteq> None"
  then have feed: "feeding base left input (pl_ingest p) p" by (simp add: feeding_def)
  from room.goal_reachable [OF this, of getenv now] obtain q where q: "(work_step getenv now)\<^sup>*\<^sup>* p q"
      "feeding base left input (pl_ingest p) q" "has_room q" by blast
  note run = feeding_running [OF q(2)]
  have "ingest_inv input (pl_ingest q, pl_region q)" "pl_ingest q = pl_ingest p" "ig_exit (pl_ingest q) = None"
    using q(2) by (auto simp: feeding_def core_inv_def)
  from ingest_advance [OF this(1,3) run(1,4)] q(3) this(2) obtain ig l where
    t: "ingest_step (pl_ingest q, pl_region q) (ig, l)" "ingest_rank ig < ingest_rank (pl_ingest p)"
    by (auto simp: has_room_def)
  define r where "r = q\<lparr>pl_ingest := ig, pl_region := l\<rparr>"
  have "core_inv base left input r" using core_inv_ingest [OF _ t(1)] q(2) by (simp add: feeding_def r_def)
  moreover have "work_step getenv now q r" using t(1) by (simp add: r_def work_ingest)
  ultimately show "\<exists>r. (work_step getenv now)\<^sup>*\<^sup>* p r \<and> core_inv base left input r \<and>
      ingest_rank (pl_ingest r) < ingest_rank (pl_ingest p)"
    using q(1) t(2) by (intro exI [of _ r]) (auto simp: r_def intro: rtranclp.rtrancl_into_rtrancl)
qed

section \<open>Compute\<close>

fun window_rank :: "window_pc \<Rightarrow> nat" where
  "window_rank WinDone = 0"
| "window_rank WinStore = 1"
| "window_rank WinBeatEnd = 2"
| "window_rank (WinPublish None i w) = 2 * (64 - i) + 2"
| "window_rank (WinScan None i) = 2 * (64 - i) + 3"
| "window_rank WinTest = 132"
| "window_rank (WinPublish (Some started) i w) = 2 * (64 - i) + 132"
| "window_rank (WinScan (Some started) i) = 2 * (64 - i) + 133"
| "window_rank WinStart = 262"
| "window_rank WinBeat = 263"

fun snapshot_rank :: "snapshot_pc \<Rightarrow> nat" where
  "snapshot_rank SnapDone = 0"
| "snapshot_rank SnapStore = 1"
| "snapshot_rank SnapBeatEnd = 2"
| "snapshot_rank (SnapPublish snap) = 3"
| "snapshot_rank (SnapRow snap i) = 64 - i + 4"
| "snapshot_rank SnapGeneration = 69"
| "snapshot_rank SnapTest = 70"
| "snapshot_rank (SnapCycle started) = 71"
| "snapshot_rank SnapStart = 72"
| "snapshot_rank SnapBeat = 73"

fun watchdog_rank :: "watchdog_pc \<Rightarrow> nat" where
  "watchdog_rank DogDone = 0"
| "watchdog_rank DogTest = 1"
| "watchdog_rank DogCheck = 2"

definition compute_rank :: "compute_local \<times> Layout \<Rightarrow> nat" where
  "compute_rank s = fast_left s + window_rank (cp_window (fst s)) + snapshot_rank (cp_snapshot (fst s)) +
     watchdog_rank (cp_watchdog (fst s)) + (if cp_exit (fst s) = None then 1 else 0)"

text \<open>Once the stage before it is done, each thread finishes.\<close>

lemma window_advance:
  assumes "cp_window cp \<noteq> WinDone" and "c_fast_done (l_control l) \<noteq> 0" and "window_inv base cp l"
  shows "\<exists>cp' l'. window_step getenv now False (cp, l) = Some (cp', l') \<and> window_rank (cp_window cp') < window_rank (cp_window cp) \<and>
    cp_watchdog cp' = cp_watchdog cp"
proof (cases "cp_window cp")
  case (WinScan cycle i)
  obtain n a where "finish_cycle getenv (c_overrun_window (l_control l)) (now - the cycle) kWindowPeriodNs = Some (n, a)"
    using finish_cycle_total [of getenv _ "now - the cycle" kWindowPeriodNs] by fastforce
  with WinScan show ?thesis by (cases cycle) (auto split: prod.split)
next
  case (WinPublish cycle i w)
  with assms(3) have "i < 64" by (auto simp: window_inv_def)
  with WinPublish show ?thesis by (cases cycle) auto
qed (use assms(1,2) in auto)

lemma snapshot_advance:
  assumes "cp_snapshot cp \<noteq> SnapDone" and "c_window_done (l_control l) \<noteq> 0"
  shows "\<exists>cp' l'. snapshot_step getenv now False (cp, l) = Some (cp', l') \<and>
    snapshot_rank (cp_snapshot cp') < snapshot_rank (cp_snapshot cp) \<and> cp_watchdog cp' = cp_watchdog cp"
proof (cases "cp_snapshot cp")
  case (SnapCycle started)
  obtain n a where "finish_cycle getenv (c_overrun_snapshot (l_control l)) (now - started) kSnapshotPeriodNs = Some (n, a)"
    using finish_cycle_total [of getenv _ "now - started" kSnapshotPeriodNs] by fastforce
  with SnapCycle show ?thesis by auto
next
  case (SnapRow snap i)
  then show ?thesis by (auto split: prod.split)
qed (use assms in auto)

lemma watchdog_advance:
  assumes "cp_watchdog cp \<noteq> DogDone" and "c_snapshot_done (l_control l) \<noteq> 0"
  shows "\<exists>pc l'. watchdog_step now (cp, l) = Some (cp\<lparr>cp_watchdog := pc\<rparr>, l') \<and> watchdog_rank pc < watchdog_rank (cp_watchdog cp) \<and>
    l_ring l' = l_ring l"
proof (cases "cp_watchdog cp")
  case DogCheck
  obtain f where "watchdog_fault now (l_control l) = Some f" by (simp add: watchdog_fault_def late_def stall_limits)
  with DogCheck show ?thesis by auto
qed (use assms in auto)

lemma fast_step_watchdog:
  "fast_step getenv now (cp, l) = Some (cp', l') \<Longrightarrow> cp_watchdog cp' = cp_watchdog cp"
  by (auto split: fast_pc.splits if_splits option.splits prod.splits bool.splits)

lemma compute_advance:
  assumes inv: "compute_inv base (cp, l)" and fin: "ingest_finished l" and flags: "stages_done cp (l_control l)"
    and run: "cp_exit cp = None"
  shows "\<exists>t. compute_at getenv now (cp, l) t \<and> compute_rank t < compute_rank (cp, l)"
proof (cases "cp_fast cp = FastDone")
  case False
  then obtain cp' l' where st: "fast_step getenv now (cp, l) = Some (cp', l')"
    using fast_step_progress [OF False, of getenv now l] by auto
  with fast_left_step [OF fin st] fast_step_frame [OF st] fast_step_watchdog [OF st]
  have "compute_rank (cp', l') < compute_rank (cp, l)" by (simp add: compute_rank_def)
  with at_fast [OF st] show ?thesis by blast
next
  case fast: True
  have left: "fast_left (cp', l') = fast_left (cp, l)" if "cp_fast cp' = cp_fast cp" "l_ring l' = l_ring l" for cp' l'
    using that by (simp add: fast_left_def)
  show ?thesis
  proof (cases "cp_window cp = WinDone")
    case False
    from fast flags have "c_fast_done (l_control l) \<noteq> 0" by (simp add: stages_done_def)
    moreover from inv have "window_inv base cp l" by (simp add: compute_inv_def)
    ultimately obtain cp' l' where st: "window_step getenv now False (cp, l) = Some (cp', l')"
        "window_rank (cp_window cp') < window_rank (cp_window cp)" "cp_watchdog cp' = cp_watchdog cp"
      using window_advance [OF False] by blast
    with window_step_frame [OF st(1)] left [of cp' l'] have "compute_rank (cp', l') < compute_rank (cp, l)"
      by (simp add: compute_rank_def)
    with at_window [OF st(1)] show ?thesis by blast
  next
    case window: True
    show ?thesis
    proof (cases "cp_snapshot cp = SnapDone")
      case False
      from window flags have "c_window_done (l_control l) \<noteq> 0" by (simp add: stages_done_def)
      from snapshot_advance [OF False this] obtain cp' l' where st: "snapshot_step getenv now False (cp, l) = Some (cp', l')"
          "snapshot_rank (cp_snapshot cp') < snapshot_rank (cp_snapshot cp)" "cp_watchdog cp' = cp_watchdog cp"
        by blast
      with snapshot_step_frame [OF st(1)] left [of cp' l'] have "compute_rank (cp', l') < compute_rank (cp, l)"
        by (simp add: compute_rank_def)
      with at_snapshot [OF st(1)] show ?thesis by blast
    next
      case snapshot: True
      show ?thesis
      proof (cases "cp_watchdog cp = DogDone")
        case False
        from snapshot flags have "c_snapshot_done (l_control l) \<noteq> 0" by (simp add: stages_done_def)
        from watchdog_advance [OF False this] obtain pc l' where st: "watchdog_step now (cp, l) = Some (cp\<lparr>cp_watchdog := pc\<rparr>, l')"
            "watchdog_rank pc < watchdog_rank (cp_watchdog cp)" "l_ring l' = l_ring l" by blast
        with left [of "cp\<lparr>cp_watchdog := pc\<rparr>" l'] have "compute_rank (cp\<lparr>cp_watchdog := pc\<rparr>, l') < compute_rank (cp, l)"
          by (simp add: compute_rank_def)
        with at_watchdog [OF st(1)] show ?thesis by blast
      next
        case True
        with fast window snapshot run obtain cp' l' where st: "compute_main_step (cp, l) = Some (cp', l')"
          and "cp' = cp\<lparr>cp_exit := cp_exit cp'\<rparr>" "cp_exit cp' \<noteq> None" "l_ring l' = l_ring l" by simp
        then have "compute_rank (cp', l') < compute_rank (cp, l)"
          using fast window snapshot run True by (auto simp: compute_rank_def fast_left_def)
        with at_main [OF st] show ?thesis by blast
      qed
    qed
  qed
qed

interpretation compute_ends: ranked_goal "work_step getenv now"
  "\<lambda>p. core_inv base left input p \<and> ig_exit (pl_ingest p) \<noteq> None" "\<lambda>p. cp_exit (pl_compute p) \<noteq> None"
  "\<lambda>p. compute_rank (pl_compute p, pl_region p)" for getenv now base left input
proof
  fix p assume inv: "core_inv base left input p \<and> ig_exit (pl_ingest p) \<noteq> None" and "\<not> cp_exit (pl_compute p) \<noteq> None"
  then have "compute_inv base (pl_compute p, pl_region p)" "ingest_finished (pl_region p)"
      "stages_done (pl_compute p) (l_control (pl_region p))" "cp_exit (pl_compute p) = None"
    by (simp_all add: core_inv_def done_link_def ring_link_def ingest_finished_def)
  from compute_advance [OF this, of getenv now] obtain cp l where st: "compute_at getenv now (pl_compute p, pl_region p) (cp, l)"
      "compute_rank (cp, l) < compute_rank (pl_compute p, pl_region p)" by auto
  define q where "q = p\<lparr>pl_compute := cp, pl_region := l\<rparr>"
  have "core_inv base left input q" using core_inv_compute [OF _ compute_at_step [OF st(1)]] inv by (simp add: q_def)
  moreover have "work_step getenv now p q" using st(1) by (simp add: q_def work_compute)
  ultimately show "\<exists>q. (work_step getenv now)\<^sup>*\<^sup>* p q \<and> (core_inv base left input q \<and> ig_exit (pl_ingest q) \<noteq> None) \<and>
      compute_rank (pl_compute q, pl_region q) < compute_rank (pl_compute p, pl_region p)"
    using inv st(2) by (intro exI [of _ q]) (auto simp: q_def)
qed

lemma work_completes:
  assumes "core_inv base left input p"
  obtains q where "(work_step getenv now)\<^sup>*\<^sup>* p q" and "core_inv base left input q"
    and "ig_exit (pl_ingest q) \<noteq> None" and "cp_exit (pl_compute q) \<noteq> None"
proof -
  from ingest_ends.goal_reachable [OF assms, of getenv now] obtain p1 where "(work_step getenv now)\<^sup>*\<^sup>* p p1"
      "core_inv base left input p1" "ig_exit (pl_ingest p1) \<noteq> None" by blast
  moreover from compute_ends.goal_reachable [of base left input p1 getenv now] this(2,3) obtain q where
      "(work_step getenv now)\<^sup>*\<^sup>* p1 q" "core_inv base left input q \<and> ig_exit (pl_ingest q) \<noteq> None" "cp_exit (pl_compute q) \<noteq> None"
    by blast
  ultimately show thesis using that by (meson rtranclp_trans)
qed

text \<open>While the clock stands still no stage is late, and compute exits with 0.\<close>

definition quiet :: "u64 \<Rightarrow> ShmControl \<Rightarrow> bool" where
  "quiet now c \<longleftrightarrow> c_fault c = 0 \<and> c_heartbeat_fast c \<in> {0, now} \<and> c_heartbeat_window c \<in> {0, now} \<and>
     c_heartbeat_snapshot c \<in> {0, now}"

definition calm :: "u64 \<Rightarrow> pipeline \<Rightarrow> bool" where
  "calm now p \<longleftrightarrow> quiet now (l_control (pl_region p)) \<and>
     cp_exit (pl_compute p) \<in> {None, Some 0} \<and> ig_exit (pl_ingest p) \<in> {None, Some 0}"

lemma watchdog_quiet: "quiet now c \<Longrightarrow> watchdog_fault now c = Some False"
  by (auto simp: quiet_def watchdog_fault_def late_def stall_limits heartbeat_stalled_def)

lemma quiet_other [simp]:
  "quiet now (c\<lparr>c_heartbeat_ingest := n\<rparr>) = quiet now c" "quiet now (c\<lparr>c_ingest_done := b\<rparr>) = quiet now c"
  "quiet now (c\<lparr>c_fast_done := b\<rparr>) = quiet now c" "quiet now (c\<lparr>c_window_done := b\<rparr>) = quiet now c"
  "quiet now (c\<lparr>c_snapshot_done := b\<rparr>) = quiet now c" "quiet now (c\<lparr>c_compute_done := b\<rparr>) = quiet now c"
  "quiet now (c\<lparr>c_overrun_fast := m\<rparr>) = quiet now c" "quiet now (c\<lparr>c_overrun_window := m\<rparr>) = quiet now c"
  "quiet now (c\<lparr>c_overrun_snapshot := m\<rparr>) = quiet now c" "quiet now (c\<lparr>c_heartbeat_compute := n\<rparr>) = quiet now c"
  by (simp_all add: quiet_def)

lemma quiet_beat [intro]:
  "quiet now c \<Longrightarrow> quiet now (c\<lparr>c_heartbeat_fast := now\<rparr>)" "quiet now c \<Longrightarrow> quiet now (c\<lparr>c_heartbeat_window := now\<rparr>)"
  "quiet now c \<Longrightarrow> quiet now (c\<lparr>c_heartbeat_snapshot := now\<rparr>)"
  by (simp_all add: quiet_def)

lemma ingest_step_calm:
  assumes "ingest_step (ig, l) (ig', l')" and "quiet now (l_control l)"
  shows "quiet now (l_control l') \<and> ig_exit ig' \<in> {ig_exit ig, Some 0}"
  using assms
  by cases (auto split: source_pc.splits frames_pc.splits option.splits prod.splits bool.splits if_splits)

lemma fast_step_calm:
  assumes "fast_step getenv now (cp, l) = Some (cp', l')" and "quiet now (l_control l)"
  shows "quiet now (l_control l')"
  using assms by (cases "cp_fast cp") (auto split: if_splits option.splits prod.splits bool.splits)

lemma compute_at_calm:
  assumes "compute_at getenv now (cp, l) (cp', l')" and calm: "quiet now (l_control l)"
  shows "quiet now (l_control l') \<and> cp_exit cp' \<in> {cp_exit cp, Some 0}"
  using assms(1)
proof cases
  case at_fast
  with fast_step_calm [OF at_fast calm] fast_step_frame [OF at_fast] show ?thesis by simp
next
  case at_window
  with calm show ?thesis by (cases "cp_window cp") (auto split: if_splits option.splits prod.splits)
next
  case at_snapshot
  with calm show ?thesis by (cases "cp_snapshot cp") (auto split: if_splits option.splits prod.splits)
next
  case at_watchdog
  with calm watchdog_quiet [OF calm] show ?thesis by (cases "cp_watchdog cp") auto
next
  case at_main
  with calm show ?thesis by (auto simp: quiet_def split: if_splits)
qed

lemma work_steps_calm:
  assumes "(work_step getenv now)\<^sup>*\<^sup>* p q" and "calm now p"
  shows "calm now q"
  using assms
proof (induction rule: rtranclp_induct)
  case (step q r)
  then have calm: "calm now q" by simp
  from step(2) show ?case
  proof cases
    case (work_ingest ig l)
    with calm ingest_step_calm [OF work_ingest(2), of now] show ?thesis by (auto simp: calm_def)
  next
    case (work_compute cp l)
    with calm compute_at_calm [OF work_compute(2)] show ?thesis by (auto simp: calm_def)
  qed
qed simp

section \<open>Publish\<close>

fun publish_rank :: "publish_pc \<Rightarrow> bool \<Rightarrow> nat" where
  "publish_rank PubTest have1 = 5"
| "publish_rank PubConsume have1 = 4"
| "publish_rank PubBeat have1 = (if have1 then 3 else 7)"
| "publish_rank PubCheck have1 = (if have1 then 2 else 6)"
| "publish_rank PubWrite have1 = 1"
| "publish_rank PubDone have1 = 0"

text \<open>
  Until the shutdown is stored, publish leaves its loop only with a snapshot in
  hand, and then writes it if the file can be opened.
\<close>

definition write_inv :: "bool \<Rightarrow> pipeline \<Rightarrow> bool" where
  "write_inv can_open p \<longleftrightarrow> stopped (l_control (pl_region p)) \<or>
     (pb_pc (pl_publish p) \<in> {PubWrite, PubDone} \<longrightarrow> pb_have (pl_publish p)) \<and>
     (pb_exit (pl_publish p) \<noteq> None \<and> can_open \<longrightarrow> pb_out (pl_publish p) \<noteq> None)"

lemma work_step_stopped:
  assumes "work_step getenv now p q"
  shows "stopped (l_control (pl_region q)) = stopped (l_control (pl_region p))"
  using assms
proof cases
  case (work_ingest ig l)
  with stopped_cong [OF ingest_step_frame(3) [OF work_ingest(2)]] show ?thesis by simp
next
  case (work_compute cp l)
  with stopped_cong [OF compute_step_frame(1) [OF compute_at_step [OF work_compute(2)]]] show ?thesis by simp
qed

lemma publish_step_write:
  assumes "publish_step can_open (pb, l) = Some (pb', l')" and "\<not> stopped (l_control l)"
    and "(pb_pc pb \<in> {PubWrite, PubDone} \<longrightarrow> pb_have pb) \<and> (pb_exit pb \<noteq> None \<and> can_open \<longrightarrow> pb_out pb \<noteq> None)"
  shows "(pb_pc pb' \<in> {PubWrite, PubDone} \<longrightarrow> pb_have pb') \<and> (pb_exit pb' \<noteq> None \<and> can_open \<longrightarrow> pb_out pb' \<noteq> None)"
  using assms by (cases "pb_pc pb") (auto simp: stopped_def split: prod.splits bool.splits if_splits)

lemma write_inv_step:
  assumes inv: "write_inv can_open p" and st: "pipeline_step getenv can_open p q"
  shows "write_inv can_open q"
  using st
proof cases
  case (pl_ingest_step ig l)
  from stopped_cong [OF ingest_step_frame(3) [OF this(2)]] inv this(1) show ?thesis by (simp add: write_inv_def)
next
  case (pl_compute_step cp l)
  from stopped_cong [OF compute_step_frame(1) [OF this(2)]] inv this(1) show ?thesis by (simp add: write_inv_def)
next
  case (pl_publish_step pb l)
  with publish_step_write [OF pl_publish_step(2)] stopped_cong [OF publish_step_frame(3) [OF pl_publish_step(2)]] inv
  show ?thesis by (auto simp: write_inv_def)
next
  case pl_shutdown
  then show ?thesis by (auto simp: write_inv_def supervisor_shutdown_def stopped_def split: if_splits)
qed

interpretation write_machine: step_machine "\<lambda>p. \<exists>l. p = pipeline_on input l" "pipeline_step getenv can_open" "write_inv can_open"
  for input getenv can_open
proof
  show "write_inv can_open p" if "\<exists>l. p = pipeline_on input l" for p
    using that by (auto simp: write_inv_def pipeline_on_def publish_start_def)
  show "write_inv can_open q" if "write_inv can_open p" "pipeline_step getenv can_open p q" for p q
    using that by (rule write_inv_step)
qed

inductive publish_move :: "bool \<Rightarrow> pipeline \<Rightarrow> pipeline \<Rightarrow> bool" for can_open where
  "publish_step can_open (pl_publish p, pl_region p) = Some (pb, l) \<Longrightarrow>
    publish_move can_open p (p\<lparr>pl_publish := pb, pl_region := l\<rparr>)"

text \<open>Once compute has exited, publish finds the snapshot and gets closer to its end.\<close>

lemma publish_advance:
  assumes core: "core_inv base left input p" and rep: "report_inv base g p" and fin: "cp_exit (pl_compute p) \<noteq> None"
    and run: "pb_exit (pl_publish p) = None"
  shows "\<exists>pb l. publish_step can_open (pl_publish p, pl_region p) = Some (pb, l) \<and>
    publish_rank (pb_pc pb) (pb_have pb) < publish_rank (pb_pc (pl_publish p)) (pb_have (pl_publish p))"
proof (cases "pb_pc (pl_publish p) = PubConsume")
  case True
  from core fin have "length (cp_snaps (pl_compute p)) = 1"
    by (cases "cp_snaps (pl_compute p)") (auto simp: core_inv_def compute_inv_def snapshot_inv_def)
  then obtain snap where "cp_snaps (pl_compute p) = [snap]" by (auto simp: length_Suc_conv)
  with rep have wf: "tb_wf (l_snapshots (pl_region p))"
    and cases: "tb_unread (l_snapshots (pl_region p)) = Some snap \<or> pb_have (pl_publish p)"
    by (auto simp: report_inv_def buffer_link_def)
  from cases show ?thesis
  proof
    assume "tb_unread (l_snapshots (pl_region p)) = Some snap"
    from snapshot_buffer.take_some [OF wf this] obtain b where "TripleBuffer_consume (l_snapshots (pl_region p)) = (True, b)"
      by blast
    with True show ?thesis by simp
  next
    assume "pb_have (pl_publish p)"
    with True show ?thesis by (cases "TripleBuffer_consume (l_snapshots (pl_region p))") (simp split: bool.split)
  qed
next
  case False
  from core fin have "c_compute_done (l_control (pl_region p)) \<noteq> 0"
    by (simp add: core_inv_def done_link_def stages_done_def)
  moreover from rep run have "pb_pc (pl_publish p) \<noteq> PubDone" by (auto simp: report_inv_def buffer_link_def)
  ultimately show ?thesis using False by (cases "pb_pc (pl_publish p)") simp_all
qed

interpretation publish_ends: ranked_goal "publish_move can_open"
  "\<lambda>p. core_inv base left input p \<and> report_inv base g p \<and> ig_exit (pl_ingest p) \<noteq> None \<and> cp_exit (pl_compute p) \<noteq> None"
  "\<lambda>p. pb_exit (pl_publish p) \<noteq> None" "\<lambda>p. publish_rank (pb_pc (pl_publish p)) (pb_have (pl_publish p))"
  for can_open base left input g
proof
  fix p assume inv: "core_inv base left input p \<and> report_inv base g p \<and> ig_exit (pl_ingest p) \<noteq> None \<and> cp_exit (pl_compute p) \<noteq> None"
    and "\<not> pb_exit (pl_publish p) \<noteq> None"
  with publish_advance [of base left input p g can_open] obtain pb l where
      st: "publish_step can_open (pl_publish p, pl_region p) = Some (pb, l)"
        "publish_rank (pb_pc pb) (pb_have pb) < publish_rank (pb_pc (pl_publish p)) (pb_have (pl_publish p))"
    by blast
  define q where "q = p\<lparr>pl_publish := pb, pl_region := l\<rparr>"
  have "core_inv base left input q" "report_inv base g q"
    using core_inv_publish [OF _ st(1)] report_inv_publish [OF _ _ st(1)] inv by (auto simp: q_def)
  moreover have "publish_move can_open p q" using st(1) by (simp add: q_def publish_move.intros)
  ultimately show "\<exists>q. (publish_move can_open)\<^sup>*\<^sup>* p q \<and>
      (core_inv base left input q \<and> report_inv base g q \<and> ig_exit (pl_ingest q) \<noteq> None \<and> cp_exit (pl_compute q) \<noteq> None) \<and>
      publish_rank (pb_pc (pl_publish q)) (pb_have (pl_publish q)) < publish_rank (pb_pc (pl_publish p)) (pb_have (pl_publish p))"
    using inv st(2) by (intro exI [of _ q]) (auto simp: q_def)
qed

text \<open>Neither kind of step stores the shutdown.\<close>

lemma moves_unstopped:
  "(work_step getenv now)\<^sup>*\<^sup>* p q \<Longrightarrow> stopped (l_control (pl_region q)) = stopped (l_control (pl_region p))"
  "(publish_move can_open)\<^sup>*\<^sup>* p q \<Longrightarrow> stopped (l_control (pl_region q)) = stopped (l_control (pl_region p))"
  "(publish_move can_open)\<^sup>*\<^sup>* p q \<Longrightarrow> (pipeline_step getenv can_open)\<^sup>*\<^sup>* p q"
proof -
  show "stopped (l_control (pl_region q)) = stopped (l_control (pl_region p))" if "(work_step getenv now)\<^sup>*\<^sup>* p q"
    using that by induction (simp_all add: work_step_stopped)
  show "stopped (l_control (pl_region q)) = stopped (l_control (pl_region p))" if "(publish_move can_open)\<^sup>*\<^sup>* p q"
    using that
  proof induction
    case (step q r)
    from step(2) show ?case
      by cases (use stopped_cong [OF publish_step_frame(3)] step(3) in simp)
  qed simp
  show "(pipeline_step getenv can_open)\<^sup>*\<^sup>* p q" if "(publish_move can_open)\<^sup>*\<^sup>* p q"
    using that by (rule rtranclp_image [of "publish_move can_open" _ id, simplified, rotated])
      (auto elim!: publish_move.cases intro: pipeline_step.intros)
qed

lemma all_completes:
  assumes inv: "core_inv base left input p" "report_inv base g p" and wr: "write_inv can_open p"
  shows "\<exists>q. (pipeline_step getenv can_open)\<^sup>*\<^sup>* p q \<and>
    ig_exit (pl_ingest q) \<noteq> None \<and> cp_exit (pl_compute q) \<noteq> None \<and> pb_exit (pl_publish q) \<noteq> None \<and>
    (can_open \<and> \<not> stopped (l_control (pl_region p)) \<longrightarrow> pb_out (pl_publish q) \<noteq> None)"
proof -
  from work_completes [OF inv(1), of getenv 0] obtain p1 where p1: "(work_step getenv 0)\<^sup>*\<^sup>* p p1"
      "core_inv base left input p1" "ig_exit (pl_ingest p1) \<noteq> None" "cp_exit (pl_compute p1) \<noteq> None" by blast
  note r1 = work_steps_pipeline [OF p1(1), of can_open]
  have "core_inv base left input p1 \<and> report_inv base g p1" using report_machine.inv_run [OF r1] inv by blast
  with publish_ends.goal_reachable [of base left input p1 g can_open] p1(3,4) obtain q where
      q: "(publish_move can_open)\<^sup>*\<^sup>* p1 q" "ig_exit (pl_ingest q) \<noteq> None" "cp_exit (pl_compute q) \<noteq> None"
        "pb_exit (pl_publish q) \<noteq> None" by blast
  have run: "(pipeline_step getenv can_open)\<^sup>*\<^sup>* p q"
    using r1 moves_unstopped(3) [OF q(1), of getenv] by (rule rtranclp_trans)
  then have "write_inv can_open q" using wr by (rule write_machine.inv_run)
  with run q moves_unstopped(1) [OF p1(1)] moves_unstopped(2) [OF q(1)] show ?thesis
    by (intro exI [of _ q]) (auto simp: write_inv_def)
qed

text \<open>On any region a run can start on, the run can end with a report.\<close>

lemma report_completes:
  assumes "region_ready base left l" and "snapshots_read l"
  shows "\<exists>p txt1. (pipeline_step getenv True)\<^sup>*\<^sup>* (pipeline_on input l) p \<and> pb_out (pl_publish p) = Some txt1"
proof -
  have "write_inv True (pipeline_on input l)" by (rule write_machine.inv_start) blast
  from all_completes [OF core_inv_start [OF assms(1)] report_inv_start [OF assms(2)] this, of getenv] assms(1)
  show ?thesis by (auto simp: region_ready_def pipeline_on_def)
qed

section \<open>Properties\<close>

text \<open>
  (C16) No run of the pipeline gets stuck. Whatever interleaving led to the current
  state, there is a continuation in which ingest, compute and publish all exit;
  if the shutdown has not been stored yet and the output file can be opened,
  one in which publish has written the report.
\<close>

theorem pipeline_completes:
  assumes "(pipeline_step getenv can_open)\<^sup>*\<^sup>* (pipeline_start input g) p"
  shows "\<exists>q. (pipeline_step getenv can_open)\<^sup>*\<^sup>* p q \<and>
    ig_exit (pl_ingest q) \<noteq> None \<and> cp_exit (pl_compute q) \<noteq> None \<and> pb_exit (pl_publish q) \<noteq> None \<and>
    (can_open \<and> \<not> stopped (l_control (pl_region p)) \<longrightarrow> pb_out (pl_publish q) \<noteq> None)"
proof (rule all_completes)
  show "core_inv no_rows [] input p" "report_inv no_rows g p" using pipeline_start_reachable [OF assms] by simp_all
  have "\<exists>l. pipeline_start input g = pipeline_on input l" by (auto simp: pipeline_start_def)
  from write_machine.inv_reachable [OF this assms] show "write_inv can_open p" .
qed

theorem pipeline_completes_witness:
  "\<exists>q. (pipeline_step no_pace True)\<^sup>*\<^sup>* (pipeline_start default_file 1) q \<and>
     ig_exit (pl_ingest q) \<noteq> None \<and> cp_exit (pl_compute q) \<noteq> None \<and> pb_exit (pl_publish q) \<noteq> None \<and>
     pb_out (pl_publish q) \<noteq> None"
proof -
  have "\<not> stopped (l_control (pl_region (pipeline_start default_file 1)))"
    using start_region(1) [of default_file 1] by (simp add: region_ready_def)
  with pipeline_completes [of no_pace True default_file 1 "pipeline_start default_file 1"] show ?thesis by blast
qed

end
