(* ===== verification/Supervisor.thy ===== *)
theory Supervisor
  imports Shm_Region Pace Decimal
begin

text \<open>
  \<^verbatim>\<open>src/supervisor.cpp\<close>. The kernel and the children are outside this file, so what
  \<open>posix_spawn\<close> and \<open>waitpid\<close> return, and what the children did to the shared region
  while the supervisor waited, are arguments (\<open>sup_replies\<close>). The functions
  return the region after the supervisor's own stores.
\<close>

section \<open>Children\<close>

definition kMaxComputeAttempts :: nat where "kMaxComputeAttempts = 3"

text \<open>The argument vector of a child, and \<open>spawn_child\<close>: \<open>rc\<close> and \<open>pid\<close> come from \<open>posix_spawn\<close>.\<close>

definition spawn_argv :: "string \<Rightarrow> string \<Rightarrow> string \<Rightarrow> string option \<Rightarrow> string list" where
  "spawn_argv exe role shm extra =
     [exe, role, shm] @ (case extra of None \<Rightarrow> [] | Some x \<Rightarrow> [x])"

definition spawn_child :: "int \<times> int \<Rightarrow> int" where
  "spawn_child reply = (case reply of (rc, pid) \<Rightarrow> if rc \<noteq> 0 then -1 else pid)"

text \<open>What \<open>waitpid\<close> reports: a failure, a normal exit with its 8-bit status, or another end.\<close>

datatype wait_result = WaitFailed | Exited u8 | Killed

definition wait_child :: "int \<Rightarrow> wait_result \<Rightarrow> nat" where
  "wait_child pid w =
     (if pid < 0 \<or> w = WaitFailed then 1
      else case w of Exited status \<Rightarrow> unat status | _ \<Rightarrow> 1)"

definition store_pid :: "u32 \<Rightarrow> int \<Rightarrow> u32" where
  "store_pid slot pid = (if pid > 0 then word_of_int pid else slot)"

definition store_exit :: "nat \<Rightarrow> u32" where
  "store_exit code = of_nat code"

section \<open>Resetting for another run\<close>

definition reset_control :: "Layout \<Rightarrow> Layout" where
  "reset_control l =
     (let control = l_control l; block = l_supervisor l in
      l\<lparr>l_control := control\<lparr>c_shutdown := 0, c_ingest_done := 0, c_fast_done := 0, c_window_done := 0,
            c_snapshot_done := 0, c_compute_done := 0, c_fault := 0,
            c_overrun_fast := 0, c_overrun_window := 0, c_overrun_snapshot := 0,
            c_heartbeat_ingest := 0, c_heartbeat_compute := 0, c_heartbeat_publish := 0,
            c_heartbeat_fast := 0, c_heartbeat_window := 0, c_heartbeat_snapshot := 0,
            c_generation := c_generation control + 1\<rparr>,
        l_supervisor := block\<lparr>sup_ingest_pid := 0, sup_compute_pid := 0, sup_publish_pid := 0,
            sup_ingest_exit := 0, sup_compute_exit := 0, sup_publish_exit := 0\<rparr>\<rparr>)"

section \<open>One run of the pipeline\<close>

record sup_replies =
  rp_ingest :: "int \<times> int"
  rp_publish :: "int \<times> int"
  rp_compute :: "nat \<Rightarrow> int \<times> int"
  rp_compute_wait :: "nat \<Rightarrow> wait_result"
  rp_ingest_wait :: wait_result
  rp_publish_wait :: wait_result
  rp_compute_work :: "nat \<Rightarrow> Layout \<Rightarrow> Layout"
  rp_ingest_work :: "Layout \<Rightarrow> Layout"
  rp_publish_work :: "Layout \<Rightarrow> Layout"

abbreviation set_supervisor :: "(SupervisorState \<Rightarrow> SupervisorState) \<Rightarrow> Layout \<Rightarrow> Layout" where
  "set_supervisor f l \<equiv> l\<lparr>l_supervisor := f (l_supervisor l)\<rparr>"

text \<open>The loop over the attempts; the first argument after the replies is the attempt.\<close>

function compute_attempts :: "sup_replies \<Rightarrow> nat \<Rightarrow> Layout \<Rightarrow> bool \<times> Layout" where
  "compute_attempts rp attempt l =
     (if attempt > kMaxComputeAttempts then (False, l)
      else
        let compute = spawn_child (rp_compute rp attempt);
            l = set_supervisor (\<lambda>s. s\<lparr>sup_compute_pid := store_pid (sup_compute_pid s) compute\<rparr>) l;
            l = rp_compute_work rp attempt l;
            compute_status = wait_child compute (rp_compute_wait rp attempt);
            l = set_supervisor (\<lambda>s. s\<lparr>sup_compute_exit := store_exit compute_status\<rparr>) l
        in if compute_status = 0 then (True, l)
           else if attempt = kMaxComputeAttempts then (False, l)
           else compute_attempts rp (attempt + 1)
             (l\<lparr>l_control := (l_control l)\<lparr>c_generation := c_generation (l_control l) + 1\<rparr>\<rparr>))"
  by pat_completeness auto
termination by (relation "measure (\<lambda>(rp, attempt, l). Suc kMaxComputeAttempts - attempt)") auto

declare compute_attempts.simps [simp del]

definition run_once_pipeline :: "sup_replies \<Rightarrow> Layout \<Rightarrow> nat \<times> Layout" where
  "run_once_pipeline rp l =
     (let ingest = spawn_child (rp_ingest rp);
          l = set_supervisor (\<lambda>s. s\<lparr>sup_ingest_pid := store_pid (sup_ingest_pid s) ingest\<rparr>) l;
          publish = spawn_child (rp_publish rp);
          l = set_supervisor (\<lambda>s. s\<lparr>sup_publish_pid := store_pid (sup_publish_pid s) publish\<rparr>) l
      in case compute_attempts rp 1 l of (compute_ok, l) \<Rightarrow>
        let l = l\<lparr>l_control := (l_control l)\<lparr>c_shutdown := 1\<rparr>\<rparr>;
            l = rp_ingest_work rp l;
            ingest_status = wait_child ingest (rp_ingest_wait rp);
            l = set_supervisor (\<lambda>s. s\<lparr>sup_ingest_exit := store_exit ingest_status\<rparr>) l;
            l = rp_publish_work rp l;
            publish_status = wait_child publish (rp_publish_wait rp);
            l = set_supervisor (\<lambda>s. s\<lparr>sup_publish_exit := store_exit publish_status\<rparr>) l
        in (if \<not> compute_ok \<or> ingest_status \<noteq> 0 \<or> publish_status \<noteq> 0 then 1 else 0, l))"

section \<open>The supervisor\<close>

definition region_name :: "int \<Rightarrow> string" where
  "region_name pid = ''/rh-'' @ show_int pid"

text \<open>
  Holding after a run: at each poll the signal flag is read, the observer may
  have worked on the region, and a pending rerun request is taken. \<open>None\<close> while
  the poll list ends without a decision.
\<close>

fun hold :: "(bool \<times> (Layout \<Rightarrow> Layout)) list \<Rightarrow> Layout \<Rightarrow> (bool \<times> Layout) option" where
  "hold [] l = None"
| "hold ((g_hold_stop, work) # polls) l =
     (if g_hold_stop then Some (False, l)
      else let l = work l in
        case take_rerun (l_supervisor l) of (rerun, block) \<Rightarrow>
          if rerun then Some (True, l\<lparr>l_supervisor := block\<rparr>)
          else hold polls (l\<lparr>l_supervisor := block\<rparr>))"

text \<open>The outer loop over the runs; the list gives the replies and the polls of each run.\<close>

fun supervisor_runs :: "bool \<Rightarrow> int \<Rightarrow> bool \<Rightarrow> (sup_replies \<times> (bool \<times> (Layout \<Rightarrow> Layout)) list) list \<Rightarrow> Layout \<Rightarrow>
    (nat \<times> Layout) option" where
  "supervisor_runs pacing observe first [] l = None"
| "supervisor_runs pacing observe first ((rp, polls) # runs) l =
     (let l = (if first then l else reset_control l) in
      case run_once_pipeline rp l of (last_status, l) \<Rightarrow>
        if observe < 0 \<or> \<not> pacing then Some (last_status, l)
        else case hold polls l of
          None \<Rightarrow> None
        | Some (False, l) \<Rightarrow> Some (last_status, l)
        | Some (True, l) \<Rightarrow> supervisor_runs pacing observe False runs l)"

text \<open>
  \<open>run_supervisor\<close>: exit code, region and the arguments the observer was spawned
  with. \<open>created\<close> is the status of \<open>shm_create\<close>.
\<close>

definition run_supervisor :: "(string \<Rightarrow> string option) \<Rightarrow> ShmStatus \<Rightarrow> u16 \<Rightarrow> int \<times> int \<Rightarrow>
    (sup_replies \<times> (bool \<times> (Layout \<Rightarrow> Layout)) list) list \<Rightarrow> wait_result \<Rightarrow> Layout \<Rightarrow> (nat \<times> Layout) option" where
  "run_supervisor getenv created observe_port observe_reply runs observe_wait l =
     (if created \<noteq> ShmOk then Some (1, l)
      else
        let observe = (if observe_port \<noteq> 0 then spawn_child observe_reply else -1);
            l = (if observe_port \<noteq> 0
                 then set_supervisor (\<lambda>s. s\<lparr>sup_observe_pid := store_pid (sup_observe_pid s) observe\<rparr>) l else l)
        in case supervisor_runs (pacing_enabled getenv) observe True runs l of
             None \<Rightarrow> None
           | Some (last_status, l) \<Rightarrow>
               let l = (if observe \<ge> 0 then set_supervisor (\<lambda>s. s\<lparr>sup_observe_release := 1\<rparr>) l else l);
                   observe_status = (if observe \<ge> 0 then wait_child observe observe_wait else 0)
               in Some (if last_status \<noteq> 0 \<or> observe_status \<noteq> 0 then 1 else 0, l))"

section \<open>Lemmas\<close>

text \<open>The children leave the supervisor's fields, the generation and the shutdown flag alone.\<close>

definition keeps_supervision :: "(Layout \<Rightarrow> Layout) \<Rightarrow> bool" where
  "keeps_supervision f \<longleftrightarrow> (\<forall>l. c_generation (l_control (f l)) = c_generation (l_control l) \<and>
     c_shutdown (l_control (f l)) = c_shutdown (l_control l) \<and>
     (\<exists>r. l_supervisor (f l) = (l_supervisor l)\<lparr>sup_rerun_request := r\<rparr>))"

definition children_keep :: "sup_replies \<Rightarrow> bool" where
  "children_keep rp \<longleftrightarrow> (\<forall>k. keeps_supervision (rp_compute_work rp k)) \<and>
     keeps_supervision (rp_ingest_work rp) \<and> keeps_supervision (rp_publish_work rp)"

definition attempt_status :: "sup_replies \<Rightarrow> nat \<Rightarrow> nat" where
  "attempt_status rp k = wait_child (spawn_child (rp_compute rp k)) (rp_compute_wait rp k)"

text \<open>The attempt that ends the loop: the first success among three, else the third.\<close>

definition attempts_used :: "sup_replies \<Rightarrow> nat" where
  "attempts_used rp = (if attempt_status rp 1 = 0 then 1 else if attempt_status rp 2 = 0 then 2 else 3)"

lemma keeps_supervision_fields:
  assumes "keeps_supervision f"
  shows "c_generation (l_control (f l)) = c_generation (l_control l)"
    and "c_shutdown (l_control (f l)) = c_shutdown (l_control l)"
    and "sup_compute_exit (l_supervisor (f l)) = sup_compute_exit (l_supervisor l)"
    and "sup_ingest_exit (l_supervisor (f l)) = sup_ingest_exit (l_supervisor l)"
    and "sup_ingest_pid (l_supervisor (f l)) = sup_ingest_pid (l_supervisor l)"
    and "sup_publish_pid (l_supervisor (f l)) = sup_publish_pid (l_supervisor l)"
proof -
  from assms obtain r where "l_supervisor (f l) = (l_supervisor l)\<lparr>sup_rerun_request := r\<rparr>"
    unfolding keeps_supervision_def by blast
  with assms show "c_generation (l_control (f l)) = c_generation (l_control l)"
    "c_shutdown (l_control (f l)) = c_shutdown (l_control l)"
    "sup_compute_exit (l_supervisor (f l)) = sup_compute_exit (l_supervisor l)"
    "sup_ingest_exit (l_supervisor (f l)) = sup_ingest_exit (l_supervisor l)"
    "sup_ingest_pid (l_supervisor (f l)) = sup_ingest_pid (l_supervisor l)"
    "sup_publish_pid (l_supervisor (f l)) = sup_publish_pid (l_supervisor l)"
    by (simp_all add: keeps_supervision_def)
qed

lemma compute_attempts_outcome:
  assumes "children_keep rp" and "compute_attempts rp 1 l = (ok, l')"
  shows "ok \<longleftrightarrow> attempt_status rp (attempts_used rp) = 0"
    and "c_generation (l_control l') = c_generation (l_control l) + of_nat (attempts_used rp - 1)"
    and "sup_compute_exit (l_supervisor l') = store_exit (attempt_status rp (attempts_used rp))"
    and "c_shutdown (l_control l') = c_shutdown (l_control l)"
proof -
  have keep: "\<And>k. keeps_supervision (rp_compute_work rp k)" using assms(1) by (simp add: children_keep_def)
  note fields = keeps_supervision_fields [OF keep]
  note unroll = compute_attempts.simps [of rp "Suc 0"] compute_attempts.simps [of rp "Suc (Suc 0)"]
    compute_attempts.simps [of rp "Suc (Suc (Suc 0))"]
  show "ok \<longleftrightarrow> attempt_status rp (attempts_used rp) = 0"
    "c_generation (l_control l') = c_generation (l_control l) + of_nat (attempts_used rp - 1)"
    "sup_compute_exit (l_supervisor l') = store_exit (attempt_status rp (attempts_used rp))"
    "c_shutdown (l_control l') = c_shutdown (l_control l)"
    using assms(2)
    by (auto simp: unroll Let_def kMaxComputeAttempts_def attempts_used_def fields eval_nat_numeral
        simp flip: attempt_status_def split: if_splits)
qed

section \<open>Properties\<close>

text \<open>
  (C14) One run of the pipeline. Compute is started at most three times and not again
  after a success; the generation grows by one per restart; the run succeeds
  exactly when some attempt exited with 0 and ingest and publish did too; the
  exit statuses are recorded and the run ends with \<open>shutdown\<close> set.
\<close>

theorem run_once_outcome:
  assumes "children_keep rp" and "run_once_pipeline rp l = (rc, l')"
  shows "rc = (if attempt_status rp (attempts_used rp) = 0 \<and>
        wait_child (spawn_child (rp_ingest rp)) (rp_ingest_wait rp) = 0 \<and>
        wait_child (spawn_child (rp_publish rp)) (rp_publish_wait rp) = 0 then 0 else 1) \<and>
    attempts_used rp \<in> {1, 2, 3} \<and>
    c_generation (l_control l') = c_generation (l_control l) + of_nat (attempts_used rp - 1) \<and>
    c_shutdown (l_control l') = 1 \<and>
    sup_compute_exit (l_supervisor l') = store_exit (attempt_status rp (attempts_used rp)) \<and>
    sup_ingest_exit (l_supervisor l') = store_exit (wait_child (spawn_child (rp_ingest rp)) (rp_ingest_wait rp)) \<and>
    sup_publish_exit (l_supervisor l') = store_exit (wait_child (spawn_child (rp_publish rp)) (rp_publish_wait rp))"
proof -
  define l1 where "l1 = set_supervisor
      (\<lambda>s. s\<lparr>sup_publish_pid := store_pid (sup_publish_pid s) (spawn_child (rp_publish rp))\<rparr>)
      (set_supervisor (\<lambda>s. s\<lparr>sup_ingest_pid := store_pid (sup_ingest_pid s) (spawn_child (rp_ingest rp))\<rparr>) l)"
  obtain ok l2 where att: "compute_attempts rp 1 l1 = (ok, l2)" by fastforce
  note out = compute_attempts_outcome [OF assms(1) att]
  have "keeps_supervision (rp_ingest_work rp)" "keeps_supervision (rp_publish_work rp)"
    using assms(1) by (simp_all add: children_keep_def)
  note fields = this [THEN keeps_supervision_fields(1)] this [THEN keeps_supervision_fields(2)]
    this [THEN keeps_supervision_fields(3)] this [THEN keeps_supervision_fields(4)]
  have "c_generation (l_control l1) = c_generation (l_control l)" by (simp add: l1_def)
  moreover have "attempts_used rp \<in> {1, 2, 3}" by (simp add: attempts_used_def)
  moreover have
    "rc = (if \<not> ok \<or> wait_child (spawn_child (rp_ingest rp)) (rp_ingest_wait rp) \<noteq> 0 \<or>
       wait_child (spawn_child (rp_publish rp)) (rp_publish_wait rp) \<noteq> 0 then 1 else 0)"
    "l' = set_supervisor (\<lambda>s. s\<lparr>sup_publish_exit := store_exit (wait_child (spawn_child (rp_publish rp)) (rp_publish_wait rp))\<rparr>)
       (rp_publish_work rp (set_supervisor
         (\<lambda>s. s\<lparr>sup_ingest_exit := store_exit (wait_child (spawn_child (rp_ingest rp)) (rp_ingest_wait rp))\<rparr>)
         (rp_ingest_work rp (l2\<lparr>l_control := (l_control l2)\<lparr>c_shutdown := 1\<rparr>\<rparr>))))"
    using assms(2) unfolding run_once_pipeline_def Let_def l1_def [symmetric] att by simp_all
  ultimately show ?thesis using out by (simp add: fields)
qed

text \<open>A run whose first compute attempt is killed by a signal and whose second succeeds.\<close>

definition one_restart :: sup_replies where
  "one_restart = \<lparr>rp_ingest = (0, 101), rp_publish = (0, 102), rp_compute = (\<lambda>k. (0, 102 + int k)),
     rp_compute_wait = (\<lambda>k. if k = 1 then Killed else Exited 0),
     rp_ingest_wait = Exited 0, rp_publish_wait = Exited 0,
     rp_compute_work = (\<lambda>k l. l), rp_ingest_work = (\<lambda>l. l), rp_publish_work = (\<lambda>l. l)\<rparr>"

lemma one_restart_keep: "children_keep one_restart"
proof -
  have "l_supervisor l = (l_supervisor l)\<lparr>sup_rerun_request := sup_rerun_request (l_supervisor l)\<rparr>" for l :: Layout
    by simp
  then have "keeps_supervision (\<lambda>l. l)" unfolding keeps_supervision_def by blast
  then show ?thesis by (simp add: children_keep_def one_restart_def)
qed

theorem run_once_outcome_witness:
  "\<exists>l. run_once_pipeline one_restart Layout_init = (0, l) \<and> c_generation (l_control l) = 2 \<and>
     c_shutdown (l_control l) = 1"
proof -
  obtain rc l where run: "run_once_pipeline one_restart Layout_init = (rc, l)" by fastforce
  note out = run_once_outcome [OF one_restart_keep run]
  have "attempts_used one_restart = 2" "attempt_status one_restart 2 = 0"
    by (simp_all add: attempts_used_def attempt_status_def one_restart_def spawn_child_def wait_child_def)
  with out run show ?thesis
    by (auto simp: one_restart_def spawn_child_def wait_child_def Layout_init_def ShmControl_default_def)
qed

text \<open>
  A reset before another run clears every stage flag, fault, overrun counter,
  heartbeat, child pid and exit status and moves to the next generation, and
  leaves the observer's fields, the ring, the row tables and the snapshots as
  the previous run left them: records still in the ring belong to the next run.
\<close>

theorem reset_control_exact:
  "reset_control l = l\<lparr>
     l_control := ShmControl_default\<lparr>c_magic := c_magic (l_control l), c_schema := c_schema (l_control l),
       c_reserved := c_reserved (l_control l), c_generation := c_generation (l_control l) + 1\<rparr>,
     l_supervisor := SupervisorState_default\<lparr>sup_observe_pid := sup_observe_pid (l_supervisor l),
       sup_observe_release := sup_observe_release (l_supervisor l),
       sup_rerun_request := sup_rerun_request (l_supervisor l)\<rparr>\<rparr>"
  by (auto simp: reset_control_def Let_def ShmControl_default_def SupervisorState_default_def
      intro!: Layout.equality ShmControl.equality SupervisorState.equality)

end
