(* ===== verification/Restart.thy ===== *)
theory Restart
  imports Completion Supervisor
begin

text \<open>
  Restarts of compute within a run: a compute process that is killed between two
  operations of its threads, or exits with a fault, is replaced by a new one on
  the same region, with the next generation and empty locals, at most three
  times in all. And what a process killed inside a publish of the seqlock or of the
  triple buffer leaves.
\<close>

section \<open>The attempts of one run\<close>

definition restart_compute :: "pipeline \<Rightarrow> pipeline" where
  "restart_compute p = p\<lparr>pl_compute := compute_start,
     pl_region := set_control (\<lambda>c. c\<lparr>c_generation := c_generation c + 1\<rparr>) (pl_region p)\<rparr>"

text \<open>After the last attempt no thread of compute is left, and the shutdown is stored.\<close>

definition give_up :: "pipeline \<Rightarrow> pipeline" where
  "give_up p = p\<lparr>pl_compute := (pl_compute p)\<lparr>cp_fast := FastDone, cp_window := WinDone, cp_snapshot := SnapDone,
       cp_watchdog := DogDone, cp_exit := Some (case cp_exit (pl_compute p) of None \<Rightarrow> 1 | Some code \<Rightarrow> code)\<rparr>,
     pl_region := set_control (\<lambda>c. c\<lparr>c_shutdown := 1\<rparr>) (pl_region p)\<rparr>"

text \<open>The second component is the history of the records earlier attempts took.\<close>

inductive restart_step :: "(string \<Rightarrow> string option) \<Rightarrow> bool \<Rightarrow> pipeline \<times> Record list list \<Rightarrow> pipeline \<times> Record list list \<Rightarrow> bool"
  for getenv can_open where
  rt_step: "pipeline_step getenv can_open p q \<Longrightarrow> restart_step getenv can_open (p, past) (q, past)"
| rt_restart: "cp_exit (pl_compute p) \<noteq> Some 0 \<Longrightarrow> length past + 1 < kMaxComputeAttempts \<Longrightarrow>
    restart_step getenv can_open (p, past) (restart_compute p, past @ [cp_taken (pl_compute p)])"
| rt_give_up: "cp_exit (pl_compute p) \<noteq> Some 0 \<Longrightarrow> length past + 1 = kMaxComputeAttempts \<Longrightarrow>
    restart_step getenv can_open (p, past) (give_up p, past)"

section \<open>Rows of the attempts\<close>

text \<open>A state that one of the attempts up to the \<open>k\<close>-th computed for source \<open>i\<close> from records it took.\<close>

definition seen_by :: "nat \<Rightarrow> Record list list \<Rightarrow> nat \<Rightarrow> SourceState \<Rightarrow> bool" where
  "seen_by k takes i st \<longleftrightarrow> (\<exists>j rs. j \<le> k \<and> j < length takes \<and> prefix rs (takes ! j) \<and> st = track rs i)"

definition row_by :: "nat \<Rightarrow> Record list list \<Rightarrow> nat \<Rightarrow> WindowState \<Rightarrow> bool" where
  "row_by k takes i w \<longleftrightarrow> (\<exists>st. seen_by k takes i st \<and> w = window_of st)"

definition snapshot_by :: "u32 \<Rightarrow> Record list list \<Rightarrow> Snapshot \<Rightarrow> bool" where
  "snapshot_by g takes snap \<longleftrightarrow> length (sn_rows snap) = 64 \<and>
     (\<exists>k < length takes. sn_generation snap = g + of_nat k \<and> (\<forall>i < 64. row_by k takes i (sn_rows snap ! i)))"

lemma seen_by_more:
  assumes "seen_by k (past @ [rs]) i st"
  shows "seen_by k (past @ [rs @ [r]]) i st" and "seen_by k (past @ [rs, ss]) i st"
  using assms unfolding seen_by_def by (fastforce simp: nth_append less_Suc_eq)+

lemma row_by_more:
  assumes "row_by k (past @ [rs]) i w"
  shows "row_by k (past @ [rs @ [r]]) i w" and "row_by k (past @ [rs, ss]) i w"
  using assms seen_by_more unfolding row_by_def by blast+

lemma snapshot_by_more:
  assumes "snapshot_by g (past @ [rs]) snap"
  shows "snapshot_by g (past @ [rs @ [r]]) snap" and "snapshot_by g (past @ [rs, ss]) snap"
  using assms row_by_more unfolding snapshot_by_def by (auto simp: less_Suc_eq)+

lemma seen_by_later: "seen_by k takes i st \<Longrightarrow> k \<le> n \<Longrightarrow> seen_by n takes i st"
  unfolding seen_by_def using le_trans by blast

lemma row_by_later: "row_by k takes i w \<Longrightarrow> k \<le> n \<Longrightarrow> row_by n takes i w"
  unfolding row_by_def using seen_by_later by blast

lemma seen_by_now: "prefix rs taken \<Longrightarrow> seen_by (length past) (past @ [taken]) i (track rs i)"
  unfolding seen_by_def by (intro exI [of _ "length past"] exI [of _ rs]) simp

lemma row_by_default: "row_by (length past) (past @ [taken]) i WindowState_default"
proof -
  have "seen_by (length past) (past @ [taken]) i SourceState_default"
    using seen_by_now [of "[]" taken past i] by simp
  then show ?thesis unfolding row_by_def by (intro exI [of _ SourceState_default]) simp
qed

section \<open>Invariant of an attempt\<close>

definition fast_live :: "Record list list \<Rightarrow> compute_local \<Rightarrow> Layout \<Rightarrow> bool" where
  "fast_live past cp l \<longleftrightarrow>
     (cp_fast cp \<noteq> FastDone \<longrightarrow> coupled (cp_fleet cp) (cp_publishes cp) (track (handled (cp_fast cp) (cp_taken cp)))) \<and>
     latest_wf (l_latest l) \<and> (\<forall>i < 64. seen_by (length past) (past @ [cp_taken cp]) i (latest_value l i)) \<and>
     (\<forall>started rec. cp_fast cp = FastHandle started rec \<longrightarrow> (\<exists>rs. cp_taken cp = rs @ [rec])) \<and>
     (\<forall>sid st. about_to_publish (cp_fast cp) = Some (sid, st) \<longrightarrow>
        sid < 64 \<and> seen_by (length past) (past @ [cp_taken cp]) sid st)"

definition window_live :: "Record list list \<Rightarrow> compute_local \<Rightarrow> Layout \<Rightarrow> bool" where
  "window_live past cp l \<longleftrightarrow> window_wf (l_window l) \<and>
     (\<forall>i < 64. row_by (length past) (past @ [cp_taken cp]) i (window_value l i)) \<and>
     (\<forall>cycle i w. cp_window cp = WinPublish cycle i w \<longrightarrow> i < 64 \<and> row_by (length past) (past @ [cp_taken cp]) i w)"

definition under_way :: "snapshot_pc \<Rightarrow> Snapshot \<Rightarrow> bool" where
  "under_way pc snap \<longleftrightarrow> (\<exists>n. pc = SnapRow snap n) \<or> pc = SnapPublish snap"

definition snapshot_live :: "u32 \<Rightarrow> Record list list \<Rightarrow> compute_local \<Rightarrow> Layout \<Rightarrow> bool" where
  "snapshot_live g past cp l \<longleftrightarrow> c_generation (l_control l) = g + of_nat (length past) \<and>
     (\<forall>snap. under_way (cp_snapshot cp) snap \<longrightarrow> sn_generation snap = g + of_nat (length past) \<and>
        length (sn_rows snap) = 64 \<and> (\<forall>i < 64. row_by (length past) (past @ [cp_taken cp]) i (sn_rows snap ! i)))"

definition attempt_live :: "u32 \<Rightarrow> Record list list \<Rightarrow> compute_local \<Rightarrow> Layout \<Rightarrow> bool" where
  "attempt_live g past cp l \<longleftrightarrow> fast_live past cp l \<and> window_live past cp l \<and> snapshot_live g past cp l"

lemma under_way_published:
  "snapshot_live g past cp l \<Longrightarrow> under_way (cp_snapshot cp) snap \<Longrightarrow> snapshot_by g (past @ [cp_taken cp]) snap"
  unfolding snapshot_live_def snapshot_by_def by (auto intro: exI [of _ "length past"])

lemma fast_live_step:
  assumes inv: "fast_live past cp l" and st: "fast_step getenv now (cp, l) = Some (cp', l')"
  shows "fast_live past cp' l'"
proof (cases "cp_fast cp")
  case (FastHandle started rec)
  with inv obtain rs where taken: "cp_taken cp = rs @ [rec]" by (auto simp: fast_live_def)
  with inv FastHandle have cpl: "coupled (cp_fleet cp) (cp_publishes cp) (track rs)" by (simp add: fast_live_def)
  then show ?thesis
  proof (cases rule: fast_record_cases [where rec = rec])
    case (accept f' s)
    have "seen_by (length past) (past @ [cp_taken cp]) (unat (r_source_id rec)) s"
      using accept(2) seen_by_now [of "rs @ [rec]"] by (simp add: taken del: track_snoc)
    with accept st FastHandle inv taken show ?thesis by (auto simp: fast_live_def simp del: track_snoc)
  next
    case ignore
    with st FastHandle inv taken show ?thesis by (auto simp: fast_live_def simp del: track_snoc)
  qed
next
  case (FastPublish started sid s)
  with inv have wf: "latest_wf (l_latest l)" "sid < 64" by (auto simp: fast_live_def)
  with FastPublish st inv latest_publish_wf [OF wf, of s] show ?thesis by (auto simp: fast_live_def)
next
  case (FastPop started drained)
  have "seen_by (length past) (past @ [cp_taken cp @ [r]]) i (latest_value l i)" if "i < 64" for i r
    using inv that by (simp add: fast_live_def seen_by_more(1))
  with FastPop inv st show ?thesis by (auto simp: fast_live_def split: prod.splits bool.splits)
next
  case (FastCheck started drained)
  with inv st show ?thesis by (auto simp: fast_live_def split: if_splits option.splits prod.splits)
qed (use inv st in \<open>auto simp: fast_live_def split: if_splits\<close>)

text \<open>A step of the 5 ms thread only adds to what the other threads may show.\<close>

lemma others_live_fast:
  assumes st: "fast_step getenv now (cp, l) = Some (cp', l')"
  shows "window_live past cp l \<Longrightarrow> window_live past cp' l'" and "snapshot_live g past cp l \<Longrightarrow> snapshot_live g past cp' l'"
proof -
  note frame = fast_step_frame [OF st]
  have "c_generation (l_control l') = c_generation (l_control l)"
    using compute_step_frame(2) [OF cs_fast [OF st]] .
  moreover have "window_value l' = window_value l" using frame value_cong(2) by blast
  ultimately show "window_live past cp l \<Longrightarrow> window_live past cp' l'" "snapshot_live g past cp l \<Longrightarrow> snapshot_live g past cp' l'"
    using frame fast_step_taken [OF st] row_by_more(1) by (auto simp: window_live_def snapshot_live_def)
qed

lemma window_live_step:
  assumes fast: "fast_live past cp l" and inv: "window_live past cp l"
    and st: "window_step getenv now busy (cp, l) = Some (cp', l')"
  shows "window_live past cp' l'"
proof (cases "cp_window cp")
  case (WinScan cycle i)
  show ?thesis
  proof (cases "i < 64")
    case True
    have "latest_load i l SourceState_default = (True, latest_value l i)"
      using fast True by (intro latest_load_wf) (simp_all add: fast_live_def)
    moreover have "row_by (length past) (past @ [cp_taken cp]) i (window_of (latest_value l i))"
      using fast True by (auto simp: row_by_def fast_live_def)
    ultimately show ?thesis using WinScan True st inv
      by (cases busy) (auto simp: window_live_def kMaxSources_def split: if_splits)
  next
    case False
    with WinScan st inv show ?thesis
      by (auto simp: window_live_def kMaxSources_def split: option.splits prod.splits)
  qed
next
  case (WinPublish cycle i w)
  with inv have wf: "window_wf (l_window l)" "i < 64" by (auto simp: window_live_def)
  with WinPublish st inv window_publish_wf [OF wf, of w] show ?thesis by (auto simp: window_live_def)
qed (use inv st in \<open>auto simp: window_live_def split: if_splits\<close>)

text \<open>A step of the 25 ms or the 100 ms thread is not seen by the 5 ms thread.\<close>

lemma fast_live_cong:
  assumes "fast_live past cp l" and "cp_fast cp' = cp_fast cp" and "cp_fleet cp' = cp_fleet cp"
    and "cp_publishes cp' = cp_publishes cp" and "cp_taken cp' = cp_taken cp" and "l_latest l' = l_latest l"
  shows "fast_live past cp' l'"
  using assms value_cong(1) [OF assms(6)] by (simp add: fast_live_def)

lemma window_live_cong:
  assumes "window_live past cp l" and "cp_window cp' = cp_window cp" and "cp_taken cp' = cp_taken cp" and "l_window l' = l_window l"
  shows "window_live past cp' l'"
  using assms value_cong(2) [OF assms(4)] by (simp add: window_live_def)

lemma snapshot_live_cong:
  assumes "snapshot_live g past cp l" and "cp_snapshot cp' = cp_snapshot cp" and "cp_taken cp' = cp_taken cp"
    and "c_generation (l_control l') = c_generation (l_control l)"
  shows "snapshot_live g past cp' l'"
  using assms by (simp add: snapshot_live_def)

lemma snapshot_live_step:
  assumes win: "window_live past cp l" and inv: "snapshot_live g past cp l"
    and st: "snapshot_step getenv now busy (cp, l) = Some (cp', l')"
  shows "snapshot_live g past cp' l'"
proof (cases "cp_snapshot cp")
  case (SnapRow snap i)
  with inv have snap: "sn_generation snap = g + of_nat (length past)" "length (sn_rows snap) = 64"
    "\<forall>j < 64. row_by (length past) (past @ [cp_taken cp]) j (sn_rows snap ! j)"
    by (auto simp: snapshot_live_def under_way_def)
  show ?thesis
  proof (cases "i < 64")
    case True
    have "window_load i l WindowState_default = (True, window_value l i)"
      using win True by (intro window_load_wf) (simp_all add: window_live_def)
    moreover have "row_by (length past) (past @ [cp_taken cp]) i (window_value l i)"
      using win True by (simp add: window_live_def)
    ultimately show ?thesis using SnapRow True st inv snap
      by (cases busy) (auto simp: snapshot_live_def under_way_def kMaxSources_def nth_list_update)
  next
    case False
    with SnapRow st inv snap show ?thesis by (auto simp: snapshot_live_def under_way_def kMaxSources_def)
  qed
next
  case SnapGeneration
  with st inv show ?thesis
    by (auto simp: snapshot_live_def under_way_def Snapshot_default_def kMaxSources_def row_by_default)
qed (use inv st in \<open>auto simp: snapshot_live_def under_way_def split: if_splits option.splits prod.splits\<close>)

lemma attempt_live_cong:
  assumes "attempt_live g past cp l" and "compute_env (cp, l) (cp, l')"
    and "c_generation (l_control l') = c_generation (l_control l)"
  shows "attempt_live g past cp l'" and "attempt_live g past (cp\<lparr>cp_watchdog := pc\<rparr>) l'"
    and "attempt_live g past (cp\<lparr>cp_exit := code\<rparr>) l'"
proof -
  have tables: "l_latest l' = l_latest l" "l_window l' = l_window l" using assms(2) by (simp_all add: compute_env_def)
  show "attempt_live g past cp l'" "attempt_live g past (cp\<lparr>cp_watchdog := pc\<rparr>) l'"
    "attempt_live g past (cp\<lparr>cp_exit := code\<rparr>) l'"
    using assms(1,3) tables value_cong [of l' l]
    by (simp_all add: attempt_live_def fast_live_def window_live_def snapshot_live_def)
qed

lemma attempt_live_step:
  assumes inv: "attempt_live g past cp l" and st: "compute_step getenv (cp, l) (cp', l')"
  shows "attempt_live g past cp' l'"
  using st
proof cases
  case (cs_fast now)
  from inv have "fast_live past cp' l'" "window_live past cp' l'" "snapshot_live g past cp' l'"
    unfolding attempt_live_def using fast_live_step [OF _ cs_fast] others_live_fast [OF cs_fast] by blast+
  then show ?thesis by (simp add: attempt_live_def)
next
  case (cs_window now busy)
  note frame = window_step_frame [OF cs_window(1)] compute_step_frame(2) [OF st]
  have "fast_live past cp' l'" using inv frame fast_live_cong [of past cp l cp' l'] unfolding attempt_live_def by blast
  moreover have "snapshot_live g past cp' l'"
    using inv frame snapshot_live_cong [of g past cp l cp' l'] unfolding attempt_live_def by blast
  moreover have "window_live past cp' l'" using inv window_live_step [OF _ _ cs_window(1)] unfolding attempt_live_def by blast
  ultimately show ?thesis by (simp add: attempt_live_def)
next
  case (cs_snapshot now busy)
  note frame = snapshot_step_frame [OF cs_snapshot(1)]
  have "fast_live past cp' l'" using inv frame fast_live_cong [of past cp l cp' l'] unfolding attempt_live_def by blast
  moreover have "window_live past cp' l'"
    using inv frame window_live_cong [of past cp l cp' l'] unfolding attempt_live_def by blast
  moreover have "snapshot_live g past cp' l'" using inv snapshot_live_step [OF _ _ cs_snapshot(1)] unfolding attempt_live_def by blast
  ultimately show ?thesis by (simp add: attempt_live_def)
next
  case (cs_watchdog now)
  note frame = watchdog_step_frame [OF cs_watchdog] compute_step_frame(2) [OF st]
  show ?thesis by (subst frame(1)) (rule attempt_live_cong(2) [OF inv frame(2,3)])
next
  case cs_main
  note frame = compute_main_frame(1,2) [OF cs_main] compute_step_frame(2) [OF st]
  show ?thesis by (subst frame(1)) (rule attempt_live_cong(3) [OF inv frame(2,3)])
qed

text \<open>The next attempt on the same tables, one generation later, inherits the rows of the earlier ones.\<close>

lemma attempt_live_next:
  assumes inv: "attempt_live g past cp l" and keep: "l_latest l' = l_latest l" "l_window l' = l_window l"
    and gen: "c_generation (l_control l') = c_generation (l_control l) + 1"
  shows "attempt_live g (past @ [cp_taken cp]) compute_start l'"
proof -
  from inv have live: "fast_live past cp l" "window_live past cp l" "snapshot_live g past cp l"
    by (simp_all add: attempt_live_def)
  have "seen_by (Suc (length past)) (past @ [cp_taken cp, []]) i (latest_value l i)" if "i < 64" for i
    using live(1) that seen_by_more(2) seen_by_later le_SucI unfolding fast_live_def by (metis order_refl)
  moreover have "row_by (Suc (length past)) (past @ [cp_taken cp, []]) i (window_value l i)" if "i < 64" for i
    using live(2) that row_by_more(2) row_by_later le_SucI unfolding window_live_def by (metis order_refl)
  ultimately show ?thesis
    using live coupled_start keep gen value_cong [of l' l]
    by (simp add: attempt_live_def fast_live_def window_live_def snapshot_live_def compute_start_def under_way_def ac_simps)
qed

section \<open>Invariant of the run\<close>

definition buffer_live :: "u32 \<Rightarrow> Record list list \<Rightarrow> pipeline \<Rightarrow> bool" where
  "buffer_live g takes p \<longleftrightarrow> tb_wf (l_snapshots (pl_region p)) \<and>
     (\<forall>snap. tb_unread (l_snapshots (pl_region p)) = Some snap \<longrightarrow> snapshot_by g takes snap) \<and>
     (pb_have (pl_publish p) \<longrightarrow> snapshot_by g takes (pb_last (pl_publish p))) \<and>
     (\<forall>txt1. pb_out (pl_publish p) = Some txt1 \<longrightarrow> (\<exists>snap. snapshot_by g takes snap \<and> txt1 = publish_text snap))"

text \<open>
  The run may be a later one of the supervisor: \<open>before\<close> are the takes of the attempts of
  earlier runs and \<open>fed\<close> is what their ingest processes fed.
\<close>

definition restart_inv :: "u8 list \<Rightarrow> u32 \<Rightarrow> Record list list \<Rightarrow> Record list \<Rightarrow> pipeline \<times> Record list list \<Rightarrow> bool" where
  "restart_inv input g before fed s \<longleftrightarrow> (case s of (p, past) \<Rightarrow>
     ingest_inv input (pl_ingest p, pl_region p) \<and> attempt_live g (before @ past) (pl_compute p) (pl_region p) \<and>
     length past < kMaxComputeAttempts \<and> ring_wf kRingCapacity (l_ring (pl_region p)) \<and>
     concat ((before @ past) @ [cp_taken (pl_compute p)]) @ ring_items kRingCapacity (l_ring (pl_region p)) =
       fed @ ig_fed (pl_ingest p) \<and>
     buffer_live g ((before @ past) @ [cp_taken (pl_compute p)]) p)"

lemma restart_inv_start: "restart_inv input g [] [] (pipeline_start input g, [])"
proof -
  let ?l = "pl_region (pipeline_start input g)"
  note ready = start_region(1,2) [of input g]
  have rows: "row_by 0 [[]] i WindowState_default" for i using row_by_default [of "[]" "[]" i] by simp
  have "seen_by 0 [[]] i SourceState_default" for i using seen_by_now [of "[]" "[]" "[]" i] by simp
  moreover have "coupled FleetSoA_default (replicate 64 0) no_rows" using coupled_start by simp
  ultimately have "attempt_live g [] compute_start ?l" using ready rows
    by (simp add: attempt_live_def fast_live_def window_live_def snapshot_live_def region_ready_def compute_fresh_def
        compute_start_def coupled_start under_way_def start_region(3))
  moreover have "ingest_inv input (ingest_start (Some input), ?l)"
    using ready(1) ingest_inv_start [of ?l "Some input"] by (simp add: region_ready_def)
  moreover have "pl_ingest (pipeline_start input g) = ingest_start (Some input)" "pl_compute (pipeline_start input g) = compute_start"
    "pl_publish (pipeline_start input g) = publish_start"
    by (simp_all add: pipeline_start_def pipeline_on_def)
  ultimately show ?thesis using ready
    by (simp add: restart_inv_def buffer_live_def region_ready_def snapshots_read_def compute_start_def ingest_start_def
        publish_start_def kMaxComputeAttempts_def)
qed

lemma buffer_live_more:
  assumes "buffer_live g (past @ [rs]) p"
  shows "buffer_live g (past @ [rs @ [r]]) p" and "buffer_live g (past @ [rs, ss]) p"
  using assms snapshot_by_more unfolding buffer_live_def by blast+

lemma buffer_live_publish:
  assumes inv: "buffer_live g takes p" and st: "publish_step can_open (pl_publish p, pl_region p) = Some (pb, l)"
  shows "buffer_live g takes (p\<lparr>pl_publish := pb, pl_region := l\<rparr>)"
proof (cases "pb_pc (pl_publish p) = PubConsume")
  case False
  with inv st show ?thesis by (auto simp: buffer_live_def split: publish_pc.splits if_splits)
next
  case True
  from inv have wf: "tb_wf (l_snapshots (pl_region p))" by (simp add: buffer_live_def)
  show ?thesis
  proof (cases "tb_unread (l_snapshots (pl_region p))")
    case None
    with True st inv snapshot_buffer.take_none [OF wf] show ?thesis by (auto simp: buffer_live_def)
  next
    case (Some snap)
    from snapshot_buffer.take_some [OF wf Some] obtain b where "TripleBuffer_consume (l_snapshots (pl_region p)) = (True, b)"
        "TripleBuffer_read_slot b = snap" "tb_unread b = None" "tb_wf b" by blast
    with True st inv Some show ?thesis by (auto simp: buffer_live_def)
  qed
qed

text \<open>A step of compute takes at most one record and publishes only snapshots of its own.\<close>

lemma restart_inv_compute:
  assumes inv: "restart_inv input g before fed (p, past)" and st: "compute_step getenv (pl_compute p, pl_region p) (cp, l)"
  shows "restart_inv input g before fed (p\<lparr>pl_compute := cp, pl_region := l\<rparr>, past)"
proof -
  define hist where "hist = before @ past"
  from inv have live: "attempt_live g hist (pl_compute p) (pl_region p)"
    and wf: "ring_wf kRingCapacity (l_ring (pl_region p))"
      "concat (hist @ [cp_taken (pl_compute p)]) @ ring_items kRingCapacity (l_ring (pl_region p)) = fed @ ig_fed (pl_ingest p)"
    and buf: "buffer_live g (hist @ [cp_taken (pl_compute p)]) p" and ing: "ingest_inv input (pl_ingest p, pl_region p)"
    by (simp_all add: restart_inv_def hist_def)
  have ring: "ring_wf kRingCapacity (l_ring l) \<and>
      concat (hist @ [cp_taken cp]) @ ring_items kRingCapacity (l_ring l) = fed @ ig_fed (pl_ingest p)"
    using wf compute_step_ring [OF st] by (auto dest: ring_link_pop)
  have "buffer_live g (hist @ [cp_taken cp]) p"
    using compute_step_ring [OF st] buf buffer_live_more(1) [OF buf] by auto
  moreover have "snapshot_by g (hist @ [cp_taken cp]) snap" if "cp_snapshot (pl_compute p) = SnapPublish snap" for snap
  proof -
    have "snapshot_by g (hist @ [cp_taken (pl_compute p)]) snap"
      using live that by (intro under_way_published [of g hist _ "pl_region p"]) (simp_all add: attempt_live_def under_way_def)
    then show ?thesis using compute_step_ring [OF st] snapshot_by_more(1) by auto
  qed
  ultimately have "buffer_live g (hist @ [cp_taken cp]) (p\<lparr>pl_compute := cp, pl_region := l\<rparr>)"
    using compute_step_buffer [OF st] snapshot_buffer.put_unread [of "l_snapshots (pl_region p)"]
    by (auto simp: buffer_live_def)
  moreover have "ingest_inv input (pl_ingest p, l)"
    using ingest_env_inv [OF ing, of "(pl_ingest p, l)"] stopped_cong [OF compute_step_frame(1) [OF st]] by (simp add: ingest_env_def)
  ultimately show ?thesis using inv ring attempt_live_step [OF live st] by (simp add: restart_inv_def hist_def)
qed

text \<open>Any other step leaves the tables to compute.\<close>

lemma restart_inv_other:
  assumes inv: "restart_inv input g before fed (p, past)"
    and env: "compute_env (pl_compute p, pl_region p) (pl_compute p, pl_region q)" "pl_compute q = pl_compute p"
      "c_generation (l_control (pl_region q)) = c_generation (l_control (pl_region p))"
    and ing: "ingest_inv input (pl_ingest q, pl_region q)"
    and ring: "ring_wf kRingCapacity (l_ring (pl_region q))"
      "concat ((before @ past) @ [cp_taken (pl_compute p)]) @ ring_items kRingCapacity (l_ring (pl_region q)) =
        fed @ ig_fed (pl_ingest q)"
    and buf: "buffer_live g ((before @ past) @ [cp_taken (pl_compute p)]) q"
  shows "restart_inv input g before fed (q, past)"
  using assms attempt_live_cong(1) [OF _ env(1,3), of g "before @ past"] by (simp add: restart_inv_def)

lemma restart_inv_pipeline:
  assumes inv: "restart_inv input g before fed (p, past)" and st: "pipeline_step getenv can_open p q"
  shows "restart_inv input g before fed (q, past)"
proof -
  let ?takes = "(before @ past) @ [cp_taken (pl_compute p)]"
  from inv have ing: "ingest_inv input (pl_ingest p, pl_region p)" and buf: "buffer_live g ?takes p"
    and ring: "ring_wf kRingCapacity (l_ring (pl_region p))"
      "concat ?takes @ ring_items kRingCapacity (l_ring (pl_region p)) = fed @ ig_fed (pl_ingest p)"
    by (simp_all add: restart_inv_def)
  from st show ?thesis
  proof cases
    case (pl_ingest_step ig l)
    note frame = ingest_step_frame [OF pl_ingest_step(2)]
    have "ring_wf kRingCapacity (l_ring l)" "concat ?takes @ ring_items kRingCapacity (l_ring l) = fed @ ig_fed ig"
      using ring ingest_step_ring [OF pl_ingest_step(2)] by (auto dest: ring_link_push simp flip: append_assoc)
    with pl_ingest_step frame(1) [of "pl_compute p"] frame(2,4) ingest_step_inv [OF ing pl_ingest_step(2)] buf show ?thesis
      by (intro restart_inv_other [OF inv]) (simp_all add: buffer_live_def)
  next
    case (pl_compute_step cp l)
    with restart_inv_compute [OF inv] show ?thesis by simp
  next
    case (pl_publish_step pb l)
    note frame = publish_step_frame [OF pl_publish_step(2)]
    have "ingest_inv input (pl_ingest p, l)"
      using ingest_env_inv [OF ing, of "(pl_ingest p, l)"] stopped_cong [OF frame(3)] by (simp add: ingest_env_def)
    with pl_publish_step frame(1) [of "pl_compute p"] frame(2,4) ring buffer_live_publish [OF buf pl_publish_step(2)]
    show ?thesis by (intro restart_inv_other [OF inv]) simp_all
  next
    case pl_shutdown
    then have q: "q = p\<lparr>pl_region := set_control (\<lambda>c. c\<lparr>c_shutdown := 1\<rparr>) (pl_region p)\<rparr>"
      by (simp add: supervisor_shutdown_def split: if_splits)
    have "ingest_inv input (pl_ingest q, pl_region q)"
      by (rule ingest_env_inv [OF ing]) (simp add: q ingest_env_def stopped_def)
    with ring buf show ?thesis
      by (intro restart_inv_other [OF inv]) (simp_all add: q compute_env_def stopped_def buffer_live_def)
  qed
qed

lemma restart_inv_restart:
  assumes inv: "restart_inv input g before fed (p, past)" and "length past + 1 < kMaxComputeAttempts"
  shows "restart_inv input g before fed (restart_compute p, past @ [cp_taken (pl_compute p)])"
proof -
  let ?taken = "cp_taken (pl_compute p)" and ?l = "pl_region p"
  let ?l' = "set_control (\<lambda>c. c\<lparr>c_generation := c_generation c + 1\<rparr>) ?l"
  from inv have live: "attempt_live g (before @ past) (pl_compute p) ?l"
    and ing: "ingest_inv input (pl_ingest p, ?l)" and buf: "buffer_live g ((before @ past) @ [?taken]) p"
    by (simp_all add: restart_inv_def)
  have "attempt_live g ((before @ past) @ [?taken]) compute_start ?l'" by (rule attempt_live_next [OF live]) simp_all
  moreover have "buffer_live g ((before @ past) @ [?taken, []]) (restart_compute p)"
    using buffer_live_more(2) [OF buf, of "[]"] by (simp add: buffer_live_def restart_compute_def)
  moreover have "ingest_inv input (pl_ingest p, ?l')"
    by (rule ingest_env_inv [OF ing]) (simp add: ingest_env_def stopped_def)
  ultimately show ?thesis using inv assms(2)
    by (simp add: restart_inv_def restart_compute_def compute_start_def)
qed

lemma restart_inv_give_up:
  assumes inv: "restart_inv input g before fed (p, past)"
  shows "restart_inv input g before fed (give_up p, past)"
proof -
  let ?l' = "set_control (\<lambda>c. c\<lparr>c_shutdown := 1\<rparr>) (pl_region p)"
  from inv have ing: "ingest_inv input (pl_ingest p, pl_region p)" by (simp add: restart_inv_def)
  have "ingest_inv input (pl_ingest p, ?l')" by (rule ingest_env_inv [OF ing]) (simp add: ingest_env_def stopped_def)
  moreover from inv have "attempt_live g (before @ past) (pl_compute (give_up p)) ?l'"
    by (simp add: restart_inv_def attempt_live_def fast_live_def window_live_def snapshot_live_def under_way_def give_up_def)
  ultimately show ?thesis using inv by (simp add: restart_inv_def give_up_def buffer_live_def)
qed

lemma restart_inv_step:
  assumes "restart_inv input g before fed s" and "restart_step getenv can_open s t"
  shows "restart_inv input g before fed t"
  using assms(2,1) by cases (auto intro: restart_inv_pipeline restart_inv_restart restart_inv_give_up)

interpretation restart_machine: step_machine "\<lambda>s. s = (pipeline_start input g, [])" "restart_step getenv can_open"
  "restart_inv input g [] []" for input g getenv can_open
  by unfold_locales (auto intro: restart_inv_start restart_inv_step)

text \<open>A run in which the first attempt is killed at once and the second one completes.\<close>

lemma pipeline_restarts:
  "(pipeline_step getenv can_open)\<^sup>*\<^sup>* p q \<Longrightarrow> (restart_step getenv can_open)\<^sup>*\<^sup>* (p, past) (q, past)"
  by (rule rtranclp_image [where f = "\<lambda>p. (p, past)"]) (rule rt_step)

lemma restarted_run:
  obtains p txt1 where "(restart_step no_pace True)\<^sup>*\<^sup>* (pipeline_start default_file 1, []) (p, [[]])"
    and "pb_out (pl_publish p) = Some txt1"
proof -
  have next1: "restart_compute (pipeline_start default_file 1) = pipeline_start default_file 2"
    "cp_taken (pl_compute (pipeline_start default_file 1)) = []" "cp_exit (pl_compute (pipeline_start default_file 1)) = None"
    by (simp_all add: restart_compute_def pipeline_start_def pipeline_on_def compute_start_def set_control_def)
  have "restart_step no_pace True (pipeline_start default_file 1, []) (pipeline_start default_file 2, [[]])"
    using rt_restart [of "pipeline_start default_file 1" "[]" no_pace True] by (simp add: next1 kMaxComputeAttempts_def)
  moreover obtain p txt1 where p: "(pipeline_step no_pace True)\<^sup>*\<^sup>* (pipeline_start default_file 2) p" "pb_out (pl_publish p) = Some txt1"
    using report_completes [OF start_region(1,2) [of default_file 2], of no_pace default_file]
    by (auto simp: pipeline_start_def pipeline_on_def)
  ultimately have "(restart_step no_pace True)\<^sup>*\<^sup>* (pipeline_start default_file 1, []) (p, [[]])"
    using pipeline_restarts [OF p(1), of "[[]]"] by (meson converse_rtranclp_into_rtranclp)
  with p(2) that show thesis by blast
qed

section \<open>A writer killed inside a publish\<close>

text \<open>\<open>Seqlock::publish\<close> cut off after the first \<open>k\<close> words have been stored.\<close>

definition killed_publish :: "('a \<Rightarrow> u64 list) \<Rightarrow> nat \<Rightarrow> 'a \<Rightarrow> Seqlock \<Rightarrow> Seqlock" where
  "killed_publish to_words k v s = store_words [0..<k] (to_words v) (s\<lparr>sl_seq := sl_seq s + 1\<rparr>)"

lemma store_words_seq: "sl_seq (store_words ids raw s) = sl_seq s"
  by (induction ids arbitrary: s) simp_all

lemma publish_odd: "odd (unat (sl_seq s)) \<Longrightarrow> odd (unat (sl_seq (Seqlock_publish to_words v s)))"
  by (simp add: Seqlock_publish_def Let_def unat_word_ariths dvd_mod_iff)

lemma killed_odd: "even (unat (sl_seq s)) \<Longrightarrow> odd (unat (sl_seq (killed_publish to_words k v s)))"
  by (simp add: killed_publish_def store_words_seq unat_word_ariths dvd_mod_iff)

lemma publishes_odd: "odd (unat (sl_seq s)) \<Longrightarrow> odd (unat (sl_seq (fold (Seqlock_publish to_words) vs s)))"
  by (induction vs arbitrary: s) (simp_all add: publish_odd)

text \<open>\<open>TripleBuffer::publish\<close> cut off between the exchange of \<open>middle_\<close> and the store of \<open>write_\<close>.\<close>

definition killed_tb_publish :: "'a TripleBuffer \<Rightarrow> 'a TripleBuffer" where
  "killed_tb_publish b = b\<lparr>tb_middle := of_nat (tb_write b) OR kFresh\<rparr>"

text \<open>The slot handed over is still the writer's: what no well-formed buffer allows.\<close>

definition tb_shared_slot :: "nat \<Rightarrow> 'a TripleBuffer \<Rightarrow> bool" where
  "tb_shared_slot i b \<longleftrightarrow> i < 3 \<and> length (tb_slots b) = 3 \<and> tb_write b = i \<and> tb_middle b = of_nat i OR kFresh"

lemma killed_shares: "tb_wf b \<Longrightarrow> tb_shared_slot (tb_write b) (killed_tb_publish (TripleBuffer_write_slot v b))"
  by (simp add: tb_shared_slot_def killed_tb_publish_def TripleBuffer_write_slot_def tb_wf_def)

lemma put_keeps_shared: "tb_shared_slot i b \<Longrightarrow> tb_shared_slot i (tb_put v b)"
  using mid_of_write(1) [of i]
  by (simp add: tb_shared_slot_def tb_put_def TripleBuffer_publish_def TripleBuffer_write_slot_def mid_index_def Let_def)

lemma puts_keep_shared: "tb_shared_slot i b \<Longrightarrow> tb_shared_slot i (fold tb_put vs b)"
  by (induction vs arbitrary: b) (simp_all add: put_keeps_shared)

lemma consume_shared:
  assumes "tb_shared_slot i b"
  shows "\<exists>c. TripleBuffer_consume b = (True, c) \<and> length (tb_slots c) = 3 \<and> tb_read c = i \<and> tb_write c = i"
  using assms mid_of_write(1,2) [of i]
  by (simp add: tb_shared_slot_def TripleBuffer_consume_def mid_index_def Let_def)

section \<open>Properties\<close>

text \<open>
  (C18) Restarts lose no record of their own. However often compute is killed between two
  operations or exits with a fault, and whatever the interleaving, the records
  the attempts took, one attempt after the other, followed by what is in the
  ring, are what ingest fed, a prefix of the decoded replay file; there are at
  most three attempts, and the generation counts them.
\<close>

theorem restart_conserves:
  assumes "(restart_step getenv can_open)\<^sup>*\<^sup>* (pipeline_start input g, []) (p, past)"
  shows "concat (past @ [cp_taken (pl_compute p)]) @ ring_items kRingCapacity (l_ring (pl_region p)) = ig_fed (pl_ingest p) \<and>
    prefix (ig_fed (pl_ingest p)) (decode_all (replay_frames input)) \<and>
    length past < 3 \<and> c_generation (l_control (pl_region p)) = g + of_nat (length past)"
proof -
  have "restart_inv input g [] [] (p, past)" using restart_machine.inv_reachable [OF refl assms] .
  then show ?thesis using ingest_inv_prefix
    by (auto simp: restart_inv_def attempt_live_def snapshot_live_def kMaxComputeAttempts_def)
qed

theorem restart_conserves_witness:
  "\<exists>p. (restart_step no_pace True)\<^sup>*\<^sup>* (pipeline_start default_file 1, []) (p, [[]]) \<and>
     c_generation (l_control (pl_region p)) = 2 \<and> prefix (ig_fed (pl_ingest p)) (decode_all (replay_frames default_file))"
proof -
  obtain p where p: "(restart_step no_pace True)\<^sup>*\<^sup>* (pipeline_start default_file 1, []) (p, [[]])" by (rule restarted_run)
  from restart_conserves [OF p] p show ?thesis by auto
qed

text \<open>
  (C17) A report after restarts is sound. Whatever publish writes is the text of a snapshot
  of some attempt \<open>k\<close>, with the generation of that attempt, and each of its rows is the
  row that the records taken by one attempt up to \<open>k\<close> gave to the source at some moment.
\<close>

theorem restart_report:
  assumes "(restart_step getenv can_open)\<^sup>*\<^sup>* (pipeline_start input g, []) (p, past)" and "pb_out (pl_publish p) = Some txt1"
  shows "\<exists>snap k. txt1 = publish_text snap \<and> k \<le> length past \<and> sn_generation snap = g + of_nat k \<and>
    (\<forall>i < 64. \<exists>j rs. j \<le> k \<and> prefix rs ((past @ [cp_taken (pl_compute p)]) ! j) \<and> sn_rows snap ! i = window_of (track rs i))"
proof -
  have "restart_inv input g [] [] (p, past)" using restart_machine.inv_reachable [OF refl assms(1)] .
  then have "buffer_live g (past @ [cp_taken (pl_compute p)]) p" by (simp add: restart_inv_def)
  with assms(2) obtain snap where "snapshot_by g (past @ [cp_taken (pl_compute p)]) snap" "txt1 = publish_text snap"
    by (auto simp: buffer_live_def)
  then obtain k where "txt1 = publish_text snap" "k \<le> length past" "sn_generation snap = g + of_nat k"
      "\<forall>i < 64. row_by k (past @ [cp_taken (pl_compute p)]) i (sn_rows snap ! i)"
    by (auto simp: snapshot_by_def less_Suc_eq_le)
  then show ?thesis unfolding row_by_def seen_by_def by (intro exI [of _ snap] exI [of _ k]) blast
qed

theorem restart_report_witness:
  "\<exists>p txt1. (restart_step no_pace True)\<^sup>*\<^sup>* (pipeline_start default_file 1, []) (p, [[]]) \<and> pb_out (pl_publish p) = Some txt1 \<and>
     (\<exists>snap k. txt1 = publish_text snap \<and> k \<le> 1 \<and> sn_generation snap = 1 + of_nat k)"
proof -
  obtain p txt1 where p: "(restart_step no_pace True)\<^sup>*\<^sup>* (pipeline_start default_file 1, []) (p, [[]])"
    "pb_out (pl_publish p) = Some txt1" by (rule restarted_run)
  from restart_report [OF p] p show ?thesis by auto
qed

text \<open>
  (C28) A row may be lost for good. When a process is killed inside \<open>Seqlock::publish\<close>, after
  any number of its word stores, the sequence stays odd, every later publish
  of a restarted process keeps it odd, and each load fails: the source never
  shows a row again, although the cell held one and new ones are published.
\<close>

theorem seqlock_killed_writer:
  assumes "seqlock_stable n s"
  shows "Seqlock_load of_words s out = (True, of_words (sl_words s)) \<and>
    Seqlock_load of_words (fold (Seqlock_publish to_words) vs (killed_publish to_words k v s)) out = (False, out)"
proof -
  have "even (unat (sl_seq s))" using assms by (simp add: seqlock_stable_def and_one_even)
  from publishes_odd [OF killed_odd [OF this], of to_words vs to_words k v]
  have "sl_seq (fold (Seqlock_publish to_words) vs (killed_publish to_words k v s)) AND 1 \<noteq> 0" by (simp add: and_one_even)
  then show ?thesis using seqlock_load_stable [OF assms] by (simp add: Seqlock_load_def seqlock_load_odd_loop)
qed

theorem seqlock_killed_writer_witness:
  "Seqlock_load WindowState_of_words (Seqlock_init 2) WindowState_default = (True, WindowState_default) \<and>
   Seqlock_load WindowState_of_words (Seqlock_publish WindowState_words (WindowState_default\<lparr>w_pos_x := 7\<rparr>)
     (killed_publish WindowState_words 1 (WindowState_default\<lparr>w_pos_x := 5\<rparr>) (Seqlock_init 2))) WindowState_default =
     (False, WindowState_default)"
proof -
  have "seqlock_stable 2 (Seqlock_init 2)" by (simp add: seqlock_stable_def Seqlock_init_def)
  from seqlock_killed_writer [OF this, of WindowState_of_words WindowState_default WindowState_words
      "[WindowState_default\<lparr>w_pos_x := 7\<rparr>]" 1 "WindowState_default\<lparr>w_pos_x := 5\<rparr>"]
  show ?thesis using window_cell.words_zero by (simp add: Seqlock_init_def kWords_of_bytes_def)
qed

text \<open>
  (C29) A writer killed inside \<open>TripleBuffer::publish\<close>, after the exchange and before its store
  of \<open>write_\<close>, breaks the exclusive ownership of the slots for its successor:
  whatever a restarted writer publishes, the next consume gives the reader the
  slot the writer goes on to fill, and a value written there shows through the
  reader's slot before any publish. From a well-formed buffer without the kill
  the write leaves the reader's slot alone.
\<close>

theorem triple_buffer_killed_writer:
  assumes "tb_wf b"
  shows "TripleBuffer_read_slot (TripleBuffer_write_slot w b) = TripleBuffer_read_slot b \<and>
    (\<exists>c. TripleBuffer_consume (fold tb_put vs (killed_tb_publish (TripleBuffer_write_slot v b))) = (True, c) \<and>
      tb_write c = tb_read c \<and> TripleBuffer_read_slot (TripleBuffer_write_slot w c) = w)"
proof -
  obtain c where "TripleBuffer_consume (fold tb_put vs (killed_tb_publish (TripleBuffer_write_slot v b))) = (True, c)"
    "length (tb_slots c) = 3" "tb_read c = tb_write b" "tb_write c = tb_write b"
    using consume_shared [OF puts_keep_shared [OF killed_shares [OF assms]]] by blast
  then show ?thesis
    using assms by (simp add: TripleBuffer_read_slot_def TripleBuffer_write_slot_def tb_wf_def)
qed

theorem triple_buffer_killed_writer_witness:
  "\<exists>c. TripleBuffer_consume (tb_put 8 (killed_tb_publish (TripleBuffer_write_slot 7 (TripleBuffer_init (0::int))))) = (True, c) \<and>
     tb_write c = tb_read c \<and> TripleBuffer_read_slot (TripleBuffer_write_slot 9 c) = 9"
  using triple_buffer_killed_writer [OF tb_wf_init, of 9 "0::int" "[8]" 7] by auto

end
