(* ===== verification/Session.thy ===== *)
theory Session
  imports Restart
begin

text \<open>
  The loop of \<open>run_supervisor\<close> over the runs of one session: with the observer running and
  pacing on, the supervisor holds after a run until the dashboard's ``Run
  again'' asks for another one, resets the control block and runs the pipeline
  once more on the ring, the row tables and the triple buffer that the earlier runs left
  behind, whether they succeeded or not. The replay file is the same for each run, as for the
  program its path is.
\<close>

section \<open>The loop\<close>

text \<open>
  The supervisor's own stores during a run: the pids of the children and how they
  ended; a child that has not exited when the supervisor goes on was killed. \<open>req\<close> is the
  rerun request, which the observer may have stored during the run.
\<close>

definition ended :: "nat option \<Rightarrow> u32" where
  "ended exit_code = store_exit (case exit_code of None \<Rightarrow> 1 | Some code \<Rightarrow> code)"

definition record_run :: "u32 \<times> u32 \<times> u32 \<Rightarrow> nat option \<times> nat option \<times> nat option \<Rightarrow> u32 \<Rightarrow> Layout \<Rightarrow> Layout" where
  "record_run pids exits req l =
     (case (pids, exits) of ((ingest, compute, publish), (ingest_exit, compute_exit, publish_exit)) \<Rightarrow>
        set_supervisor (\<lambda>s. s\<lparr>sup_ingest_pid := ingest, sup_compute_pid := compute, sup_publish_pid := publish,
          sup_ingest_exit := ended ingest_exit, sup_compute_exit := ended compute_exit,
          sup_publish_exit := ended publish_exit, sup_rerun_request := req\<rparr>) l)"

text \<open>Between two polls of the hold the observer stores the rerun request, or nothing.\<close>

definition observer_polls :: "(bool \<times> (Layout \<Rightarrow> Layout)) list \<Rightarrow> bool" where
  "observer_polls polls \<longleftrightarrow> (\<forall>(stop, work) \<in> set polls. work = id \<or> work = set_supervisor request_rerun)"

text \<open>
  The current run, what the earlier attempts of its compute took, and the earlier runs as
  they ended, each with what its earlier attempts took.
\<close>

record session =
  sv_run :: pipeline
  sv_past :: "Record list list"
  sv_runs :: "(pipeline \<times> Record list list) list"

definition session_start :: "u8 list \<Rightarrow> u32 \<Rightarrow> session" where
  "session_start input g = \<lparr>sv_run = pipeline_start input g, sv_past = [], sv_runs = []\<rparr>"

inductive session_step :: "(string \<Rightarrow> string option) \<Rightarrow> bool \<Rightarrow> int \<Rightarrow> u8 list \<Rightarrow> session \<Rightarrow> session \<Rightarrow> bool"
  for getenv can_open observe input where
  sv_step: "restart_step getenv can_open (sv_run s, sv_past s) (p, past) \<Longrightarrow>
    session_step getenv can_open observe input s (s\<lparr>sv_run := p, sv_past := past\<rparr>)"
| sv_rerun: "\<not> (observe < 0 \<or> \<not> pacing_enabled getenv) \<Longrightarrow> stopped (l_control (pl_region (sv_run s))) \<Longrightarrow>
    observer_polls polls \<Longrightarrow>
    hold polls (record_run pids
      (ig_exit (pl_ingest (sv_run s)), cp_exit (pl_compute (sv_run s)), pb_exit (pl_publish (sv_run s))) req
      (pl_region (sv_run s))) = Some (True, l) \<Longrightarrow>
    session_step getenv can_open observe input s
      \<lparr>sv_run = pipeline_on input (reset_control l), sv_past = [], sv_runs = sv_runs s @ [(sv_run s, sv_past s)]\<rparr>"

section \<open>What a rerun starts from\<close>

lemma hold_keeps:
  assumes "hold polls l = Some (rerun, l')" and "observer_polls polls"
  shows "\<exists>block. l' = l\<lparr>l_supervisor := block\<rparr>"
  using assms
proof (induction polls arbitrary: l)
  case (Cons poll polls)
  obtain stop work where poll: "poll = (stop, work)" by fastforce
  show ?case
  proof (cases stop)
    case True
    with Cons.prems(1) poll show ?thesis by (intro exI [of _ "l_supervisor l"]) simp
  next
    case False
    have "work = id \<or> work = set_supervisor request_rerun" using Cons.prems(2) by (auto simp: observer_polls_def poll)
    then have "work l = l\<lparr>l_supervisor := l_supervisor l\<rparr> \<or> work l = l\<lparr>l_supervisor := request_rerun (l_supervisor l)\<rparr>"
      by auto
    then obtain block where work: "work l = l\<lparr>l_supervisor := block\<rparr>" by blast
    have "observer_polls polls" using Cons.prems(2) by (auto simp: observer_polls_def)
    note IH = Cons.IH [OF _ this]
    from Cons.prems(1) False work show ?thesis
      using IH [of "l\<lparr>l_supervisor := snd (take_rerun block)\<rparr>"]
      by (cases "take_rerun block") (auto simp: poll Let_def split: if_splits)
  qed
qed simp

text \<open>So the next run starts on the region of the last one, but for the control and supervisor blocks.\<close>

lemma rerun_region:
  assumes "hold polls (record_run pids exits req l) = Some (True, l')" and "observer_polls polls"
  obtains block where "l' = l\<lparr>l_supervisor := block\<rparr>"
proof -
  obtain block where "record_run pids exits req l = l\<lparr>l_supervisor := block\<rparr>"
    by (cases pids; cases exits) (auto simp: record_run_def)
  with hold_keeps [OF assms] that show thesis by auto
qed

lemma reset_control_keeps:
  "l_latest (reset_control l) = l_latest l" "l_window (reset_control l) = l_window l" "l_ring (reset_control l) = l_ring l"
  "l_snapshots (reset_control l) = l_snapshots l" "\<not> stopped (l_control (reset_control l))"
  "c_generation (l_control (reset_control l)) = c_generation (l_control l) + 1"
  by (simp_all add: reset_control_def Let_def stopped_def)

section \<open>Every session\<close>

text \<open>What the attempts of a run took, of all earlier runs, and of the whole session; and what ingest fed.\<close>

definition run_takes :: "pipeline \<times> Record list list \<Rightarrow> Record list list" where
  "run_takes r = snd r @ [cp_taken (pl_compute (fst r))]"

definition earlier_takes :: "session \<Rightarrow> Record list list" where
  "earlier_takes s = concat (map run_takes (sv_runs s))"

definition session_takes :: "session \<Rightarrow> Record list list" where
  "session_takes s = earlier_takes s @ run_takes (sv_run s, sv_past s)"

definition earlier_fed :: "session \<Rightarrow> Record list" where
  "earlier_fed s = concat (map (\<lambda>r. ig_fed (pl_ingest (fst r))) (sv_runs s))"

definition session_live :: "u8 list \<Rightarrow> u32 \<Rightarrow> session \<Rightarrow> bool" where
  "session_live input g s \<longleftrightarrow> restart_inv input g (earlier_takes s) (earlier_fed s) (sv_run s, sv_past s) \<and>
     (\<forall>r \<in> set (sv_runs s). prefix (ig_fed (pl_ingest (fst r))) (decode_all (replay_frames input)) \<and> length (snd r) < 3)"

lemma session_live_rerun:
  assumes live: "session_live input g s" and l: "l = (pl_region (sv_run s))\<lparr>l_supervisor := block\<rparr>"
  shows "session_live input g
    \<lparr>sv_run = pipeline_on input (reset_control l), sv_past = [], sv_runs = sv_runs s @ [(sv_run s, sv_past s)]\<rparr>"
proof -
  let ?p = "sv_run s" and ?past = "sv_past s" and ?hist = "earlier_takes s @ sv_past s" and ?l = "reset_control l"
  let ?takes = "?hist @ [cp_taken (pl_compute ?p)]"
  from live have inv: "ingest_inv input (pl_ingest ?p, pl_region ?p)" "attempt_live g ?hist (pl_compute ?p) (pl_region ?p)"
      "length ?past < 3" "ring_wf kRingCapacity (l_ring (pl_region ?p))"
      "concat ?takes @ ring_items kRingCapacity (l_ring (pl_region ?p)) = earlier_fed s @ ig_fed (pl_ingest ?p)"
      "buffer_live g ?takes ?p"
    by (simp_all add: session_live_def restart_inv_def kMaxComputeAttempts_def)
  have keep: "l_latest ?l = l_latest (pl_region ?p)" "l_window ?l = l_window (pl_region ?p)"
    "l_ring ?l = l_ring (pl_region ?p)" "l_snapshots ?l = l_snapshots (pl_region ?p)"
    "c_generation (l_control ?l) = c_generation (l_control (pl_region ?p)) + 1"
    by (simp_all add: reset_control_keeps l)
  have "attempt_live g ?takes compute_start ?l" by (rule attempt_live_next [OF inv(2) keep(1,2,5)])
  moreover have "buffer_live g (?takes @ [[]]) (pipeline_on input ?l)"
    using buffer_live_more(2) [OF inv(6), of "[]"] keep(4)
    by (simp add: buffer_live_def pipeline_on_def publish_start_def)
  moreover have "ingest_inv input (ingest_start (Some input), ?l)"
    using ingest_inv_start [of ?l "Some input"] reset_control_keeps(5) by simp
  ultimately have "restart_inv input g ?takes (earlier_fed s @ ig_fed (pl_ingest ?p)) (pipeline_on input ?l, [])"
    using inv(4,5) keep(3)
    by (simp add: restart_inv_def pipeline_on_def compute_start_def ingest_start_def kMaxComputeAttempts_def)
  moreover have "prefix (ig_fed (pl_ingest ?p)) (decode_all (replay_frames input))" using ingest_inv_prefix [OF inv(1)] .
  ultimately show ?thesis using live inv(3)
    by (auto simp: session_live_def earlier_takes_def earlier_fed_def run_takes_def)
qed

interpretation session_machine: step_machine "\<lambda>s. s = session_start input g" "session_step getenv can_open observe input"
  "session_live input g" for input g getenv can_open observe
proof
  show "session_live input g s" if "s = session_start input g" for s
    using that restart_inv_start
    by (simp add: session_live_def session_start_def earlier_takes_def earlier_fed_def)
  show "session_live input g t" if "session_live input g s" "session_step getenv can_open observe input s t" for s t
    using that(2)
  proof cases
    case (sv_step p past)
    with that(1) restart_inv_step [OF _ sv_step(2)] show ?thesis
      by (simp add: session_live_def earlier_takes_def earlier_fed_def)
  next
    case (sv_rerun polls pids req l)
    from rerun_region [OF sv_rerun(5,4)] obtain block where "l = (pl_region (sv_run s))\<lparr>l_supervisor := block\<rparr>" .
    from session_live_rerun [OF that(1) this] sv_rerun(1) show ?thesis by simp
  qed
qed

section \<open>Sessions without a failure\<close>

text \<open>
  No attempt of compute was lost and every earlier run wrote its report. Then the rows before the
  current run are known exactly, and the ring starts with what the last run left.
\<close>

definition undisturbed :: "session \<Rightarrow> bool" where
  "undisturbed s \<longleftrightarrow> sv_past s = [] \<and> (\<forall>r \<in> set (sv_runs s). snd r = [] \<and> pb_out (pl_publish (fst r)) \<noteq> None)"

definition run_taken :: "pipeline \<times> Record list list \<Rightarrow> Record list" where
  "run_taken r = cp_taken (pl_compute (fst r))"

definition run_left :: "pipeline \<times> Record list list \<Rightarrow> Record list" where
  "run_left r = ring_items kRingCapacity (l_ring (pl_region (fst r)))"

definition rows_before :: "session \<Rightarrow> nat \<Rightarrow> SourceState" where
  "rows_before s = foldl shown no_rows (map run_taken (sv_runs s))"

definition left_before :: "session \<Rightarrow> Record list" where
  "left_before s = (if sv_runs s = [] then [] else run_left (last (sv_runs s)))"

definition session_exact :: "u8 list \<Rightarrow> u32 \<Rightarrow> session \<Rightarrow> bool" where
  "session_exact input g s \<longleftrightarrow> (undisturbed s \<longrightarrow>
     core_inv (rows_before s) (left_before s) input (sv_run s) \<and>
     report_inv (rows_before s) (g + of_nat (length (sv_runs s))) (sv_run s) \<and>
     (\<forall>r \<in> set (sv_runs s). ig_fed (pl_ingest (fst r)) = decode_all (replay_frames input)) \<and>
     ((\<forall>r \<in> set (sv_runs s). run_left r = []) \<longrightarrow>
       map run_taken (sv_runs s) = replicate (length (sv_runs s)) (decode_all (replay_frames input))))"

lemma reset_region:
  assumes "core_inv base left input p" and "cp_exit (pl_compute p) \<noteq> None"
  shows "region_ready (shown base (cp_taken (pl_compute p))) (ring_items kRingCapacity (l_ring (pl_region p)))
    (reset_control ((pl_region p)\<lparr>l_supervisor := block\<rparr>))"
proof -
  let ?cp = "pl_compute p" and ?l = "pl_region p"
  let ?r = "reset_control (?l\<lparr>l_supervisor := block\<rparr>)"
  from assms have fast: "cp_fast ?cp = FastDone" and inv: "fast_inv base ?cp ?l" "window_inv base ?cp ?l"
    and wf: "ring_wf kRingCapacity (l_ring ?l)" and copied: "copied ?l 64"
    by (auto simp: core_inv_def compute_inv_def snapshot_inv_def ring_link_def done_link_def)
  have rows: "latest_value ?l i = shown base (cp_taken ?cp) i" if "i < 64" for i
    using inv(1) fast that by (simp add: fast_inv_def latest_view_None)
  have "base_ok base" using inv(1) by (simp add: fast_inv_def)
  then have "base_ok (shown base (cp_taken ?cp))" using shown_invalid by (simp add: base_ok_def [of "shown base (cp_taken ?cp)"])
  moreover have "latest_value ?r = latest_value ?l" "window_value ?r = window_value ?l"
    by (rule value_cong; simp add: reset_control_def Let_def)+
  ultimately have "compute_fresh (shown base (cp_taken ?cp)) ?r"
    using inv rows copied by (simp add: compute_fresh_def fast_inv_def window_inv_def copied_def reset_control_def Let_def)
  with wf show ?thesis by (simp add: region_ready_def reset_control_def Let_def stopped_def)
qed

lemma session_exact_rerun:
  assumes exact: "session_exact input g s" and stop: "stopped (l_control (pl_region (sv_run s)))"
    and l: "l = (pl_region (sv_run s))\<lparr>l_supervisor := block\<rparr>"
  shows "session_exact input g
    \<lparr>sv_run = pipeline_on input (reset_control l), sv_past = [], sv_runs = sv_runs s @ [(sv_run s, sv_past s)]\<rparr>"
    (is "session_exact input g ?t")
  unfolding session_exact_def
proof
  assume und: "undisturbed ?t"
  let ?p = "sv_run s" and ?file = "decode_all (replay_frames input)"
  from und obtain txt1 where u: "undisturbed s" "pb_out (pl_publish ?p) = Some txt1" by (auto simp: undisturbed_def)
  with exact have core: "core_inv (rows_before s) (left_before s) input ?p"
    and rep: "report_inv (rows_before s) (g + of_nat (length (sv_runs s))) ?p"
    and fed: "\<forall>r \<in> set (sv_runs s). ig_fed (pl_ingest (fst r)) = ?file"
    and same: "(\<forall>r \<in> set (sv_runs s). run_left r = []) \<longrightarrow> map run_taken (sv_runs s) = replicate (length (sv_runs s)) ?file"
    by (simp_all add: session_exact_def)
  note final = report_final [OF core rep u(2)]
  have "ig_fed (pl_ingest ?p) = ?file" using core final(2) by (simp add: core_inv_def flag_link_def)
  with fed have fed': "\<forall>r \<in> set (sv_runs ?t). ig_fed (pl_ingest (fst r)) = ?file" by simp
  have "cp_exit (pl_compute ?p) \<noteq> None" using core stop by (simp add: core_inv_def flag_link_def)
  from reset_region [OF core this, of block]
  have ready: "region_ready (rows_before ?t) (left_before ?t) (reset_control l)"
    by (simp add: rows_before_def left_before_def run_taken_def run_left_def l)
  have "snapshots_read (reset_control l)" using final(4) by (simp add: snapshots_read_def reset_control_keeps l)
  moreover have "c_generation (l_control (reset_control l)) = g + of_nat (length (sv_runs ?t))"
    using rep by (simp add: report_inv_def snapshot_link_def reset_control_keeps l)
  ultimately have "report_inv (rows_before ?t) (g + of_nat (length (sv_runs ?t))) (sv_run ?t)"
    using report_inv_start [of "reset_control l" "rows_before ?t" input] by simp
  moreover have "map run_taken (sv_runs ?t) = replicate (length (sv_runs ?t)) ?file"
    if "\<forall>r \<in> set (sv_runs ?t). run_left r = []"
  proof -
    from that have "\<forall>r \<in> set (sv_runs s). run_left r = []" "run_left (?p, sv_past s) = []" by simp_all
    moreover from this have "left_before s = []" by (simp add: left_before_def)
    ultimately show ?thesis using same final(3) by (simp add: run_taken_def run_left_def replicate_append_same)
  qed
  ultimately show "core_inv (rows_before ?t) (left_before ?t) input (sv_run ?t) \<and>
     report_inv (rows_before ?t) (g + of_nat (length (sv_runs ?t))) (sv_run ?t) \<and>
     (\<forall>r \<in> set (sv_runs ?t). ig_fed (pl_ingest (fst r)) = ?file) \<and>
     ((\<forall>r \<in> set (sv_runs ?t). run_left r = []) \<longrightarrow> map run_taken (sv_runs ?t) = replicate (length (sv_runs ?t)) ?file)"
    using core_inv_start [OF ready, of input] fed' by simp
qed

lemma session_exact_step:
  assumes exact: "session_exact input g s" and st: "restart_step getenv can_open (sv_run s, sv_past s) (p, past)"
  shows "session_exact input g (s\<lparr>sv_run := p, sv_past := past\<rparr>)"
  using st
proof cases
  case rt_step
  let ?t = "s\<lparr>sv_run := p, sv_past := past\<rparr>"
  have "rows_before ?t = rows_before s" "left_before ?t = left_before s" "undisturbed ?t = undisturbed s"
    using rt_step(1) by (simp_all add: rows_before_def left_before_def undisturbed_def)
  with exact core_inv_step [OF _ rt_step(2)] report_inv_step [OF _ _ rt_step(2)] show ?thesis
    unfolding session_exact_def by simp blast
next
  case rt_restart
  then show ?thesis by (simp add: session_exact_def undisturbed_def)
next
  case rt_give_up
  then show ?thesis by (auto simp: session_exact_def undisturbed_def kMaxComputeAttempts_def)
qed

interpretation exact_machine: step_machine "\<lambda>s. s = session_start input g" "session_step getenv can_open observe input"
  "session_exact input g" for input g getenv can_open observe
proof
  show "session_exact input g s" if "s = session_start input g" for s
    using that pipeline_start_reachable [of "\<lambda>_. None" True input g "pipeline_start input g"]
    by (simp add: session_exact_def session_start_def rows_before_def left_before_def)
  show "session_exact input g t" if "session_exact input g s" "session_step getenv can_open observe input s t" for s t
    using that(2)
  proof cases
    case (sv_step p past)
    with session_exact_step [OF that(1) sv_step(2)] show ?thesis by simp
  next
    case (sv_rerun polls pids req l)
    from rerun_region [OF sv_rerun(5,4)] obtain block where "l = (pl_region (sv_run s))\<lparr>l_supervisor := block\<rparr>" .
    from session_exact_rerun [OF that(1) sv_rerun(3) this] sv_rerun(1) show ?thesis by simp
  qed
qed

text \<open>The same records again leave the rows as they are.\<close>

lemma rerun_same: "shown (foldl shown no_rows (replicate n rs)) rs = track rs"
proof (induction n)
  case (Suc n)
  have "foldl shown no_rows (replicate n rs @ [rs]) = track rs" using Suc by simp
  then have "foldl shown no_rows (replicate (Suc n) rs) = track rs" by (simp add: replicate_append_same)
  then show ?case unfolding \<open>foldl shown no_rows (replicate (Suc n) rs) = track rs\<close> by (simp add: shown_def fun_eq_iff)
qed (simp add: fun_eq_iff)

section \<open>Runs under any environment\<close>

text \<open>The environment decides how long the threads pause, and nothing else of what they do.\<close>

lemma pause_only: "map_option fst (finish_cycle e1 overruns work_ns period_ns) = map_option fst (finish_cycle e2 overruns work_ns period_ns)"
  by (simp add: finish_cycle_def Let_def split: Option.bind_splits)

lemma pause_ignored:
  "(case finish_cycle e1 overruns work_ns period_ns of None \<Rightarrow> None | Some (n, _) \<Rightarrow> f n) =
   (case finish_cycle e2 overruns work_ns period_ns of None \<Rightarrow> None | Some (n, _) \<Rightarrow> f n)"
  using pause_only [of e1 overruns work_ns period_ns e2]
  by (cases "finish_cycle e1 overruns work_ns period_ns"; cases "finish_cycle e2 overruns work_ns period_ns") auto

lemma threads_env:
  "fast_step e1 now s = fast_step e2 now s" "window_step e1 now busy s = window_step e2 now busy s"
  "snapshot_step e1 now busy s = snapshot_step e2 now busy s"
proof -
  obtain cp l where s: "s = (cp, l)" by fastforce
  note pause = pause_ignored [where ?e1.0 = e1 and ?e2.0 = e2]
  show "fast_step e1 now s = fast_step e2 now s" by (cases "cp_fast cp") (simp_all add: s pause)
  show "window_step e1 now busy s = window_step e2 now busy s"
  proof (cases "cp_window cp")
    case (WinScan cycle i)
    then show ?thesis by (cases cycle) (simp_all add: s pause)
  qed (simp_all add: s)
  show "snapshot_step e1 now busy s = snapshot_step e2 now busy s" by (cases "cp_snapshot cp") (simp_all add: s pause)
qed

lemma compute_step_env:
  assumes "compute_step e1 s t"
  shows "compute_step e2 s t"
  using assms
proof cases
  case (cs_fast now)
  then show ?thesis using threads_env(1) [of e1 now s e2] compute_step.cs_fast by metis
next
  case (cs_window now busy)
  then show ?thesis using threads_env(2) [of e1 now busy s e2] compute_step.cs_window by metis
next
  case (cs_snapshot now busy)
  then show ?thesis using threads_env(3) [of e1 now busy s e2] compute_step.cs_snapshot by metis
qed (auto intro: compute_step.intros simp del: watchdog_step.simps compute_main_step.simps)

lemma pipeline_step_env: "pipeline_step e1 can_open p q \<Longrightarrow> pipeline_step e2 can_open p q"
  by (erule pipeline_step.cases) (auto intro: pipeline_step.intros compute_step_env simp del: publish_step.simps)

lemma pipeline_run_env: "(pipeline_step e1 can_open)\<^sup>*\<^sup>* p q \<Longrightarrow> (pipeline_step e2 can_open)\<^sup>*\<^sup>* p q"
  by (rule rtranclp_image [where f = "\<lambda>p. p", of "pipeline_step e1 can_open"]) (auto intro: pipeline_step_env)

section \<open>Building sessions\<close>

lemma session_runs:
  assumes "(pipeline_step getenv can_open)\<^sup>*\<^sup>* (sv_run s) p"
  shows "(session_step getenv can_open observe input)\<^sup>*\<^sup>* s (s\<lparr>sv_run := p\<rparr>)"
proof -
  have "session_step getenv can_open observe input (s\<lparr>sv_run := q\<rparr>) (s\<lparr>sv_run := r\<rparr>)" if "pipeline_step getenv can_open q r" for q r
    using sv_step [of getenv can_open "s\<lparr>sv_run := q\<rparr>" r "sv_past s"] rt_step [OF that, of "sv_past s"] by simp
  from rtranclp_image [of "pipeline_step getenv can_open" "session_step getenv can_open observe input" "\<lambda>p. s\<lparr>sv_run := p\<rparr>", OF this assms]
  show ?thesis by simp
qed

text \<open>After the shutdown the next poll finds the request.\<close>

lemma session_again:
  assumes "pacing_enabled getenv" and "0 \<le> observe" and "stopped (l_control (pl_region (sv_run s)))"
  shows "\<exists>block. session_step getenv can_open observe input s
    \<lparr>sv_run = pipeline_on input (reset_control ((pl_region (sv_run s))\<lparr>l_supervisor := block\<rparr>)), sv_past = [],
      sv_runs = sv_runs s @ [(sv_run s, sv_past s)]\<rparr>"
proof -
  let ?polls = "[(False, set_supervisor request_rerun)]"
  let ?exits = "(ig_exit (pl_ingest (sv_run s)), cp_exit (pl_compute (sv_run s)), pb_exit (pl_publish (sv_run s)))"
  have polls: "observer_polls ?polls" by (simp add: observer_polls_def)
  obtain l where hold: "hold ?polls (record_run (1, 2, 3) ?exits 0 (pl_region (sv_run s))) = Some (True, l)"
    by (simp add: request_rerun_def take_rerun_def)
  obtain block where "l = (pl_region (sv_run s))\<lparr>l_supervisor := block\<rparr>" by (rule rerun_region [OF hold polls])
  with sv_rerun [OF _ assms(3) polls hold, of observe getenv can_open input] assms(1,2) show ?thesis by auto
qed

section \<open>A snapshot left unread\<close>

text \<open>
  When publish saw the shutdown first, the snapshot of the run stays in the triple
  buffer, and the reset does not remove it.
\<close>

lemma unread_run:
  obtains p where "(pipeline_step getenv True)\<^sup>*\<^sup>* (pipeline_start default_file 1) p" "all_exited p"
    and "core_inv no_rows [] default_file p" "tb_wf (l_snapshots (pl_region p))"
    "tb_unread (l_snapshots (pl_region p)) = Some demo_snapshot" "c_generation (l_control (pl_region p)) = 1"
    "pb_out (pl_publish p) = None" "stopped (l_control (pl_region p))"
proof -
  obtain p where p: "(pipeline_step no_pace True)\<^sup>*\<^sup>* (pipeline_start default_file 1) p" "all_exited p"
    "cp_snaps (pl_compute p) = [demo_snapshot]" "\<not> pb_have (pl_publish p)" "pb_out (pl_publish p) = None"
    "stopped (l_control (pl_region p))"
    using unreported_run by blast
  note inv = pipeline_start_reachable [OF p(1)]
  from inv(2) p(3,4) have "tb_wf (l_snapshots (pl_region p))" "tb_unread (l_snapshots (pl_region p)) = Some demo_snapshot"
    "c_generation (l_control (pl_region p)) = 1"
    by (auto simp: report_inv_def snapshot_link_def buffer_link_def)
  with p inv(1) pipeline_run_env [OF p(1)] that show thesis by blast
qed

text \<open>Publish takes it before the new run has computed anything.\<close>

lemma publish_takes:
  assumes "\<not> stopped (l_control l)" and "tb_wf (l_snapshots l)" and "tb_unread (l_snapshots l) = Some snap"
  obtains b where "run_threads (replicate 2 (publish_step can_open)) (publish_start, l) =
    Some (publish_start\<lparr>pb_last := snap, pb_have := True, pb_pc := PubBeat\<rparr>, l\<lparr>l_snapshots := b\<rparr>)"
proof -
  from snapshot_buffer.take_some [OF assms(2,3)] obtain b where
    "TripleBuffer_consume (l_snapshots l) = (True, b)" "TripleBuffer_read_slot b = snap" by blast
  with assms(1) that show thesis
    by (simp add: numeral_2_eq_2 publish_start_def stopped_def)
qed

text \<open>Once compute is done publish writes what it has in hand.\<close>

lemma publish_writes:
  assumes "pb_pc pb = PubBeat" and "pb_have pb" and "c_compute_done (l_control l) \<noteq> 0"
  shows "\<exists>pb' l'. run_threads (replicate 3 (publish_step True)) (pb, l) = Some (pb', l') \<and>
    pb_out pb' = Some (publish_text (pb_last pb)) \<and> pb_exit pb' = Some 0 \<and> c_generation (l_control l') = c_generation (l_control l)"
  using assms by (simp add: numeral_3_eq_3)

lemma work_steps_generation:
  assumes "(work_step getenv now)\<^sup>*\<^sup>* p q"
  shows "c_generation (l_control (pl_region q)) = c_generation (l_control (pl_region p))"
  using assms
proof (induction rule: rtranclp_induct)
  case (step q r)
  from step(2) show ?case
  proof cases
    case (work_ingest ig l)
    with ingest_step_frame(4) [OF work_ingest(2)] step(3) show ?thesis by simp
  next
    case (work_compute cp l)
    with compute_step_frame(2) [OF compute_at_step [OF work_compute(2)]] step(3) show ?thesis by simp
  qed
qed simp

lemma stale_run:
  assumes ready: "region_ready base left l" and quiet: "quiet now (l_control l)"
    and snap: "tb_wf (l_snapshots l)" "tb_unread (l_snapshots l) = Some snap"
  shows "\<exists>p. (pipeline_step getenv True)\<^sup>*\<^sup>* (pipeline_on input l) p \<and> all_exited p \<and>
    pb_out (pl_publish p) = Some (publish_text snap) \<and> c_generation (l_control (pl_region p)) = c_generation (l_control l)"
proof -
  have "\<not> stopped (l_control l)" using ready by (simp add: region_ready_def)
  from publish_takes [OF this snap, of True] obtain b where
    b: "run_threads (replicate 2 (publish_step True)) (publish_start, l) =
      Some (publish_start\<lparr>pb_last := snap, pb_have := True, pb_pc := PubBeat\<rparr>, l\<lparr>l_snapshots := b\<rparr>)" .
  define p1 where "p1 = (pipeline_on input l)\<lparr>pl_publish := publish_start\<lparr>pb_last := snap, pb_have := True, pb_pc := PubBeat\<rparr>,
    pl_region := l\<lparr>l_snapshots := b\<rparr>\<rparr>"
  have r1: "(pipeline_step getenv True)\<^sup>*\<^sup>* (pipeline_on input l) p1"
    using publish_runs [of 2 True "pipeline_on input l", OF _, of _ getenv] b by (simp add: pipeline_on_def p1_def)
  have "core_inv base left input p1"
    using r1 core_inv_start [OF ready] by (rule core_machine.inv_run)
  from work_completes [OF this, of getenv now] obtain p2 where p2: "(work_step getenv now)\<^sup>*\<^sup>* p1 p2"
    "core_inv base left input p2" "ig_exit (pl_ingest p2) \<noteq> None" "cp_exit (pl_compute p2) \<noteq> None" .
  have "calm now p1" using quiet by (simp add: calm_def p1_def pipeline_on_def compute_start_def ingest_start_def)
  with work_steps_calm [OF p2(1)] p2(3,4) have exits: "ig_exit (pl_ingest p2) = Some 0" "cp_exit (pl_compute p2) = Some 0"
    by (auto simp: calm_def)
  have "c_compute_done (l_control (pl_region p2)) \<noteq> 0" using p2(2,4) by (simp add: core_inv_def done_link_def stages_done_def)
  moreover have pb: "pl_publish p2 = publish_start\<lparr>pb_last := snap, pb_have := True, pb_pc := PubBeat\<rparr>"
    using work_steps_publish [OF p2(1)] by (simp add: p1_def)
  ultimately obtain pb' l' where w: "run_threads (replicate 3 (publish_step True)) (pl_publish p2, pl_region p2) = Some (pb', l')"
    "pb_out pb' = Some (publish_text snap)" "pb_exit pb' = Some 0" "c_generation (l_control l') = c_generation (l_control (pl_region p2))"
    using publish_writes [of "pl_publish p2" "pl_region p2"] by auto
  have gen: "c_generation (l_control (pl_region p2)) = c_generation (l_control l)"
    using work_steps_generation [OF p2(1)] by (simp add: p1_def)
  have "(pipeline_step getenv True)\<^sup>*\<^sup>* (pipeline_on input l) (p2\<lparr>pl_publish := pb', pl_region := l'\<rparr>)"
    using r1 work_steps_pipeline [OF p2(1)] publish_runs [OF w(1), of getenv] by (auto intro: rtranclp_trans)
  with exits w gen show ?thesis
    by (intro exI [of _ "p2\<lparr>pl_publish := pb', pl_region := l'\<rparr>"]) (simp add: all_exited_def)
qed

section \<open>Properties\<close>

text \<open>
  (C15) Reports over the runs of a session. However often the dashboard asks for another
  run, whatever the interleavings were, and whether earlier runs failed, restarted compute
  or wrote no report: a report is the text of a snapshot of some attempt \<open>k\<close> of the session,
  counted over all runs, with the generation of that attempt, and each row of it is one that
  the records taken by one attempt up to \<open>k\<close> gave to the source; what the attempts took, in
  order, followed by what is in the ring, is what ingest of each run fed, each time a prefix
  of the decoded file. When no attempt was lost and every earlier run wrote its report,
  ingest of each earlier run fed the whole file, the report carries the generation of its own
  run, and a row of it is the track of the records the run took itself, or where it accepted
  none the row the earlier runs left behind; if moreover no run left records in the ring,
  each report is, apart from its generation, the report of the first run.
\<close>

theorem session_report:
  assumes "(session_step getenv can_open observe input)\<^sup>*\<^sup>* (session_start input g) s" and "pb_out (pl_publish (sv_run s)) = Some txt1"
  shows "(\<exists>snap k. txt1 = publish_text snap \<and> k < length (session_takes s) \<and> sn_generation snap = g + of_nat k \<and>
      (\<forall>i < 64. \<exists>j rs. j \<le> k \<and> prefix rs (session_takes s ! j) \<and> sn_rows snap ! i = window_of (track rs i))) \<and>
    concat (session_takes s) @ ring_items kRingCapacity (l_ring (pl_region (sv_run s))) =
      concat (map (\<lambda>r. ig_fed (pl_ingest (fst r))) (sv_runs s)) @ ig_fed (pl_ingest (sv_run s)) \<and>
    (\<forall>r \<in> set (sv_runs s @ [(sv_run s, sv_past s)]). prefix (ig_fed (pl_ingest (fst r))) (decode_all (replay_frames input))) \<and>
    (undisturbed s \<longrightarrow>
      (\<forall>r \<in> set (sv_runs s). ig_fed (pl_ingest (fst r)) = decode_all (replay_frames input)) \<and>
      txt1 = publish_text (final_snapshot (foldl shown no_rows (map run_taken (sv_runs s))) (g + of_nat (length (sv_runs s)))
        (cp_taken (pl_compute (sv_run s))))) \<and>
    (undisturbed s \<and> (\<forall>r \<in> set (sv_runs s @ [(sv_run s, [])]). run_left r = []) \<longrightarrow>
      txt1 = publish_text (final_snapshot no_rows (g + of_nat (length (sv_runs s))) (decode_all (replay_frames input))))"
    (is "?sound \<and> ?conserved \<and> ?prefixes \<and> (_ \<longrightarrow> ?exact) \<and> (_ \<longrightarrow> ?same)")
proof -
  let ?p = "sv_run s" and ?file = "decode_all (replay_frames input)"
  have live: "session_live input g s" using session_machine.inv_reachable [OF refl assms(1)] .
  then have inv: "ingest_inv input (pl_ingest ?p, pl_region ?p)" "buffer_live g (session_takes s) ?p"
      "concat (session_takes s) @ ring_items kRingCapacity (l_ring (pl_region ?p)) = earlier_fed s @ ig_fed (pl_ingest ?p)"
    by (simp_all add: session_live_def restart_inv_def session_takes_def run_takes_def)
  from inv(2) assms(2) obtain snap where "snapshot_by g (session_takes s) snap" "txt1 = publish_text snap"
    by (auto simp: buffer_live_def)
  then have ?sound unfolding snapshot_by_def row_by_def seen_by_def by (intro exI [of _ snap]) blast
  moreover have ?conserved using inv(3) by (simp add: earlier_fed_def)
  moreover have ?prefixes using live ingest_inv_prefix [OF inv(1)] by (auto simp: session_live_def)
  moreover have und: ?exact and same: "(\<forall>r \<in> set (sv_runs s @ [(?p, [])]). run_left r = []) \<longrightarrow> ?same" if "undisturbed s"
  proof -
    have "session_exact input g s" using exact_machine.inv_reachable [OF refl assms(1)] .
    with that have e: "core_inv (rows_before s) (left_before s) input ?p" "report_inv (rows_before s) (g + of_nat (length (sv_runs s))) ?p"
        "\<forall>r \<in> set (sv_runs s). ig_fed (pl_ingest (fst r)) = ?file"
        "(\<forall>r \<in> set (sv_runs s). run_left r = []) \<longrightarrow> map run_taken (sv_runs s) = replicate (length (sv_runs s)) ?file"
      by (simp_all add: session_exact_def)
    note final = report_final [OF e(1,2) assms(2)]
    show ?exact using final(1) e(3) by (simp add: rows_before_def)
    show "(\<forall>r \<in> set (sv_runs s @ [(?p, [])]). run_left r = []) \<longrightarrow> ?same"
    proof
      assume "\<forall>r \<in> set (sv_runs s @ [(?p, [])]). run_left r = []"
      then have left: "\<forall>r \<in> set (sv_runs s). run_left r = []" "run_left (?p, []) = []" "left_before s = []"
        by (simp_all add: left_before_def)
      with final(3) have "cp_taken (pl_compute ?p) = ?file" by (simp add: run_left_def)
      with final(1) e(4) left(1) rerun_same [of "length (sv_runs s)" ?file] show ?same
        by (simp add: rows_before_def final_snapshot_def)
    qed
  qed
  ultimately show ?thesis by blast
qed

text \<open>Two runs over the default file with the default environment and an observer.\<close>

theorem session_report_witness:
  "\<exists>s. (session_step (\<lambda>_. None) True 104 default_file)\<^sup>*\<^sup>* (session_start default_file 1) s \<and> undisturbed s \<and> length (sv_runs s) = 1 \<and>
     pb_out (pl_publish (sv_run s)) = Some (publish_text (final_snapshot (track (run_taken (hd (sv_runs s)))) 2 (cp_taken (pl_compute (sv_run s))))) \<and>
     concat (session_takes s) @ ring_items kRingCapacity (l_ring (pl_region (sv_run s))) = default_records @ ig_fed (pl_ingest (sv_run s))"
proof -
  let ?env = "\<lambda>_ :: string. None :: string option"
  let ?step = "session_step ?env True 104 default_file"
  obtain p0 where p0: "(pipeline_step no_pace True)\<^sup>*\<^sup>* (pipeline_start default_file 1) p0" "all_exited p0"
    "pb_out (pl_publish p0) = Some (publish_text demo_snapshot)" by (rule default_run)
  define p where "p = p0\<lparr>pl_region := set_control (\<lambda>c. c\<lparr>c_shutdown := 1\<rparr>) (pl_region p0)\<rparr>"
  have "pipeline_step ?env True p0 p"
    using p0(2) by (intro pl_shutdown) (simp add: supervisor_shutdown_def all_exited_def p_def)
  with pipeline_run_env [OF p0(1), of ?env] have "(pipeline_step ?env True)\<^sup>*\<^sup>* (pipeline_start default_file 1) p" by simp
  then have r1: "?step\<^sup>*\<^sup>* (session_start default_file 1) ((session_start default_file 1)\<lparr>sv_run := p\<rparr>)"
    by (intro session_runs) (simp add: session_start_def)
  have "pacing_enabled ?env" "stopped (l_control (pl_region p))" by (simp_all add: pacing_enabled_def p_def stopped_def)
  from session_again [OF this(1), of 104 "(session_start default_file 1)\<lparr>sv_run := p\<rparr>" True default_file] this(2)
  obtain l where r2: "?step ((session_start default_file 1)\<lparr>sv_run := p\<rparr>) \<lparr>sv_run = pipeline_on default_file l, sv_past = [], sv_runs = [(p, [])]\<rparr>"
    by (auto simp: session_start_def)
  define s1 where "s1 = \<lparr>sv_run = pipeline_on default_file l, sv_past = [], sv_runs = [(p, [])]\<rparr>"
  have reach: "?step\<^sup>*\<^sup>* (session_start default_file 1) s1" using r1 r2 by (simp add: s1_def)
  have und: "undisturbed s1" using p0(3) by (simp add: undisturbed_def s1_def p_def)
  from exact_machine.inv_reachable [OF refl reach] und
  have core: "core_inv (rows_before s1) (left_before s1) default_file (pipeline_on default_file l)"
    and rep: "report_inv (rows_before s1) (1 + of_nat 1) (pipeline_on default_file l)"
    by (simp_all add: session_exact_def s1_def)
  have "write_inv True (pipeline_on default_file l)" by (rule write_machine.inv_start) blast
  from all_completes [OF core rep this, of ?env] obtain q txt1 where
    q: "(pipeline_step ?env True)\<^sup>*\<^sup>* (pipeline_on default_file l) q" "pb_out (pl_publish q) = Some txt1"
    using core by (auto simp: core_inv_def flag_link_def pipeline_on_def compute_start_def)
  have "?step\<^sup>*\<^sup>* s1 (s1\<lparr>sv_run := q\<rparr>)" by (rule session_runs) (use q(1) in \<open>simp add: s1_def\<close>)
  with reach have run: "?step\<^sup>*\<^sup>* (session_start default_file 1) (s1\<lparr>sv_run := q\<rparr>)" by simp
  have u: "undisturbed (s1\<lparr>sv_run := q\<rparr>)" using und by (simp add: undisturbed_def s1_def)
  have records: "decode_all (replay_frames default_file) = default_records"
    by (simp add: default_file_def replay_frames_image decode_all_image default_records_wf)
  have q2: "pb_out (pl_publish (sv_run (s1\<lparr>sv_run := q\<rparr>))) = Some txt1" using q(2) by simp
  from session_report [OF run q2] u run q(2) records show ?thesis
    by (intro exI [of _ "s1\<lparr>sv_run := q\<rparr>"]) (simp add: s1_def rerun_same [of 0, simplified])
qed

text \<open>
  (C30) A rerun may report the previous run. When publish of the first run sees the shutdown
  before the snapshot, it exits with 0 and no report, and the snapshot stays unread in the
  triple buffer; the reset clears the flags and bumps the generation but not the buffer, and
  publish of the second run takes it. With pacing on and an observer, as ``Run again''
  needs, there is a session of two runs over the default replay file, without any restart,
  in which all six processes exit with 0 and the report of the second run says generation 1
  while the region is at generation 2. The readings of the clock are free, as in the whole
  model; the session needs none in particular.
\<close>

theorem rerun_stale_report:
  assumes "pacing_enabled getenv" and "0 \<le> observe"
  shows "\<exists>s p. (session_step getenv True observe default_file)\<^sup>*\<^sup>* (session_start default_file 1) s \<and>
     sv_runs s = [(p, [])] \<and> all_exited p \<and> pb_out (pl_publish p) = None \<and>
     sv_past s = [] \<and> all_exited (sv_run s) \<and>
     pb_out (pl_publish (sv_run s)) = Some (''generation 1'' @ [newline] @ ''1 1020 0 2'' @ [newline]) \<and>
     c_generation (l_control (pl_region (sv_run s))) = 2"
proof -
  let ?step = "session_step getenv True observe default_file" and ?s0 = "session_start default_file 1"
  obtain p where p: "(pipeline_step getenv True)\<^sup>*\<^sup>* (pipeline_start default_file 1) p" "all_exited p"
    "core_inv no_rows [] default_file p" "tb_wf (l_snapshots (pl_region p))"
    "tb_unread (l_snapshots (pl_region p)) = Some demo_snapshot" "c_generation (l_control (pl_region p)) = 1"
    "pb_out (pl_publish p) = None" "stopped (l_control (pl_region p))"
    by (rule unread_run)
  have r1: "?step\<^sup>*\<^sup>* ?s0 (?s0\<lparr>sv_run := p\<rparr>)" using p(1) by (intro session_runs) (simp add: session_start_def)
  obtain block where r2: "?step (?s0\<lparr>sv_run := p\<rparr>)
      \<lparr>sv_run = pipeline_on default_file (reset_control ((pl_region p)\<lparr>l_supervisor := block\<rparr>)), sv_past = [], sv_runs = [(p, [])]\<rparr>"
    using session_again [OF assms, of "?s0\<lparr>sv_run := p\<rparr>" True default_file] p(8) by (auto simp: session_start_def)
  define l where "l = reset_control ((pl_region p)\<lparr>l_supervisor := block\<rparr>)"
  have "cp_exit (pl_compute p) \<noteq> None" using p(2) by (simp add: all_exited_def)
  note ready = reset_region [OF p(3) this, of block, folded l_def]
  have quiet: "quiet 1 (l_control l)" by (simp add: l_def reset_control_def Let_def quiet_def)
  have keep: "l_snapshots l = l_snapshots (pl_region p)" "c_generation (l_control l) = 2"
    using p(6) by (simp_all add: l_def reset_control_keeps)
  obtain q where q: "(pipeline_step getenv True)\<^sup>*\<^sup>* (pipeline_on default_file l) q" "all_exited q"
      "pb_out (pl_publish q) = Some (publish_text demo_snapshot)" "c_generation (l_control (pl_region q)) = 2"
    using stale_run [OF ready quiet, of demo_snapshot getenv default_file] p(4,5) by (auto simp: keep)
  define s1 where "s1 = \<lparr>sv_run = pipeline_on default_file l, sv_past = [], sv_runs = [(p, [])]\<rparr>"
  have "?step\<^sup>*\<^sup>* s1 (s1\<lparr>sv_run := q\<rparr>)" by (rule session_runs) (use q(1) in \<open>simp add: s1_def\<close>)
  with r1 r2 have "?step\<^sup>*\<^sup>* ?s0 (s1\<lparr>sv_run := q\<rparr>)"
    unfolding s1_def l_def by (meson rtranclp.rtrancl_into_rtrancl rtranclp_trans)
  with p(2,7) q(2-4) show ?thesis
    by (intro exI [of _ "s1\<lparr>sv_run := q\<rparr>"] exI [of _ p]) (simp add: s1_def demo_text)
qed

theorem rerun_stale_report_witness:
  "\<exists>s p. (session_step (\<lambda>_. None) True 104 default_file)\<^sup>*\<^sup>* (session_start default_file 1) s \<and>
     sv_runs s = [(p, [])] \<and> all_exited p \<and> all_exited (sv_run s) \<and>
     pb_out (pl_publish (sv_run s)) = Some (''generation 1'' @ [newline] @ ''1 1020 0 2'' @ [newline])"
proof -
  have "pacing_enabled (\<lambda>_. None)" by (simp add: pacing_enabled_def)
  from rerun_stale_report [OF this, of 104] show ?thesis by auto
qed

end
