(* ===== verification/Ingest_Hang.thy ===== *)
theory Ingest_Hang
  imports Restart
begin

text \<open>
  A shutdown that ingest never returns from. When compute has failed for good, the
  supervisor stores \<open>shutdown\<close> and waits for ingest. If the frame thread then gives up on a full
  ring while the source thread is inside \<open>push\<close> on the full queue, nobody
  pops from the queue and nobody closes it. The theory builds the run that leads there
  from the start of the program.
\<close>

section \<open>Rounds of the two threads\<close>

text \<open>Ingest at work: where its threads stand, the queue, the ring and the rest of the file.\<close>

definition ingest_at :: "source_pc \<Rightarrow> frames_pc \<Rightarrow> u8 list list \<Rightarrow> Record list \<Rightarrow> u8 list \<Rightarrow> ingest_local \<times> Layout \<Rightarrow> bool" where
  "ingest_at src frm queue ring rest s \<longleftrightarrow> (case s of (ig, l) \<Rightarrow>
     ig_src ig = src \<and> ig_frm ig = frm \<and> ig_in ig = rest \<and> ig_exit ig = None \<and>
     bq_wf kQueueCapacity (ig_queue ig) \<and> \<not> bq_closed (ig_queue ig) \<and> bq_items kQueueCapacity (ig_queue ig) = queue \<and>
     ring_wf kRingCapacity (l_ring l) \<and> ring_items kRingCapacity (l_ring l) = ring \<and> \<not> stopped (l_control l))"

lemma ring_limit: "unat kRingCapacity - 1 = 1023"
  by (simp add: kRingCapacity_def)

text \<open>The source thread takes the next frame up to its \<open>push\<close>, and stores it while the queue has room.\<close>

lemma source_reads:
  assumes "ingest_at SrcRead frm queue ring (wire_image r @ rest) s"
  obtains t where "ingest_step\<^sup>*\<^sup>* s t" "ingest_at (SrcPush (wire_image r)) frm queue ring rest t"
proof -
  obtain ig l where s: "s = (ig, l)" by fastforce
  let ?t = "(ig\<lparr>ig_in := rest, ig_src := SrcCheck (wire_image r)\<rparr>, l)"
  let ?u = "(ig\<lparr>ig_in := rest, ig_src := SrcPush (wire_image r)\<rparr>, l)"
  have "ingest_step s ?t" "ingest_step ?t ?u"
    using assms by (auto simp: s ingest_at_def read_frame_def kFrameBytes_def intro!: is_source)
  moreover have "ingest_at (SrcPush (wire_image r)) frm queue ring rest ?u" using assms by (simp add: s ingest_at_def)
  ultimately show thesis by (intro that [of ?u]) auto
qed

lemma source_round:
  assumes "ingest_at SrcRead frm queue ring (wire_image r @ rest) s" and "length queue < 64"
  obtains t where "ingest_step\<^sup>*\<^sup>* s t" "ingest_at SrcRead frm (queue @ [wire_image r]) ring rest t"
proof -
  obtain t where t: "ingest_step\<^sup>*\<^sup>* s t" "ingest_at (SrcPush (wire_image r)) frm queue ring rest t"
    by (rule source_reads [OF assms(1)])
  obtain ig l where tt: "t = (ig, l)" by fastforce
  from frame_queue.push_room [of "ig_queue ig" "wire_image r"] t(2) assms(2)
  obtain q where q: "BoundedQueue_push kQueueCapacity (wire_image r) (ig_queue ig) = Some (True, q)"
    "bq_wf kQueueCapacity q" "\<not> bq_closed q" "bq_items kQueueCapacity q = queue @ [wire_image r]"
    by (auto simp: tt ingest_at_def kQueueCapacity_def bq_offer_def split: option.splits prod.splits)
  let ?u = "(ig\<lparr>ig_queue := q, ig_src := SrcBeat\<rparr>, l)"
  let ?v = "(ig\<lparr>ig_queue := q, ig_beats := ig_beats ig + 1, ig_src := SrcRead\<rparr>,
    l\<lparr>l_control := (l_control l)\<lparr>c_heartbeat_ingest := ig_beats ig + 1\<rparr>\<rparr>)"
  have "ingest_step t ?u" "ingest_step ?u ?v"
    using t(2) q(1) by (auto simp: tt ingest_at_def intro!: is_source)
  moreover have "ingest_at SrcRead frm (queue @ [wire_image r]) ring rest ?v"
    using t(2) q by (simp add: tt ingest_at_def stopped_def)
  ultimately show thesis using t(1) by (intro that [of ?v]) auto
qed

text \<open>The frame thread takes a frame and its record as far as the ring.\<close>

lemma frames_decodes:
  assumes "ingest_at src FrmPop (wire_image r # queue) ring rest s" and "r_source_id r < kMaxSources"
  obtains t where "ingest_step\<^sup>*\<^sup>* s t" "ingest_at src (FrmPush r) queue ring rest t"
proof -
  obtain ig l where s: "s = (ig, l)" by fastforce
  from frame_queue.pop_first [of "ig_queue ig" "wire_image r" queue] assms(1)
  obtain q where q: "BoundedQueue_pop kQueueCapacity (ig_queue ig) = Some (Some (wire_image r), q)"
    "bq_wf kQueueCapacity q" "\<not> bq_closed q" "bq_items kQueueCapacity q = queue"
    by (auto simp: s ingest_at_def kQueueCapacity_def bq_poll_def split: option.splits prod.splits)
  let ?t = "(ig\<lparr>ig_queue := q, ig_frm := FrmDecode (wire_image r), ig_popped := ig_popped ig @ [wire_image r]\<rparr>, l)"
  let ?u = "(ig\<lparr>ig_queue := q, ig_frm := FrmPush r, ig_popped := ig_popped ig @ [wire_image r]\<rparr>, l)"
  have "ingest_step s ?t" "ingest_step ?t ?u"
    using assms(1) q(1) decode_wire_image [OF assms(2), of Record_default]
    by (auto simp: s ingest_at_def kFrameBytes_def intro!: is_frames)
  moreover have "ingest_at src (FrmPush r) queue ring rest ?u" using assms(1) q by (simp add: s ingest_at_def)
  ultimately show thesis by (intro that [of ?u]) auto
qed

lemma frames_round:
  assumes "ingest_at src FrmPop (wire_image r # queue) ring rest s" and "r_source_id r < kMaxSources" and "length ring < 1023"
  obtains t where "ingest_step\<^sup>*\<^sup>* s t" "ingest_at src FrmPop queue (ring @ [r]) rest t"
proof -
  obtain t where t: "ingest_step\<^sup>*\<^sup>* s t" "ingest_at src (FrmPush r) queue ring rest t"
    by (rule frames_decodes [OF assms(1,2)])
  obtain ig l where tt: "t = (ig, l)" by fastforce
  from record_ring.push_room [of "l_ring l" r] t(2) assms(3) obtain b where
    b: "SpscRing_try_push kRingCapacity r (l_ring l) = (True, b)" "ring_wf kRingCapacity b" "ring_items kRingCapacity b = ring @ [r]"
    using ring_limit by (auto simp: tt ingest_at_def)
  let ?u = "(ig\<lparr>ig_frm := FrmPop, ig_fed := ig_fed ig @ [r]\<rparr>, l\<lparr>l_ring := b\<rparr>)"
  have "ingest_step t ?u" using t(2) b(1) by (auto simp: tt ingest_at_def intro!: is_frames)
  moreover have "ingest_at src FrmPop queue (ring @ [r]) rest ?u" using t(2) b by (simp add: tt ingest_at_def)
  ultimately show thesis using t(1) by (intro that [of ?u]) auto
qed

lemma frames_full:
  assumes "ingest_at src FrmPop (wire_image r # queue) ring rest s" and "r_source_id r < kMaxSources" and "length ring = 1023"
  obtains t where "ingest_step\<^sup>*\<^sup>* s t" "ingest_at src (FrmFull r) queue ring rest t"
proof -
  obtain t where t: "ingest_step\<^sup>*\<^sup>* s t" "ingest_at src (FrmPush r) queue ring rest t"
    by (rule frames_decodes [OF assms(1,2)])
  obtain ig l where tt: "t = (ig, l)" by fastforce
  have "SpscRing_try_push kRingCapacity r (l_ring l) = (False, l_ring l)"
    using record_ring.push_full [of "l_ring l" r] t(2) assms(3) ring_limit by (simp add: tt ingest_at_def del: length_ring_items)
  then have "ingest_step t (ig\<lparr>ig_frm := FrmFull r\<rparr>, l)" using t(2) by (auto simp: tt ingest_at_def intro!: is_frames)
  moreover have "ingest_at src (FrmFull r) queue ring rest (ig\<lparr>ig_frm := FrmFull r\<rparr>, l)" using t(2) by (simp add: tt ingest_at_def)
  ultimately show thesis using t(1) by (intro that [of "(ig\<lparr>ig_frm := FrmFull r\<rparr>, l)"]) auto
qed

section \<open>Filling the ring and the queue\<close>

lemma fill_ring:
  assumes "ingest_at SrcRead FrmPop [] ring (concat (map wire_image rs) @ rest) s"
    and "list_all (\<lambda>r. r_source_id r < kMaxSources) rs" and "length ring + length rs \<le> 1023"
  shows "\<exists>t. ingest_step\<^sup>*\<^sup>* s t \<and> ingest_at SrcRead FrmPop [] (ring @ rs) rest t"
  using assms
proof (induction rs arbitrary: ring s)
  case (Cons r rs)
  obtain t where t: "ingest_step\<^sup>*\<^sup>* s t" "ingest_at SrcRead FrmPop [wire_image r] ring (concat (map wire_image rs) @ rest) t"
    using source_round [of FrmPop "[]" ring r "concat (map wire_image rs) @ rest" s] Cons.prems(1) by auto
  obtain u where u: "ingest_step\<^sup>*\<^sup>* t u" "ingest_at SrcRead FrmPop [] (ring @ [r]) (concat (map wire_image rs) @ rest) u"
    using frames_round [OF t(2)] Cons.prems(2,3) by auto
  obtain v where "ingest_step\<^sup>*\<^sup>* u v" "ingest_at SrcRead FrmPop [] (ring @ r # rs) rest v"
    using Cons.IH [OF u(2)] Cons.prems(2,3) by auto
  with t(1) u(1) show ?case by (meson rtranclp_trans)
qed auto

lemma fill_queue:
  assumes "ingest_at SrcRead frm queue ring (concat (map wire_image rs) @ rest) s" and "length queue + length rs \<le> 64"
  shows "\<exists>t. ingest_step\<^sup>*\<^sup>* s t \<and> ingest_at SrcRead frm (queue @ map wire_image rs) ring rest t"
  using assms
proof (induction rs arbitrary: queue s)
  case (Cons r rs)
  obtain t where t: "ingest_step\<^sup>*\<^sup>* s t" "ingest_at SrcRead frm (queue @ [wire_image r]) ring (concat (map wire_image rs) @ rest) t"
    using source_round [of frm queue ring r "concat (map wire_image rs) @ rest" s] Cons.prems by auto
  obtain u where "ingest_step\<^sup>*\<^sup>* t u" "ingest_at SrcRead frm (queue @ map wire_image (r # rs)) ring rest u"
    using Cons.IH [OF t(2)] Cons.prems(2) by auto
  with t(1) show ?case by (meson rtranclp_trans)
qed auto

text \<open>Both threads before their last operation: 1023 records in the ring, 64 frames in the queue, one in each hand.\<close>

lemma ingest_jams:
  assumes "ingest_at SrcRead FrmPop [] [] (concat (map wire_image rs)) s"
    and "list_all (\<lambda>r. r_source_id r < kMaxSources) rs" and "1089 \<le> length rs"
  shows "\<exists>t frame r queue ring rest. ingest_step\<^sup>*\<^sup>* s t \<and> length queue = 64 \<and>
    ingest_at (SrcPush frame) (FrmFull r) queue ring rest t"
proof -
  define as where "as = take 1023 rs"
  define bs where "bs = take 64 (drop 1024 rs)"
  define cs where "cs = drop 1089 rs"
  have lens: "length as = 1023" "length bs = 64" using assms(3) by (simp_all add: as_def bs_def)
  have "rs = as @ rs ! 1023 # drop 1024 rs" using assms(3) id_take_nth_drop [of 1023 rs] by (simp add: as_def)
  moreover have "drop 1024 rs = bs @ drop 1088 rs" using append_take_drop_id [of 64 "drop 1024 rs"] by (simp add: bs_def)
  moreover have "drop 1088 rs = rs ! 1088 # cs" using assms(3) Cons_nth_drop_Suc [of 1088 rs] by (simp add: cs_def)
  ultimately obtain a b where rs: "rs = as @ a # bs @ b # cs" by metis
  then have valid: "list_all (\<lambda>r. r_source_id r < kMaxSources) as" "r_source_id a < kMaxSources"
    using assms(2) by simp_all
  let ?rest = "concat (map wire_image bs) @ wire_image b @ concat (map wire_image cs)"
  obtain t1 where t1: "ingest_step\<^sup>*\<^sup>* s t1" "ingest_at SrcRead FrmPop [] as (wire_image a @ ?rest) t1"
    using fill_ring [of "[]" as "wire_image a @ ?rest" s] assms(1) valid(1) lens(1) by (auto simp: rs)
  obtain t2 where t2: "ingest_step\<^sup>*\<^sup>* t1 t2" "ingest_at SrcRead FrmPop [wire_image a] as ?rest t2"
    using source_round [OF t1(2)] by auto
  obtain t3 where t3: "ingest_step\<^sup>*\<^sup>* t2 t3" "ingest_at SrcRead (FrmFull a) [] as ?rest t3"
    using frames_full [OF t2(2) valid(2) lens(1)] by blast
  obtain t4 where t4: "ingest_step\<^sup>*\<^sup>* t3 t4"
    "ingest_at SrcRead (FrmFull a) (map wire_image bs) as (wire_image b @ concat (map wire_image cs)) t4"
    using fill_queue [OF t3(2)] lens(2) by auto
  obtain t5 where t5: "ingest_step\<^sup>*\<^sup>* t4 t5"
    "ingest_at (SrcPush (wire_image b)) (FrmFull a) (map wire_image bs) as (concat (map wire_image cs)) t5"
    using source_reads [OF t4(2)] by blast
  have "ingest_step\<^sup>*\<^sup>* s t5" using t1(1) t2(1) t3(1) t4(1) t5(1) by (meson rtranclp_trans)
  with t5(2) lens(2) show ?thesis by (metis length_map)
qed

section \<open>The shutdown\<close>

text \<open>Three attempts of compute killed at once, and the shutdown.\<close>

lemma compute_fails:
  assumes "cp_exit (pl_compute p) = None"
  shows "\<exists>q past. (restart_step getenv can_open)\<^sup>*\<^sup>* (p, []) (q, past) \<and> pl_ingest q = pl_ingest p \<and>
    stopped (l_control (pl_region q))"
proof -
  let ?p1 = "restart_compute p" and ?past1 = "[cp_taken (pl_compute p)]"
  let ?p2 = "restart_compute ?p1" and ?past2 = "[cp_taken (pl_compute p), []]"
  have "restart_step getenv can_open (p, []) (?p1, ?past1)"
    using rt_restart [of p "[]" getenv can_open] assms by (simp add: kMaxComputeAttempts_def)
  moreover have "restart_step getenv can_open (?p1, ?past1) (?p2, ?past2)"
    using rt_restart [of ?p1 ?past1 getenv can_open] by (simp add: kMaxComputeAttempts_def restart_compute_def compute_start_def)
  moreover have "restart_step getenv can_open (?p2, ?past2) (give_up ?p2, ?past2)"
    using rt_give_up [of ?p2 ?past2 getenv can_open] by (simp add: kMaxComputeAttempts_def restart_compute_def compute_start_def)
  ultimately have "(restart_step getenv can_open)\<^sup>*\<^sup>* (p, []) (give_up ?p2, ?past2)" by auto
  moreover have "pl_ingest (give_up ?p2) = pl_ingest p" "stopped (l_control (pl_region (give_up ?p2)))"
    by (simp_all add: give_up_def restart_compute_def stopped_def)
  ultimately show ?thesis by blast
qed

definition jammed :: "ingest_local \<Rightarrow> bool" where
  "jammed ig \<longleftrightarrow> ig_frm ig = FrmDone \<and> (\<exists>frame. ig_src ig = SrcPush frame) \<and> ig_exit ig = None \<and>
     \<not> bq_closed (ig_queue ig) \<and> bq_size (ig_queue ig) = kQueueCapacity"

lemma jammed_stuck: "jammed ig \<Longrightarrow> \<not> ingest_step (ig, l) t"
  using bq_push_None [of kQueueCapacity _ "ig_queue ig"] by (fastforce simp: jammed_def ingest_step.simps)

lemma jammed_stays:
  assumes "(restart_step getenv can_open)\<^sup>*\<^sup>* s t" and "jammed (pl_ingest (fst s))"
  shows "pl_ingest (fst t) = pl_ingest (fst s)"
  using assms(1)
proof (induction rule: rtranclp_induct)
  case (step t u)
  then have jam: "jammed (pl_ingest (fst t))" using assms(2) by simp
  from step.hyps(2) have "pl_ingest (fst u) = pl_ingest (fst t)"
  proof cases
    case (rt_step p q past)
    from rt_step(3) show ?thesis
      by cases (use jam jammed_stuck rt_step in \<open>auto simp: supervisor_shutdown_def split: if_splits\<close>)
  qed (simp_all add: restart_compute_def give_up_def)
  with step.IH show ?case by simp
qed simp

section \<open>Properties\<close>

text \<open>
  (C31) A shutdown can hang ingest. On every replay file with at least 1089 frames of valid
  records there is a run of the program, with three failed attempts of compute, that reaches
  a state after the supervisor's shutdown from which ingest never exits, whatever any process
  does: the frame thread gave up on the full ring and the source thread stays inside \<open>push\<close>
  on the full queue, which nobody pops or closes any more. The supervisor waits for ingest
  forever.
\<close>

theorem ingest_shutdown_hang:
  assumes "list_all (\<lambda>r. r_source_id r < kMaxSources) rs" and "1089 \<le> length rs"
  shows "\<exists>p past. (restart_step getenv can_open)\<^sup>*\<^sup>* (pipeline_start (concat (map wire_image rs)) 1, []) (p, past) \<and>
    stopped (l_control (pl_region p)) \<and>
    \<not> (\<exists>q past'. (restart_step getenv can_open)\<^sup>*\<^sup>* (p, past) (q, past') \<and> ig_exit (pl_ingest q) \<noteq> None)"
proof -
  let ?p0 = "pipeline_start (concat (map wire_image rs)) 1"
  have "ingest_at SrcRead FrmPop [] [] (concat (map wire_image rs)) (pl_ingest ?p0, pl_region ?p0)"
    using start_region(1) [of "concat (map wire_image rs)" 1]
    by (simp add: ingest_at_def region_ready_def)
      (simp add: pipeline_start_def pipeline_on_def ingest_start_def BoundedQueue_init_def bq_wf_def bq_items_def kQueueCapacity_def)
  from ingest_jams [OF this assms] obtain t frame r queue ring rest where
    t: "ingest_step\<^sup>*\<^sup>* (pl_ingest ?p0, pl_region ?p0) t" "length queue = 64"
      "ingest_at (SrcPush frame) (FrmFull r) queue ring rest t" by blast
  define p1 where "p1 = ?p0\<lparr>pl_ingest := fst t, pl_region := snd t\<rparr>"
  have r1: "(restart_step getenv can_open)\<^sup>*\<^sup>* (?p0, []) (p1, [])"
    unfolding p1_def by (rule pipeline_restarts [OF ingest_runs [OF t(1)]])
  have "cp_exit (pl_compute p1) = None" by (simp add: p1_def pipeline_start_def pipeline_on_def compute_start_def)
  from compute_fails [OF this, of getenv can_open] obtain p2 past where
    r2: "(restart_step getenv can_open)\<^sup>*\<^sup>* (p1, []) (p2, past)" "pl_ingest p2 = fst t" "stopped (l_control (pl_region p2))"
    by (auto simp: p1_def)
  define ig where "ig = (fst t)\<lparr>ig_frm := FrmDone\<rparr>"
  define p where "p = p2\<lparr>pl_ingest := ig\<rparr>"
  have "ingest_step (pl_ingest p2, pl_region p2) (ig, pl_region p2)"
    using t(3) r2(2,3) by (cases t) (auto simp: ingest_at_def ig_def intro!: is_frames)
  from rt_step [OF pl_ingest_step [OF this]] have "restart_step getenv can_open (p2, past) (p, past)"
    by (simp add: p_def)
  with r1 r2(1) have run: "(restart_step getenv can_open)\<^sup>*\<^sup>* (?p0, []) (p, past)" by (meson rtranclp.simps rtranclp_trans)
  have "jammed (pl_ingest p)"
    using t(2,3) length_bq_items [of kQueueCapacity "ig_queue (fst t)"]
    by (cases t) (auto simp: p_def ig_def jammed_def ingest_at_def kQueueCapacity_def)
  then have "ig_exit (pl_ingest q) = None" if "(restart_step getenv can_open)\<^sup>*\<^sup>* (p, past) (q, past')" for q past'
    using jammed_stays [OF that] by (simp add: jammed_def)
  with run r2(3) show ?thesis by (intro exI [of _ p] exI [of _ past]) (auto simp: p_def)
qed

theorem ingest_shutdown_hang_witness:
  "\<exists>p past. (restart_step no_pace True)\<^sup>*\<^sup>* (pipeline_start (concat (map wire_image (replicate 1089 sample_record))) 1, []) (p, past) \<and>
    stopped (l_control (pl_region p)) \<and>
    \<not> (\<exists>q past'. (restart_step no_pace True)\<^sup>*\<^sup>* (p, past) (q, past') \<and> ig_exit (pl_ingest q) \<noteq> None)"
proof -
  have "r_source_id sample_record < kMaxSources" by (simp add: sample_record_def kMaxSources_def)
  then have "list_all (\<lambda>r. r_source_id r < kMaxSources) (replicate 1089 sample_record)"
    by (simp add: list_all_iff)
  moreover have "1089 \<le> length (replicate 1089 sample_record)" by simp
  ultimately show ?thesis by (rule ingest_shutdown_hang)
qed

end
