(* ===== verification/Weak_Memory.thy ===== *)
theory Weak_Memory
  imports Prelude
begin

text \<open>
  Atomic accesses with the memory orders of C++ as the program uses them. A
  location is the list of the stores to it, in modification order; the position
  of a store is its timestamp. A thread has a view: the timestamp below which it
  can no longer read, per location. A store carries the view it releases, a
  load may take any store not below the view of its thread, and what it learns
  depends on the order: an acquire load joins the released view at once, a
  relaxed load keeps it until the next acquire fence. Likewise a release store
  releases the current view of its thread, a relaxed store only the view at its
  last release fence.
\<close>

type_synonym 'l view = "'l \<Rightarrow> nat"

record 'l thread_views =
  tv_cur :: "'l view"
  tv_rel :: "'l view"
  tv_acq :: "'l view"

definition thread_start :: "'l thread_views" where
  "thread_start = \<lparr>tv_cur = (\<lambda>_. 0), tv_rel = (\<lambda>_. 0), tv_acq = (\<lambda>_. 0)\<rparr>"

definition bump :: "'l \<Rightarrow> nat \<Rightarrow> 'l view \<Rightarrow> 'l view" where
  "bump x t v = v(x := max (v x) t)"

text \<open>A store at timestamp \<open>t\<close>: the view it carries, and the thread after it.\<close>

definition store_relaxed :: "'l \<Rightarrow> nat \<Rightarrow> 'l thread_views \<Rightarrow> 'l view \<times> 'l thread_views" where
  "store_relaxed x t th = (bump x t (tv_rel th), th\<lparr>tv_cur := bump x t (tv_cur th)\<rparr>)"

definition store_release :: "'l \<Rightarrow> nat \<Rightarrow> 'l thread_views \<Rightarrow> 'l view \<times> 'l thread_views" where
  "store_release x t th = (bump x t (tv_cur th), th\<lparr>tv_cur := bump x t (tv_cur th)\<rparr>)"

text \<open>A load of the store at timestamp \<open>t\<close>, which carries the view \<open>m\<close>.\<close>

definition load_relaxed :: "'l \<Rightarrow> nat \<Rightarrow> 'l view \<Rightarrow> 'l thread_views \<Rightarrow> 'l thread_views" where
  "load_relaxed x t m th = th\<lparr>tv_cur := bump x t (tv_cur th), tv_acq := sup (tv_acq th) m\<rparr>"

definition load_acquire :: "'l \<Rightarrow> nat \<Rightarrow> 'l view \<Rightarrow> 'l thread_views \<Rightarrow> 'l thread_views" where
  "load_acquire x t m th = th\<lparr>tv_cur := sup (bump x t (tv_cur th)) m, tv_acq := sup (tv_acq th) m\<rparr>"

definition fence_release :: "'l thread_views \<Rightarrow> 'l thread_views" where
  "fence_release th = th\<lparr>tv_rel := tv_cur th\<rparr>"

definition fence_acquire :: "'l thread_views \<Rightarrow> 'l thread_views" where
  "fence_acquire th = th\<lparr>tv_cur := sup (tv_cur th) (tv_acq th)\<rparr>"

text \<open>The stores a thread may read.\<close>

definition readable :: "'l \<Rightarrow> ('v \<times> 'l view) list \<Rightarrow> 'l thread_views \<Rightarrow> nat \<Rightarrow> bool" where
  "readable x hist th t \<longleftrightarrow> tv_cur th x \<le> t \<and> t < length hist"

text \<open>
  An exchange with acquire and release: it takes the newest store, and the view it
  carries contains the one it took. The old value, the stores and the thread after it.
\<close>

definition exchange_acq_rel :: "'l \<Rightarrow> 'v \<Rightarrow> ('v \<times> 'l view) list \<Rightarrow> 'l thread_views \<Rightarrow>
    'v \<times> ('v \<times> 'l view) list \<times> 'l thread_views" where
  "exchange_acq_rel x v hist th =
     (case last hist of (old, m) \<Rightarrow>
        case store_release x (length hist) (load_acquire x (length hist - 1) m th) of (m', th') \<Rightarrow>
          (old, hist @ [(v, m')], th'))"

lemma bump_apply [simp]: "bump x t v y = (if y = x then max (v x) t else v y)"
  by (simp add: bump_def)

lemmas weak_access = store_relaxed_def store_release_def load_relaxed_def load_acquire_def fence_release_def fence_acquire_def

lemma exchange_views:
  assumes "exchange_acq_rel x v hist th = (old, hist', th')"
  shows "old = fst (last hist)" and "hist' = hist @ [(v, tv_cur th')]"
    and "tv_cur th' = bump x (length hist) (sup (bump x (length hist - 1) (tv_cur th)) (snd (last hist)))"
  using assms by (auto simp: exchange_acq_rel_def weak_access split: prod.splits)

text \<open>How far a thread is in the history of the location it accessed.\<close>

lemma load_acquire_at:
  assumes "tv_cur th x \<le> t" and "m x \<le> t"
  shows "tv_cur (load_acquire x t m th) x = t"
  using assms by (simp add: load_acquire_def sup_max)

lemma exchange_newest:
  assumes "exchange_acq_rel x v hist th = (old, hist', th')"
    and "tv_cur th x \<le> length hist" and "snd (last hist) x \<le> length hist"
  shows "tv_cur th' x = length hist"
  using exchange_views(3) [OF assms(1)] assms(2,3) by (simp add: sup_max)

lemma exchange_learns:
  assumes "exchange_acq_rel x v hist th = (old, hist', th')"
  shows "tv_cur th \<le> tv_cur th'" and "snd (last hist) \<le> tv_cur th'"
  using exchange_views(3) [OF assms] by (auto simp: le_fun_def le_max_iff_disj sup_max)

lemma bump_le: "v \<le> bump x t v"
  by (simp add: le_fun_def)

lemma load_acquire_le: "tv_cur th \<le> tv_cur (load_acquire x t m th)"
  by (simp add: load_acquire_def le_fun_def le_max_iff_disj sup_max)

end
