(* ===== verification/Seqlock_Weak.thy ===== *)
theory Seqlock_Weak
  imports Seqlock Weak_Memory "HOL-Library.Sublist"
begin

text \<open>
  \<^verbatim>\<open>include/ratehub/seqlock.hpp\<close> under the memory orders it is written with: one writer and
  any number of readers, each access with its own order and each fence a step.
  The reader may see words of a publish in progress, old words after newer
  ones, and old sequence numbers; the two fences are what keeps a torn value
  from being returned.
\<close>

section \<open>The lock access by access\<close>

datatype lock_loc = SeqLoc | WordLoc nat

type_synonym lock_views = "lock_loc thread_views"

text \<open>The stores to \<open>seq_\<close> and to each word, oldest first, with the views they carry.\<close>

record weak_lock =
  wl_seq :: "(u32 \<times> lock_loc view) list"
  wl_words :: "(u64 \<times> lock_loc view) list list"

definition weak_lock_init :: "nat \<Rightarrow> weak_lock" where
  "weak_lock_init kWords = \<lparr>wl_seq = [(0, \<lambda>_. 0)], wl_words = replicate kWords [(0, \<lambda>_. 0)]\<rparr>"

text \<open>
  The writer inside \<open>publish\<close> has loaded the sequence, stored the odd value, or
  passed the release fence and is storing word \<open>i\<close>. The reader inside \<open>load\<close> is
  at the start of an attempt, is copying, or has passed the acquire fence; the
  third component of \<open>WRCopy\<close> and \<open>WRFenced\<close> remembers the timestamp of the \<open>begin\<close> load.
\<close>

datatype weak_writer = WWIdle | WWLoaded "u64 list" u32 | WWOdd "u64 list" u32 | WWCopy "u64 list" u32 nat

datatype weak_reader = WRIdle | WRBegin nat | WRCopy nat u32 nat "u64 list" | WRFenced nat u32 nat "u64 list" | WRFail

text \<open>
  A successful load is remembered with the timestamps of its \<open>begin\<close> and \<open>end\<close> loads, a
  completed publish with its payload.
\<close>

record weak_sys =
  ws_lock :: weak_lock
  ws_w :: weak_writer
  ws_wv :: lock_views
  ws_done :: "u64 list list"
  ws_r :: "nat \<Rightarrow> weak_reader"
  ws_rv :: "nat \<Rightarrow> lock_views"
  ws_loads :: "nat \<Rightarrow> (nat \<times> nat \<times> u64 list) list"

definition weak_start :: "nat \<Rightarrow> weak_sys" where
  "weak_start kWords = \<lparr>ws_lock = weak_lock_init kWords, ws_w = WWIdle, ws_wv = thread_start, ws_done = [],
     ws_r = (\<lambda>_. WRIdle), ws_rv = (\<lambda>_. thread_start), ws_loads = (\<lambda>_. [])\<rparr>"

abbreviation seq_hist :: "weak_sys \<Rightarrow> (u32 \<times> lock_loc view) list" where
  "seq_hist s \<equiv> wl_seq (ws_lock s)"

abbreviation word_hist :: "weak_sys \<Rightarrow> nat \<Rightarrow> (u64 \<times> lock_loc view) list" where
  "word_hist s i \<equiv> wl_words (ws_lock s) ! i"

inductive weak_write_step :: "nat \<Rightarrow> weak_sys \<Rightarrow> weak_sys \<Rightarrow> bool" for kWords where
  ww_load: "ws_w s = WWIdle \<Longrightarrow> length raw = kWords \<Longrightarrow> readable SeqLoc (seq_hist s) (ws_wv s) t \<Longrightarrow>
    seq_hist s ! t = (seq, m) \<Longrightarrow>
    weak_write_step kWords s (s\<lparr>ws_w := WWLoaded raw seq, ws_wv := load_relaxed SeqLoc t m (ws_wv s)\<rparr>)"
| ww_odd: "ws_w s = WWLoaded raw seq \<Longrightarrow> store_relaxed SeqLoc (length (seq_hist s)) (ws_wv s) = (m, th) \<Longrightarrow>
    weak_write_step kWords s (s\<lparr>ws_lock := (ws_lock s)\<lparr>wl_seq := seq_hist s @ [(seq + 1, m)]\<rparr>,
      ws_w := WWOdd raw seq, ws_wv := th\<rparr>)"
| ww_fence: "ws_w s = WWOdd raw seq \<Longrightarrow>
    weak_write_step kWords s (s\<lparr>ws_w := WWCopy raw seq 0, ws_wv := fence_release (ws_wv s)\<rparr>)"
| ww_word: "ws_w s = WWCopy raw seq i \<Longrightarrow> i < kWords \<Longrightarrow>
    store_relaxed (WordLoc i) (length (word_hist s i)) (ws_wv s) = (m, th) \<Longrightarrow>
    weak_write_step kWords s (s\<lparr>ws_lock := (ws_lock s)\<lparr>wl_words := (wl_words (ws_lock s))[i := word_hist s i @ [(raw ! i, m)]]\<rparr>,
      ws_w := WWCopy raw seq (Suc i), ws_wv := th\<rparr>)"
| ww_even: "ws_w s = WWCopy raw seq i \<Longrightarrow> i = kWords \<Longrightarrow>
    store_release SeqLoc (length (seq_hist s)) (ws_wv s) = (m, th) \<Longrightarrow>
    weak_write_step kWords s (s\<lparr>ws_lock := (ws_lock s)\<lparr>wl_seq := seq_hist s @ [(seq + 2, m)]\<rparr>,
      ws_w := WWIdle, ws_wv := th, ws_done := ws_done s @ [raw]\<rparr>)"

definition weak_retry :: "nat \<Rightarrow> weak_reader" where
  "weak_retry attempt = (if Suc attempt < 64 then WRBegin (Suc attempt) else WRFail)"

definition set_reader :: "nat \<Rightarrow> weak_reader \<Rightarrow> lock_views \<Rightarrow> weak_sys \<Rightarrow> weak_sys" where
  "set_reader r pc th s = s\<lparr>ws_r := (ws_r s)(r := pc), ws_rv := (ws_rv s)(r := th)\<rparr>"

inductive weak_read_step :: "nat \<Rightarrow> nat \<Rightarrow> weak_sys \<Rightarrow> weak_sys \<Rightarrow> bool" for kWords r where
  wr_call: "ws_r s r = WRIdle \<Longrightarrow> weak_read_step kWords r s (set_reader r (WRBegin 0) (ws_rv s r) s)"
| wr_begin: "ws_r s r = WRBegin a \<Longrightarrow> readable SeqLoc (seq_hist s) (ws_rv s r) t \<Longrightarrow> seq_hist s ! t = (b, m) \<Longrightarrow>
    weak_read_step kWords r s
      (set_reader r (if b AND 1 \<noteq> 0 then weak_retry a else WRCopy a b t []) (load_acquire SeqLoc t m (ws_rv s r)) s)"
| wr_word: "ws_r s r = WRCopy a b tb raw \<Longrightarrow> length raw < kWords \<Longrightarrow>
    readable (WordLoc (length raw)) (word_hist s (length raw)) (ws_rv s r) t \<Longrightarrow> word_hist s (length raw) ! t = (v, m) \<Longrightarrow>
    weak_read_step kWords r s
      (set_reader r (WRCopy a b tb (raw @ [v])) (load_relaxed (WordLoc (length raw)) t m (ws_rv s r)) s)"
| wr_fence: "ws_r s r = WRCopy a b tb raw \<Longrightarrow> length raw = kWords \<Longrightarrow>
    weak_read_step kWords r s (set_reader r (WRFenced a b tb raw) (fence_acquire (ws_rv s r)) s)"
| wr_changed: "ws_r s r = WRFenced a b tb raw \<Longrightarrow> readable SeqLoc (seq_hist s) (ws_rv s r) t \<Longrightarrow> seq_hist s ! t = (e, m) \<Longrightarrow>
    b \<noteq> e \<Longrightarrow> weak_read_step kWords r s (set_reader r (weak_retry a) (load_relaxed SeqLoc t m (ws_rv s r)) s)"
| wr_match: "ws_r s r = WRFenced a b tb raw \<Longrightarrow> readable SeqLoc (seq_hist s) (ws_rv s r) t \<Longrightarrow> seq_hist s ! t = (e, m) \<Longrightarrow>
    b = e \<Longrightarrow> weak_read_step kWords r s
      ((set_reader r WRIdle (load_relaxed SeqLoc t m (ws_rv s r)) s)\<lparr>ws_loads := (ws_loads s)(r := ws_loads s r @ [(tb, t, raw)])\<rparr>)"
| wr_failed: "ws_r s r = WRFail \<Longrightarrow> weak_read_step kWords r s (set_reader r WRIdle (ws_rv s r) s)"

definition weak_step :: "nat \<Rightarrow> weak_sys \<Rightarrow> weak_sys \<Rightarrow> bool" where
  "weak_step kWords s t \<longleftrightarrow> weak_write_step kWords s t \<or> (\<exists>r. weak_read_step kWords r s t)"

text \<open>The payload after the first \<open>n\<close> publishes.\<close>

definition weak_value :: "nat \<Rightarrow> weak_sys \<Rightarrow> nat \<Rightarrow> u64 list" where
  "weak_value kWords s n = (replicate kWords 0 # ws_done s) ! n"

section \<open>Invariant\<close>

text \<open>
  The store with timestamp \<open>t\<close> in the history of \<open>seq_\<close> has value \<open>t\<close>; the even one of publish
  \<open>m\<close> releases all words of that publish, and each word of publish \<open>v\<close> carries the odd store
  before it.
\<close>

definition hist_inv :: "nat \<Rightarrow> weak_sys \<Rightarrow> bool" where
  "hist_inv kWords s \<longleftrightarrow> length (wl_words (ws_lock s)) = kWords \<and>
     (\<forall>d \<in> set (ws_done s). length d = kWords) \<and>
     (\<forall>t < length (seq_hist s). fst (seq_hist s ! t) = of_nat t) \<and>
     (\<forall>m i. 2 * m < length (seq_hist s) \<and> i < kWords \<longrightarrow> m \<le> snd (seq_hist s ! (2 * m)) (WordLoc i)) \<and>
     (\<forall>i v. i < kWords \<and> v < length (word_hist s i) \<longrightarrow> 2 * v \<le> Suc (snd (word_hist s i ! v) SeqLoc)) \<and>
     (\<forall>i v. i < kWords \<and> v \<le> length (ws_done s) \<longrightarrow> fst (word_hist s i ! v) = weak_value kWords s v ! i) \<and>
     length (seq_hist s) \<le> 2 * length (ws_done s) + 2"

text \<open>The writer sees its own stores.\<close>

fun words_stored :: "weak_writer \<Rightarrow> nat" where
  "words_stored (WWCopy raw seq i) = i"
| "words_stored _ = 0"

definition writer_inv :: "nat \<Rightarrow> weak_sys \<Rightarrow> bool" where
  "writer_inv kWords s \<longleftrightarrow>
     Suc (tv_cur (ws_wv s) SeqLoc) = length (seq_hist s) \<and>
     (\<forall>i < kWords. Suc (tv_cur (ws_wv s) (WordLoc i)) = length (word_hist s i) \<and>
        length (word_hist s i) = length (ws_done s) + (if i < words_stored (ws_w s) then 2 else 1)) \<and>
     (case ws_w s of
        WWIdle \<Rightarrow> length (seq_hist s) = 2 * length (ws_done s) + 1
      | WWLoaded raw seq \<Rightarrow> length (seq_hist s) = 2 * length (ws_done s) + 1 \<and>
          seq = of_nat (2 * length (ws_done s)) \<and> length raw = kWords
      | WWOdd raw seq \<Rightarrow> length (seq_hist s) = 2 * length (ws_done s) + 2 \<and>
          seq = of_nat (2 * length (ws_done s)) \<and> length raw = kWords
      | WWCopy raw seq i \<Rightarrow> length (seq_hist s) = 2 * length (ws_done s) + 2 \<and>
          seq = of_nat (2 * length (ws_done s)) \<and> length raw = kWords \<and> i \<le> kWords \<and>
          tv_rel (ws_wv s) SeqLoc = 2 * length (ws_done s) + 1 \<and>
          (\<forall>j < i. fst (word_hist s j ! Suc (length (ws_done s))) = raw ! j))"

text \<open>
  A word collected after the \<open>begin\<close> load of publish \<open>m\<close> is not older than \<open>m\<close>, and its odd store
  is below the bound \<open>n\<close> in the history of \<open>seq_\<close>.
\<close>

definition collected :: "weak_sys \<Rightarrow> nat \<Rightarrow> nat \<Rightarrow> u64 list \<Rightarrow> bool" where
  "collected s m n raw \<longleftrightarrow> (\<forall>j < length raw. \<exists>v < length (word_hist s j).
     raw ! j = fst (word_hist s j ! v) \<and> m \<le> v \<and> 2 * v \<le> Suc n)"

definition begun :: "nat \<Rightarrow> weak_sys \<Rightarrow> nat \<Rightarrow> u32 \<Rightarrow> nat \<Rightarrow> bool" where
  "begun kWords s r b tb \<longleftrightarrow> even tb \<and> tb < length (seq_hist s) \<and> b = of_nat tb \<and> tb \<le> tv_cur (ws_rv s r) SeqLoc \<and>
     (\<forall>i < kWords. tb div 2 \<le> tv_cur (ws_rv s r) (WordLoc i)) \<and> (\<forall>x \<in> set (ws_loads s r). fst x \<le> tb)"

definition load_ok :: "nat \<Rightarrow> weak_sys \<Rightarrow> nat \<times> nat \<times> u64 list \<Rightarrow> bool" where
  "load_ok kWords s x \<longleftrightarrow> (case x of (tb, te, raw) \<Rightarrow> te < tb + 2 ^ 32 \<longrightarrow>
     even tb \<and> tb div 2 \<le> length (ws_done s) \<and> raw = weak_value kWords s (tb div 2))"

definition reader_inv :: "nat \<Rightarrow> weak_sys \<Rightarrow> nat \<Rightarrow> bool" where
  "reader_inv kWords s r \<longleftrightarrow>
     (case ws_r s r of
        WRCopy a b tb raw \<Rightarrow> begun kWords s r b tb \<and> length raw \<le> kWords \<and>
          collected s (tb div 2) (tv_acq (ws_rv s r) SeqLoc) raw
      | WRFenced a b tb raw \<Rightarrow> begun kWords s r b tb \<and> length raw = kWords \<and>
          collected s (tb div 2) (tv_cur (ws_rv s r) SeqLoc) raw
      | _ \<Rightarrow> True) \<and>
     sorted_wrt (\<lambda>x y. fst x \<le> fst y) (ws_loads s r) \<and>
     (\<forall>x \<in> set (ws_loads s r). fst x \<le> tv_cur (ws_rv s r) SeqLoc \<and> load_ok kWords s x)"

definition weak_inv :: "nat \<Rightarrow> weak_sys \<Rightarrow> bool" where
  "weak_inv kWords s \<longleftrightarrow> hist_inv kWords s \<and> writer_inv kWords s \<and> (\<forall>r. reader_inv kWords s r)"

lemma weak_inv_start: "weak_inv kWords (weak_start kWords)"
  by (auto simp: weak_inv_def hist_inv_def writer_inv_def reader_inv_def weak_start_def weak_lock_init_def thread_start_def
      weak_value_def)

subsection \<open>The writer\<close>

lemma weak_value_done:
  "v \<le> length (ws_done s) \<Longrightarrow> ws_done t = ws_done s @ ds \<Longrightarrow> weak_value kWords t v = weak_value kWords s v"
  by (auto simp: weak_value_def nth_append nth_Cons split: nat.splits)

text \<open>A step of the writer only appends to the histories.\<close>

lemma write_step_appends:
  assumes "weak_write_step kWords s t" and "hist_inv kWords s"
  shows "prefix (seq_hist s) (seq_hist t)" and "\<forall>i < kWords. prefix (word_hist s i) (word_hist t i)"
    and "prefix (ws_done s) (ws_done t)" and "ws_r t = ws_r s" and "ws_rv t = ws_rv s" and "ws_loads t = ws_loads s"
  using assms by (cases; auto simp: hist_inv_def nth_list_update)+

lemma prefix_nth: "prefix xs ys \<Longrightarrow> i < length xs \<Longrightarrow> ys ! i = xs ! i"
  by (auto simp: prefix_def nth_append)

lemma reader_inv_write:
  assumes inv: "weak_inv kWords s" and st: "weak_write_step kWords s t"
  shows "reader_inv kWords t r"
proof -
  from inv have hist: "hist_inv kWords s" and rd: "reader_inv kWords s r" by (simp_all add: weak_inv_def)
  note app = write_step_appends [OF st hist]
  have coll: "collected t m n raw" if "collected s m n raw" "length raw \<le> kWords" for m n raw
    unfolding collected_def
  proof (intro allI impI)
    fix j assume j: "j < length raw"
    then have pre: "prefix (word_hist s j) (word_hist t j)" using app(2) that(2) by simp
    from that(1) j obtain v where v: "v < length (word_hist s j)" "raw ! j = fst (word_hist s j ! v)" "m \<le> v" "2 * v \<le> Suc n"
      by (auto simp: collected_def)
    with pre have "v < length (word_hist t j)" "raw ! j = fst (word_hist t j ! v)"
      using prefix_nth [OF pre] prefix_length_le [OF pre] by simp_all
    with v(3,4) show "\<exists>v < length (word_hist t j). raw ! j = fst (word_hist t j ! v) \<and> m \<le> v \<and> 2 * v \<le> Suc n" by blast
  qed
  have beg: "begun kWords t r b tb" if "begun kWords s r b tb" for b tb
    using that app prefix_length_le [OF app(1)] by (auto simp: begun_def)
  obtain ds where ds: "ws_done t = ws_done s @ ds" using app(3) by (auto simp: prefix_def)
  have ok: "load_ok kWords t x" if "load_ok kWords s x" for x
    using that weak_value_done [OF _ ds] by (auto simp: load_ok_def ds split: prod.splits)
  show ?thesis using rd coll beg ok by (auto simp: reader_inv_def app(4-6) split: weak_reader.splits)
qed

lemma writer_inv_write:
  assumes hist: "hist_inv kWords s" and inv: "writer_inv kWords s" and st: "weak_write_step kWords s t"
  shows "hist_inv kWords t \<and> writer_inv kWords t"
  using st
proof cases
  case (ww_load raw u seq m)
  with inv have "u = 2 * length (ws_done s)" by (simp add: readable_def writer_inv_def)
  moreover from this hist inv ww_load have "seq = of_nat u" by (auto simp: hist_inv_def writer_inv_def)
  ultimately show ?thesis using hist inv ww_load(1-3)
    by (auto simp: hist_inv_def writer_inv_def weak_access weak_value_def)
next
  case (ww_odd raw seq m th)
  let ?n = "length (ws_done s)"
  from inv ww_odd have len: "length (seq_hist s) = 2 * ?n + 1" and seq: "seq = of_nat (2 * ?n)"
    by (simp_all add: writer_inv_def)
  have "2 * k < 2 * ?n + 1" if "2 * k < Suc (2 * ?n + 1)" for k using that by presburger
  with hist inv ww_odd len seq show ?thesis
    by (auto simp: hist_inv_def writer_inv_def weak_access weak_value_def nth_append less_Suc_eq)
next
  case (ww_fence raw seq)
  with hist inv show ?thesis by (auto simp: hist_inv_def writer_inv_def weak_access weak_value_def)
next
  case (ww_word raw seq i m th)
  let ?n = "length (ws_done s)"
  from inv ww_word have len: "length (word_hist s i) = Suc ?n" and rel: "m SeqLoc = 2 * ?n + 1"
    by (auto simp: writer_inv_def weak_access)
  have kw: "length (wl_words (ws_lock s)) = kWords" using hist by (simp add: hist_inv_def)
  have "hist_inv kWords t"
    using hist ww_word(1,3) len rel kw by (auto simp: hist_inv_def weak_value_def nth_list_update nth_append less_Suc_eq)
  moreover have "tv_cur (ws_wv s) (WordLoc j) = ?n + (if j < i then 1 else 0)"
      "length (word_hist s j) = ?n + (if j < i then 2 else 1)" if "j < kWords" for j
    using inv that ww_word(2) by (auto simp: writer_inv_def)
  then have "writer_inv kWords t"
    using inv ww_word kw len by (simp add: writer_inv_def weak_access nth_list_update nth_append less_Suc_eq) auto
  ultimately show ?thesis ..
next
  case (ww_even raw seq i m th)
  let ?n = "length (ws_done s)"
  from inv ww_even have len: "length (seq_hist s) = 2 * ?n + 2" and seq: "seq = of_nat (2 * ?n)" and raw: "length raw = kWords"
    and words: "\<And>j. j < kWords \<Longrightarrow> length (word_hist s j) = ?n + 2 \<and> fst (word_hist s j ! Suc ?n) = raw ! j"
    and view: "\<And>j. j < kWords \<Longrightarrow> m (WordLoc j) = Suc ?n"
    by (auto simp: writer_inv_def weak_access)
  have val: "weak_value kWords t v = (if v \<le> ?n then weak_value kWords s v else raw)" if "v \<le> Suc ?n" for v
    using that ww_even(1) by (auto simp: weak_value_def nth_append nth_Cons split: nat.splits)
  have "2 * k < 2 * ?n + 2 \<or> k = Suc ?n" if "2 * k < Suc (2 * ?n + 2)" for k using that by presburger
  then have "hist_inv kWords t"
    using hist ww_even(1) len seq raw words view val
    by (auto simp: hist_inv_def nth_append less_Suc_eq le_Suc_eq)
  moreover have "writer_inv kWords t"
    using inv ww_even len words by (auto simp: writer_inv_def weak_access)
  ultimately show ?thesis ..
qed

subsection \<open>The readers\<close>

lemma read_step_frame:
  assumes "weak_read_step kWords r s t"
  shows "ws_lock t = ws_lock s" "ws_w t = ws_w s" "ws_wv t = ws_wv s" "ws_done t = ws_done s"
    and "\<And>q. q \<noteq> r \<Longrightarrow> ws_r t q = ws_r s q \<and> ws_rv t q = ws_rv s q \<and> ws_loads t q = ws_loads s q"
  using assms by (cases; simp add: set_reader_def)+

lemma weak_cong:
  assumes "ws_lock t = ws_lock s" and "ws_done t = ws_done s"
  shows "hist_inv kWords t = hist_inv kWords s" "collected t = collected s" "load_ok kWords t = load_ok kWords s"
    "weak_value kWords t = weak_value kWords s"
proof -
  show val: "weak_value kWords t = weak_value kWords s" using assms by (simp add: weak_value_def fun_eq_iff)
  show "hist_inv kWords t = hist_inv kWords s" "collected t = collected s" "load_ok kWords t = load_ok kWords s"
    using assms val by (simp_all add: hist_inv_def collected_def load_ok_def fun_eq_iff)
qed

text \<open>The \<open>end\<close> load matches only when no word of a later publish was collected.\<close>

lemma match_value:
  assumes inv: "weak_inv kWords s" and pc: "ws_r s r = WRFenced a b tb raw"
    and rd: "readable SeqLoc (seq_hist s) (ws_rv s r) t" and "seq_hist s ! t = (b, m)" and lap: "t < tb + 2 ^ 32"
  shows "even tb \<and> tb div 2 \<le> length (ws_done s) \<and> raw = weak_value kWords s (tb div 2)"
proof -
  from inv have hist: "hist_inv kWords s" and rinv: "reader_inv kWords s r" by (simp_all add: weak_inv_def)
  from rinv pc have beg: "begun kWords s r b tb" and len: "length raw = kWords"
    and coll: "collected s (tb div 2) (tv_cur (ws_rv s r) SeqLoc) raw" by (simp_all add: reader_inv_def)
  from beg have ev: "even tb" and tb: "tb < length (seq_hist s)" "b = of_nat tb" "tb \<le> t"
    using rd by (auto simp: begun_def readable_def)
  have "b = of_nat t" using hist rd assms(4) by (auto simp: hist_inv_def readable_def)
  with tb(2) have "unat (of_nat tb :: u32) = unat (of_nat t :: u32)" by simp
  then have "tb mod 2 ^ 32 = t mod 2 ^ 32" by (simp add: unat_of_nat)
  then have te: "tb = t" by (rule mod_eq_within_lap) (use tb(3) lap in simp_all)
  define n where "n = tb div 2"
  have n: "tb = 2 * n" using ev by (simp add: n_def)
  have le: "n \<le> length (ws_done s)" using hist tb(1) n by (simp add: hist_inv_def)
  have "raw ! j = weak_value kWords s n ! j" if "j < kWords" for j
  proof -
    from coll that len obtain v where v: "raw ! j = fst (word_hist s j ! v)" "n \<le> v" "2 * v \<le> Suc (tv_cur (ws_rv s r) SeqLoc)"
      by (auto simp: collected_def n_def)
    moreover have "tv_cur (ws_rv s r) SeqLoc \<le> 2 * n" using rd te n by (simp add: readable_def)
    ultimately have "v = n" by simp
    with v(1) le that hist show ?thesis by (simp add: hist_inv_def)
  qed
  moreover have "length (weak_value kWords s n) = kWords"
    using hist le by (auto simp: weak_value_def hist_inv_def nth_Cons split: nat.split)
  ultimately have "raw = weak_value kWords s n" using len by (intro nth_equalityI) simp_all
  with ev le show ?thesis by (simp add: n_def)
qed

lemma collected_more: "collected s m n raw \<Longrightarrow> n \<le> n' \<Longrightarrow> collected s m n' raw"
  unfolding collected_def by (meson Suc_le_mono order_trans)

lemma collected_snoc:
  "collected s m n raw \<Longrightarrow> v < length (word_hist s (length raw)) \<Longrightarrow> m \<le> v \<Longrightarrow> 2 * v \<le> Suc n \<Longrightarrow>
   collected s m n (raw @ [fst (word_hist s (length raw) ! v)])"
  unfolding collected_def by (auto simp: nth_append less_Suc_eq)

lemma even_u32: "(of_nat t :: u32) AND 1 = 0 \<longleftrightarrow> even t"
proof -
  have "unat (of_nat t :: u32) = t mod 2 ^ 32" by (simp add: unat_of_nat)
  moreover have "even (t mod 2 ^ 32) = even t" by (simp add: dvd_mod_iff)
  ultimately show ?thesis by (simp add: and_one_even)
qed

lemma weak_retry_cases: "weak_retry a = WRFail \<or> weak_retry a = WRBegin (Suc a)"
  by (simp add: weak_retry_def)

text \<open>Only the view of a reader grows while it is not copying.\<close>

lemma reader_inv_idle:
  assumes "reader_inv kWords s r" and "pc \<in> {WRIdle, WRFail} \<or> (\<exists>a. pc = WRBegin a)"
    and "tv_cur (ws_rv s r) SeqLoc \<le> tv_cur th SeqLoc"
  shows "reader_inv kWords (set_reader r pc th s) r"
  using assms weak_cong(3) [of "set_reader r pc th s" s kWords]
  by (fastforce simp: reader_inv_def set_reader_def)

lemma reader_inv_begin:
  assumes inv: "weak_inv kWords s" and rd: "readable SeqLoc (seq_hist s) (ws_rv s r) t"
    and msg: "seq_hist s ! t = (b, m)" and even: "b AND 1 = 0"
  shows "reader_inv kWords (set_reader r (WRCopy a b t []) (load_acquire SeqLoc t m (ws_rv s r)) s) r" (is "reader_inv kWords ?t r")
proof -
  from inv have hist: "hist_inv kWords s" and rinv: "reader_inv kWords s r" by (simp_all add: weak_inv_def)
  from hist rd msg have b: "b = of_nat t" by (auto simp: hist_inv_def readable_def)
  with even have ev: "even t" using even_u32 by simp
  then have "t div 2 \<le> m (WordLoc i)" if "i < kWords" for i
  proof -
    have "2 * (t div 2) = t" using ev by simp
    with hist rd msg that show ?thesis unfolding hist_inv_def readable_def by (metis snd_conv)
  qed
  moreover have "fst x \<le> t" if "x \<in> set (ws_loads s r)" for x
    using rinv rd that by (auto simp: reader_inv_def readable_def)
  ultimately have "begun kWords ?t r b t"
    using ev b rd by (auto simp: begun_def set_reader_def weak_access readable_def sup_nat_def intro: max.coboundedI2)
  then show ?thesis
    using rinv weak_cong(3) [of ?t s kWords]
    by (auto simp: reader_inv_def collected_def set_reader_def weak_access sup_nat_def intro: max.coboundedI1)
qed

lemma reader_inv_word:
  assumes inv: "weak_inv kWords s" and pc: "ws_r s r = WRCopy a b tb raw" and "length raw < kWords"
    and rd: "readable (WordLoc (length raw)) (word_hist s (length raw)) (ws_rv s r) t"
    and msg: "word_hist s (length raw) ! t = (v, m)"
  shows "reader_inv kWords (set_reader r (WRCopy a b tb (raw @ [v])) (load_relaxed (WordLoc (length raw)) t m (ws_rv s r)) s) r"
    (is "reader_inv kWords ?t r")
proof -
  from inv have hist: "hist_inv kWords s" and rinv: "reader_inv kWords s r" by (simp_all add: weak_inv_def)
  let ?acq = "max (tv_acq (ws_rv s r) SeqLoc) (m SeqLoc)"
  from rinv pc have beg: "begun kWords s r b tb" and coll: "collected s (tb div 2) (tv_acq (ws_rv s r) SeqLoc) raw"
    by (simp_all add: reader_inv_def)
  have "collected s (tb div 2) ?acq (raw @ [fst (word_hist s (length raw) ! t)])"
  proof (rule collected_snoc)
    show "collected s (tb div 2) ?acq raw" using coll by (rule collected_more) simp
    show "t < length (word_hist s (length raw))" using rd by (simp add: readable_def)
    show "tb div 2 \<le> t" using beg rd assms(3) unfolding begun_def readable_def by (meson order_trans)
    have "2 * t \<le> Suc (m SeqLoc)" using hist rd msg assms(3) unfolding hist_inv_def readable_def by (metis snd_conv)
    then show "2 * t \<le> Suc ?acq" by simp
  qed
  with msg have "collected ?t (tb div 2) (tv_acq (ws_rv ?t r) SeqLoc) (raw @ [v])"
    using weak_cong(2) [of ?t s] by (simp add: set_reader_def weak_access sup_nat_def)
  moreover have "begun kWords ?t r b tb"
    using beg by (auto simp: begun_def set_reader_def weak_access intro: max.coboundedI1)
  ultimately show ?thesis using rinv assms(3) weak_cong(3) [of ?t s kWords]
    by (simp add: reader_inv_def set_reader_def weak_access)
qed

lemma reader_inv_fence:
  assumes inv: "reader_inv kWords s r" and pc: "ws_r s r = WRCopy a b tb raw" and "length raw = kWords"
  shows "reader_inv kWords (set_reader r (WRFenced a b tb raw) (fence_acquire (ws_rv s r)) s) r" (is "reader_inv kWords ?t r")
proof -
  from inv pc have beg: "begun kWords s r b tb" and coll: "collected s (tb div 2) (tv_acq (ws_rv s r) SeqLoc) raw"
    by (simp_all add: reader_inv_def)
  from coll have "collected s (tb div 2) (tv_cur (ws_rv ?t r) SeqLoc) raw"
    by (rule collected_more) (simp add: set_reader_def weak_access sup_nat_def)
  then have "collected ?t (tb div 2) (tv_cur (ws_rv ?t r) SeqLoc) raw" using weak_cong(2) [of ?t s] by (simp add: set_reader_def)
  moreover have "begun kWords ?t r b tb"
    using beg by (auto simp: begun_def set_reader_def weak_access sup_nat_def intro: max.coboundedI1)
  ultimately show ?thesis using inv assms(3) weak_cong(3) [of ?t s kWords]
    by (auto simp: reader_inv_def set_reader_def weak_access sup_nat_def intro: max.coboundedI1)
qed

lemma reader_inv_match:
  assumes inv: "weak_inv kWords s" and pc: "ws_r s r = WRFenced a b tb raw"
    and rd: "readable SeqLoc (seq_hist s) (ws_rv s r) t" and msg: "seq_hist s ! t = (b, m)"
  shows "reader_inv kWords ((set_reader r WRIdle (load_relaxed SeqLoc t m (ws_rv s r)) s)
    \<lparr>ws_loads := (ws_loads s)(r := ws_loads s r @ [(tb, t, raw)])\<rparr>) r" (is "reader_inv kWords ?t r")
proof -
  from inv have rinv: "reader_inv kWords s r" by (simp add: weak_inv_def)
  with pc have beg: "begun kWords s r b tb" by (simp add: reader_inv_def)
  have "load_ok kWords s (tb, t, raw)" using match_value [OF inv pc rd msg] by (simp add: load_ok_def)
  moreover have "tb \<le> t" using beg rd by (simp add: begun_def readable_def)
  moreover have "load_ok kWords ?t = load_ok kWords s" by (rule weak_cong(3)) (simp_all add: set_reader_def)
  ultimately show ?thesis using rinv beg
    by (auto simp: reader_inv_def begun_def set_reader_def weak_access sorted_wrt_append intro: max.coboundedI1 max.coboundedI2)
qed

lemma weak_inv_read:
  assumes inv: "weak_inv kWords s" and st: "weak_read_step kWords r s t"
  shows "weak_inv kWords t"
proof -
  note frame = read_step_frame [OF st]
  from inv have rinv: "reader_inv kWords s r" by (simp add: weak_inv_def)
  have other: "reader_inv kWords t q" if "q \<noteq> r" for q
  proof -
    have "begun kWords t q = begun kWords s q" using frame(5) [OF that] frame(1) by (simp add: begun_def fun_eq_iff)
    with inv frame(5) [OF that] weak_cong(2,3) [OF frame(1,4)] show ?thesis
      by (auto simp: weak_inv_def reader_inv_def split: weak_reader.splits)
  qed
  have own: "reader_inv kWords t r" using st
  proof cases
    case wr_call
    with reader_inv_idle [OF rinv] show ?thesis by simp
  next
    case (wr_begin a u b m)
    show ?thesis
    proof (cases "b AND 1 = 0")
      case True
      with reader_inv_begin [OF inv wr_begin(3,4) True] wr_begin(1) show ?thesis by simp
    next
      case False
      with reader_inv_idle [OF rinv, of "weak_retry a" "load_acquire SeqLoc u m (ws_rv s r)"] weak_retry_cases [of a] wr_begin(1)
      show ?thesis by (auto simp: weak_access sup_nat_def)
    qed
  next
    case (wr_word a b tb raw u v m)
    with reader_inv_word [OF inv wr_word(2-5)] show ?thesis by simp
  next
    case (wr_fence a b tb raw)
    with reader_inv_fence [OF rinv wr_fence(2,3)] show ?thesis by simp
  next
    case (wr_changed a b tb raw u e m)
    with reader_inv_idle [OF rinv, of "weak_retry a" "load_relaxed SeqLoc u m (ws_rv s r)"] weak_retry_cases [of a]
    show ?thesis by (auto simp: weak_access)
  next
    case (wr_match a b tb raw u e m)
    with reader_inv_match [OF inv wr_match(2,3), of m] show ?thesis by simp
  next
    case wr_failed
    with reader_inv_idle [OF rinv] show ?thesis by simp
  qed
  have "hist_inv kWords t" using inv weak_cong(1) [OF frame(1,4)] by (simp add: weak_inv_def)
  moreover have "writer_inv kWords t" using inv frame(1-4) by (auto simp: weak_inv_def writer_inv_def split: weak_writer.splits)
  moreover have "reader_inv kWords t q" for q using own other by (cases "q = r") simp_all
  ultimately show ?thesis by (simp add: weak_inv_def)
qed

lemma weak_inv_step: "weak_inv kWords s \<Longrightarrow> weak_step kWords s t \<Longrightarrow> weak_inv kWords t"
  unfolding weak_step_def using weak_inv_read reader_inv_write writer_inv_write weak_inv_def by metis

interpretation weak_machine: step_machine "\<lambda>s. s = weak_start kWords" "weak_step kWords" "weak_inv kWords" for kWords
  by unfold_locales (auto intro: weak_inv_start weak_inv_step)

section \<open>A run\<close>

text \<open>One publish of a one-word payload, then a load by reader 0.\<close>

lemma weak_demo:
  "\<exists>s. (weak_step 1)\<^sup>*\<^sup>* (weak_start 1) s \<and> ws_loads s 0 = [(2, 2, [7])] \<and> ws_done s = [[7]]"
proof -
  define z where "z = (\<lambda>_ :: lock_loc. 0 :: nat)"
  note defs = weak_start_def weak_lock_init_def thread_start_def readable_def weak_access set_reader_def z_def
  define s1 where "s1 = (weak_start 1)\<lparr>ws_w := WWLoaded [7] 0, ws_wv := load_relaxed SeqLoc 0 z (ws_wv (weak_start 1))\<rparr>"
  define m2 where "m2 = fst (store_relaxed SeqLoc 1 (ws_wv s1))"
  define s2 where "s2 = s1\<lparr>ws_lock := (ws_lock s1)\<lparr>wl_seq := seq_hist s1 @ [(0 + 1, m2)]\<rparr>,
    ws_w := WWOdd [7] 0, ws_wv := snd (store_relaxed SeqLoc 1 (ws_wv s1))\<rparr>"
  define s3 where "s3 = s2\<lparr>ws_w := WWCopy [7] 0 0, ws_wv := fence_release (ws_wv s2)\<rparr>"
  define m4 where "m4 = fst (store_relaxed (WordLoc 0) 1 (ws_wv s3))"
  define s4 where "s4 = s3\<lparr>ws_lock := (ws_lock s3)\<lparr>wl_words := (wl_words (ws_lock s3))[0 := word_hist s3 0 @ [([7] ! 0, m4)]]\<rparr>,
    ws_w := WWCopy [7] 0 (Suc 0), ws_wv := snd (store_relaxed (WordLoc 0) 1 (ws_wv s3))\<rparr>"
  define m5 where "m5 = fst (store_release SeqLoc 2 (ws_wv s4))"
  define s5 where "s5 = s4\<lparr>ws_lock := (ws_lock s4)\<lparr>wl_seq := seq_hist s4 @ [(0 + 2, m5)]\<rparr>,
    ws_w := WWIdle, ws_wv := snd (store_release SeqLoc 2 (ws_wv s4)), ws_done := ws_done s4 @ [[7]]\<rparr>"
  define s6 where "s6 = set_reader 0 (WRBegin 0) (ws_rv s5 0) s5"
  define s7 where "s7 = set_reader 0 (WRCopy 0 2 2 []) (load_acquire SeqLoc 2 m5 (ws_rv s6 0)) s6"
  define s8 where "s8 = set_reader 0 (WRCopy 0 2 2 [7]) (load_relaxed (WordLoc 0) 1 m4 (ws_rv s7 0)) s7"
  define s9 where "s9 = set_reader 0 (WRFenced 0 2 2 [7]) (fence_acquire (ws_rv s8 0)) s8"
  define s10 where "s10 = (set_reader 0 WRIdle (load_relaxed SeqLoc 2 m5 (ws_rv s9 0)) s9)
    \<lparr>ws_loads := (ws_loads s9)(0 := ws_loads s9 0 @ [(2, 2, [7])])\<rparr>"
  have w1: "weak_write_step 1 (weak_start 1) s1"
    unfolding s1_def by (rule ww_load) (simp_all add: defs)
  have w2: "weak_write_step 1 s1 s2"
    unfolding s2_def m2_def by (rule ww_odd) (simp_all add: s1_def defs)
  have w3: "weak_write_step 1 s2 s3"
    unfolding s3_def by (rule ww_fence) (simp add: s2_def)
  have w4: "weak_write_step 1 s3 s4"
    unfolding s4_def m4_def by (rule ww_word) (simp_all add: s3_def s2_def s1_def defs)
  have w5: "weak_write_step 1 s4 s5"
    unfolding s5_def m5_def by (rule ww_even) (simp_all add: s4_def s3_def s2_def s1_def defs numeral_2_eq_2)
  have mem: "seq_hist s5 = [(0, z), (1, m2), (2, m5)]" "word_hist s5 0 = [(0, z), (7, m4)]"
    by (simp_all add: s5_def s4_def s3_def s2_def s1_def weak_start_def weak_lock_init_def z_def)
  have m: "m5 SeqLoc = 2" "m5 (WordLoc 0) = 1" "m4 SeqLoc = 1"
    by (simp_all add: m5_def m4_def s4_def s3_def s2_def s1_def defs)
  have rv: "ws_rv s5 0 = thread_start" by (simp add: s5_def s4_def s3_def s2_def s1_def weak_start_def)
  have r6: "weak_read_step 1 0 s5 s6"
    unfolding s6_def by (rule wr_call) (simp add: s5_def s4_def s3_def s2_def s1_def weak_start_def)
  have r7: "weak_read_step 1 0 s6 s7"
    using wr_begin [of s6 0 0 2 2 m5 1] mem rv by (simp add: s7_def s6_def set_reader_def readable_def thread_start_def)
  have r8: "weak_read_step 1 0 s7 s8"
    using wr_word [of s7 0 0 2 2 "[]" 1 1 7 m4] mem rv m
    by (simp add: s8_def s7_def s6_def set_reader_def readable_def thread_start_def weak_access sup_nat_def)
  have r9: "weak_read_step 1 0 s8 s9"
    unfolding s9_def by (rule wr_fence) (simp_all add: s8_def set_reader_def)
  have r10: "weak_read_step 1 0 s9 s10"
    unfolding s10_def by (rule wr_match [where a = 0 and b = 2 and e = 2])
      (use mem rv m in \<open>simp_all add: s9_def s8_def s7_def s6_def set_reader_def readable_def thread_start_def weak_access sup_nat_def\<close>)
  have "step_path (weak_step 1) (weak_start 1) [s1, s2, s3, s4, s5, s6, s7, s8, s9, s10]"
    unfolding step_path.simps weak_step_def using w1 w2 w3 w4 w5 r6 r7 r8 r9 r10 by blast
  then have "(weak_step 1)\<^sup>*\<^sup>* (weak_start 1) s10" using step_path_run by fastforce
  moreover have keep: "ws_loads (set_reader r pc th s) = ws_loads s" "ws_done (set_reader r pc th s) = ws_done s" for r pc th s
    by (simp_all add: set_reader_def)
  have "ws_loads s5 0 = []" "ws_done s5 = [[7]]" by (simp_all add: s5_def s4_def s3_def s2_def s1_def weak_start_def)
  then have "ws_loads s9 0 = []" "ws_done s9 = [[7]]" by (simp_all add: s9_def s8_def s7_def s6_def keep)
  then have "ws_loads s10 0 = [(2, 2, [7])]" "ws_done s10 = [[7]]" by (simp_all add: s10_def keep)
  ultimately show ?thesis by blast
qed

section \<open>Properties\<close>

text \<open>
  (C9) No torn value under the memory orders of the source. Whatever stale stores the
  relaxed and acquire loads return, with one writer and any number of readers,
  a load that returns true (with fewer than \<open>2 ^ 31\<close> publishes between its \<open>begin\<close> and
  \<open>end\<close> loads) returns exactly the payload of one completed publish, or the initial
  zeros; and the loads of one reader never go back to an older publish.
\<close>

theorem seqlock_weak_not_torn:
  assumes "(weak_step kWords)\<^sup>*\<^sup>* (weak_start kWords) s"
  shows "sorted_wrt (\<lambda>x y. fst x \<le> fst y) (ws_loads s r) \<and>
    (\<forall>(tb, te, raw) \<in> set (ws_loads s r). te < tb + 2 ^ 32 \<longrightarrow>
       even tb \<and> tb div 2 \<le> length (ws_done s) \<and> raw = weak_value kWords s (tb div 2))"
proof -
  have "reader_inv kWords s r" using weak_machine.inv_reachable [OF refl assms] by (simp add: weak_inv_def)
  then show ?thesis by (auto simp: reader_inv_def load_ok_def)
qed

theorem seqlock_weak_not_torn_witness:
  "\<exists>s. (weak_step 1)\<^sup>*\<^sup>* (weak_start 1) s \<and> ws_loads s 0 = [(2, 2, [7])] \<and> weak_value 1 s 1 = [7]"
proof -
  obtain s where s: "(weak_step 1)\<^sup>*\<^sup>* (weak_start 1) s" "ws_loads s 0 = [(2, 2, [7])]" using weak_demo by blast
  with seqlock_weak_not_torn [OF s(1), of 0] show ?thesis by auto
qed

end
