(* ===== verification/Triple_Buffer_Weak.thy ===== *)
theory Triple_Buffer_Weak
  imports Triple_Buffer Weak_Memory
begin

text \<open>
  \<^verbatim>\<open>include/ratehub/triple_buffer.hpp\<close> under the memory orders it is written with. The slots are
  plain memory, so two accesses of one slot, one of them a store, that are not
  ordered would be a data race; the exchanges of \<open>middle_\<close> are what orders them. The
  reader's test of the fresh bit may load an old value of \<open>middle_\<close>.
\<close>

section \<open>The buffer access by access\<close>

text \<open>
  The timestamp at \<open>SlotLoc i\<close> counts the stores to slot \<open>i\<close>, the one at \<open>ReadLoc i\<close> the reads of it:
  a thread whose view has the newest of both is ordered after all of them.
\<close>

datatype buffer_loc = MidLoc | SlotLoc nat | ReadLoc nat

type_synonym buffer_views = "buffer_loc thread_views"

text \<open>\<open>wb_taken\<close> is the newest published slot when the reader exchanged, \<open>wb_shown\<close> what it read since the start.\<close>

record 'a weak_buffer =
  wb_slots :: "'a list list"
  wb_reads :: "nat \<Rightarrow> nat"
  wb_write :: nat
  wb_read :: nat
  wb_middle :: "(u32 \<times> buffer_loc view) list"
  wb_w :: tb_writer
  wb_r :: tb_reader
  wb_wv :: buffer_views
  wb_rv :: buffer_views
  wb_published :: "'a list"
  wb_taken :: "'a option"
  wb_shown :: "'a list"

definition weak_buffer_start :: "'a \<Rightarrow> 'a weak_buffer" where
  "weak_buffer_start d = \<lparr>wb_slots = [[d], [d], [d]], wb_reads = (\<lambda>_. 0), wb_write = 0, wb_read = 1,
     wb_middle = [(2, \<lambda>_. 0)], wb_w = TWFill, wb_r = TRIdle, wb_wv = thread_start, wb_rv = thread_start,
     wb_published = [], wb_taken = None, wb_shown = []\<rparr>"

text \<open>A plain store to a slot, and a plain read of one of the stores the reader may see.\<close>

inductive weak_buffer_step :: "'a weak_buffer \<Rightarrow> 'a weak_buffer \<Rightarrow> bool" where
  xw_fill: "wb_w s = TWFill \<Longrightarrow> i = wb_write s \<Longrightarrow>
    weak_buffer_step s (s\<lparr>wb_slots := (wb_slots s)[i := wb_slots s ! i @ [v]],
      wb_wv := (wb_wv s)\<lparr>tv_cur := bump (SlotLoc i) (length (wb_slots s ! i)) (tv_cur (wb_wv s))\<rparr>\<rparr>)"
| xw_exchange: "wb_w s = TWFill \<Longrightarrow>
    exchange_acq_rel MidLoc (of_nat (wb_write s) OR kFresh) (wb_middle s) (wb_wv s) = (old, middle, th) \<Longrightarrow>
    weak_buffer_step s (s\<lparr>wb_middle := middle, wb_wv := th, wb_w := TWGot old,
      wb_published := wb_published s @ [last (wb_slots s ! wb_write s)]\<rparr>)"
| xw_adopt: "wb_w s = TWGot old \<Longrightarrow>
    weak_buffer_step s (s\<lparr>wb_write := unat (old AND kIndexMask), wb_w := TWFill\<rparr>)"
| xr_stale: "wb_r s = TRIdle \<Longrightarrow> readable MidLoc (wb_middle s) (wb_rv s) t \<Longrightarrow> wb_middle s ! t = (mid, m) \<Longrightarrow>
    mid AND kFresh = 0 \<Longrightarrow> weak_buffer_step s (s\<lparr>wb_rv := load_acquire MidLoc t m (wb_rv s)\<rparr>)"
| xr_fresh: "wb_r s = TRIdle \<Longrightarrow> readable MidLoc (wb_middle s) (wb_rv s) t \<Longrightarrow> wb_middle s ! t = (mid, m) \<Longrightarrow>
    mid AND kFresh \<noteq> 0 \<Longrightarrow> weak_buffer_step s (s\<lparr>wb_rv := load_acquire MidLoc t m (wb_rv s), wb_r := TRFresh\<rparr>)"
| xr_exchange: "wb_r s = TRFresh \<Longrightarrow>
    exchange_acq_rel MidLoc (of_nat (wb_read s)) (wb_middle s) (wb_rv s) = (old, middle, th) \<Longrightarrow>
    weak_buffer_step s (s\<lparr>wb_middle := middle, wb_rv := th, wb_r := TRGot old, wb_taken := Some (last (wb_published s))\<rparr>)"
| xr_adopt: "wb_r s = TRGot old \<Longrightarrow>
    weak_buffer_step s (s\<lparr>wb_read := unat (old AND kIndexMask), wb_r := TRIdle\<rparr>)"
| xr_read: "wb_r s = TRIdle \<Longrightarrow> i = wb_read s \<Longrightarrow> tv_cur (wb_rv s) (SlotLoc i) \<le> t \<Longrightarrow> t < length (wb_slots s ! i) \<Longrightarrow>
    weak_buffer_step s (s\<lparr>wb_reads := (wb_reads s)(i := Suc (wb_reads s i)), wb_shown := wb_shown s @ [wb_slots s ! i ! t],
      wb_rv := (wb_rv s)\<lparr>tv_cur := bump (ReadLoc i) (Suc (wb_reads s i)) (bump (SlotLoc i) t (tv_cur (wb_rv s)))\<rparr>\<rparr>)"

section \<open>The interleaving it refines\<close>

text \<open>The newest store of each location: a state of the machine with one memory.\<close>

definition newest_buffer :: "'a weak_buffer \<Rightarrow> 'a tb_sys" where
  "newest_buffer s = \<lparr>tb_mem = \<lparr>tb_slots = map last (wb_slots s), tb_write = wb_write s, tb_read = wb_read s,
       tb_middle = fst (last (wb_middle s))\<rparr>,
     tb_w = wb_w s, tb_r = wb_r s, tb_published = wb_published s, tb_taken = wb_taken s\<rparr>"

definition weak_writer_slot :: "'a weak_buffer \<Rightarrow> nat" where
  "weak_writer_slot s = (case wb_w s of TWFill \<Rightarrow> wb_write s | TWGot old \<Rightarrow> mid_index old)"

definition weak_reader_slot :: "'a weak_buffer \<Rightarrow> nat" where
  "weak_reader_slot s = (case wb_r s of TRGot old \<Rightarrow> mid_index old | _ \<Rightarrow> wb_read s)"

abbreviation weak_middle_slot :: "'a weak_buffer \<Rightarrow> nat" where
  "weak_middle_slot s \<equiv> mid_index (fst (last (wb_middle s)))"

text \<open>Every store of \<open>middle_\<close> the reader has not seen is a publish; after its test, so is the newest it has seen.\<close>

definition middle_inv :: "'a weak_buffer \<Rightarrow> bool" where
  "middle_inv s \<longleftrightarrow> tv_cur (wb_rv s) MidLoc < length (wb_middle s) \<and>
     tv_cur (wb_wv s) MidLoc < length (wb_middle s) \<and>
     (\<forall>t < length (wb_middle s). snd (wb_middle s ! t) MidLoc \<le> t) \<and>
     (\<forall>t < length (wb_middle s). tv_cur (wb_rv s) MidLoc < t \<longrightarrow> fst (wb_middle s ! t) AND kFresh \<noteq> 0) \<and>
     (wb_r s = TRFresh \<longrightarrow> fst (wb_middle s ! tv_cur (wb_rv s) MidLoc) AND kFresh \<noteq> 0)"

text \<open>
  A view covers the stores to a slot, or the reads of it, when no newer one exists. The owner of a
  slot covers both, the slot in the middle is covered by the view of the newest store of \<open>middle_\<close>.
\<close>

definition covers_stores :: "'a weak_buffer \<Rightarrow> buffer_loc view \<Rightarrow> nat \<Rightarrow> bool" where
  "covers_stores s v i \<longleftrightarrow> length (wb_slots s ! i) \<le> Suc (v (SlotLoc i))"

definition covers_reads :: "'a weak_buffer \<Rightarrow> buffer_loc view \<Rightarrow> nat \<Rightarrow> bool" where
  "covers_reads s v i \<longleftrightarrow> wb_reads s i \<le> v (ReadLoc i)"

definition order_inv :: "'a weak_buffer \<Rightarrow> bool" where
  "order_inv s \<longleftrightarrow> (\<forall>i < 3. wb_slots s ! i \<noteq> []) \<and> (\<forall>i < 3. covers_stores s (tv_cur (wb_wv s)) i) \<and>
     (\<forall>i < 3. covers_reads s (tv_cur (wb_rv s)) i) \<and>
     covers_reads s (tv_cur (wb_wv s)) (weak_writer_slot s) \<and> covers_stores s (tv_cur (wb_rv s)) (weak_reader_slot s) \<and>
     covers_stores s (snd (last (wb_middle s))) (weak_middle_slot s) \<and>
     covers_reads s (snd (last (wb_middle s))) (weak_middle_slot s)"

definition weak_buffer_inv :: "'a weak_buffer \<Rightarrow> bool" where
  "weak_buffer_inv s \<longleftrightarrow> tb_inv (newest_buffer s) \<and> middle_inv s \<and> order_inv s"

lemma newest_slots:
  "tb_writer_slot (newest_buffer s) = weak_writer_slot s" "tb_reader_slot (newest_buffer s) = weak_reader_slot s"
  "tb_middle_slot (newest_buffer s) = weak_middle_slot s" "length (tb_slots (tb_mem (newest_buffer s))) = length (wb_slots s)"
  by (cases "wb_w s"; cases "wb_r s"; simp add: newest_buffer_def weak_writer_slot_def weak_reader_slot_def)+

lemmas slot_owner = weak_writer_slot_def weak_reader_slot_def

lemma weak_buffer_inv_start: "weak_buffer_inv (weak_buffer_start d)"
proof -
  have "newest_buffer (weak_buffer_start d) = tb_start d"
    by (simp add: newest_buffer_def weak_buffer_start_def tb_start_def TripleBuffer_init_def)
  then have "tb_inv (newest_buffer (weak_buffer_start d))" "newest_buffer (weak_buffer_start d) = tb_start d"
    by (simp_all add: tb_inv_start)
  moreover have "[[d], [d], [d]] ! i = [d]" if "i < 3" for i
    using that by (auto simp: less_Suc_eq numeral_3_eq_3)
  ultimately show ?thesis
    unfolding weak_buffer_inv_def middle_inv_def order_inv_def covers_stores_def covers_reads_def
    by (simp add: slot_owner weak_buffer_start_def thread_start_def tb_start_def TripleBuffer_init_def mid_index_def
        kIndexMask_def)
qed

section \<open>Steps\<close>

text \<open>A fresh value the reader can still load was not followed by a consume.\<close>

lemma fresh_is_newest:
  assumes "middle_inv s" and "tv_cur (wb_rv s) MidLoc \<le> t" and "t < length (wb_middle s)"
    and "fst (wb_middle s ! t) AND kFresh \<noteq> 0"
  shows "fst (last (wb_middle s)) AND kFresh \<noteq> 0"
proof (cases "t = length (wb_middle s) - 1")
  case False
  with assms have "tv_cur (wb_rv s) MidLoc < length (wb_middle s) - 1" by linarith
  moreover have "wb_middle s \<noteq> []" using assms(3) by auto
  ultimately show ?thesis using assms(1) by (simp add: middle_inv_def last_conv_nth)
next
  case True
  with assms(3,4) show ?thesis by (cases "wb_middle s" rule: rev_cases) auto
qed

lemma weak_buffer_refines:
  assumes "weak_buffer_inv s" and "weak_buffer_step s t"
  shows "tb_step (newest_buffer s) (newest_buffer t) \<or> newest_buffer t = newest_buffer s"
  using assms(2)
proof cases
  case (xw_fill i v)
  have "map last ((wb_slots s)[i := wb_slots s ! i @ [v]]) = (map last (wb_slots s))[i := v]" by (simp add: map_update)
  with xw_fill show ?thesis using tw_fill [of "newest_buffer s" v]
    by (simp add: newest_buffer_def TripleBuffer_write_slot_def)
next
  case (xw_exchange old middle th)
  have "wb_write s < length (wb_slots s)"
    using assms(1) xw_exchange(2) by (simp add: weak_buffer_inv_def tb_inv_def tb_owners_inv_def newest_buffer_def)
  with xw_exchange show ?thesis using tw_exchange [of "newest_buffer s"] exchange_views [OF xw_exchange(3)]
    by (simp add: newest_buffer_def)
next
  case (xw_adopt old)
  then show ?thesis using tw_adopt [of "newest_buffer s" old] by (simp add: newest_buffer_def)
next
  case (xr_fresh t mid m)
  have "fst (last (wb_middle s)) AND kFresh \<noteq> 0"
    using fresh_is_newest [of s t] assms(1) xr_fresh by (simp add: weak_buffer_inv_def readable_def)
  with xr_fresh show ?thesis using tr_fresh [of "newest_buffer s"] by (simp add: newest_buffer_def)
next
  case (xr_exchange old middle th)
  then show ?thesis using tr_exchange [of "newest_buffer s"] exchange_views [OF xr_exchange(3)]
    by (simp add: newest_buffer_def)
next
  case (xr_adopt old)
  then show ?thesis using tr_adopt [of "newest_buffer s" old] by (simp add: newest_buffer_def)
qed (simp_all add: newest_buffer_def)

lemma middle_inv_step:
  assumes inv: "middle_inv s" and "weak_buffer_step s t"
  shows "middle_inv t"
proof -
  have newest: "snd (last (wb_middle s)) MidLoc \<le> length (wb_middle s)"
    using inv by (cases "wb_middle s" rule: rev_cases) (auto simp: middle_inv_def)
  show ?thesis
    using assms(2)
proof cases
  case (xw_exchange old middle th)
  have "middle = wb_middle s @ [(of_nat (wb_write s) OR kFresh, tv_cur th)]" "tv_cur th MidLoc = length (wb_middle s)"
    using exchange_views [OF xw_exchange(3)] exchange_newest [OF xw_exchange(3)] newest inv by (auto simp: middle_inv_def)
  moreover have "(of_nat (wb_write s) OR kFresh) AND kFresh \<noteq> 0" by (simp add: kFresh_def)
  ultimately show ?thesis using xw_exchange inv by (auto simp: middle_inv_def nth_append less_Suc_eq)
next
  case (xr_exchange old middle th)
  have "middle = wb_middle s @ [(of_nat (wb_read s), tv_cur th)]" "tv_cur th MidLoc = length (wb_middle s)"
    using exchange_views [OF xr_exchange(3)] exchange_newest [OF xr_exchange(3)] newest inv by (auto simp: middle_inv_def)
  with xr_exchange inv show ?thesis by (auto simp: middle_inv_def nth_append less_Suc_eq)
next
  case (xr_stale u mid m)
  then have "tv_cur (wb_rv t) MidLoc = u" using load_acquire_at [of "wb_rv s" MidLoc u m] inv
    by (fastforce simp: middle_inv_def readable_def)
  with xr_stale inv show ?thesis by (auto simp: middle_inv_def readable_def)
next
  case (xr_fresh u mid m)
  then have "tv_cur (wb_rv t) MidLoc = u" using load_acquire_at [of "wb_rv s" MidLoc u m] inv
    by (fastforce simp: middle_inv_def readable_def)
  with xr_fresh inv show ?thesis by (auto simp: middle_inv_def readable_def)
qed (use inv in \<open>auto simp: middle_inv_def\<close>)
qed

lemma covers_mono:
  "covers_stores s v i \<Longrightarrow> v \<le> v' \<Longrightarrow> covers_stores s v' i" "covers_reads s v i \<Longrightarrow> v \<le> v' \<Longrightarrow> covers_reads s v' i"
  by (force simp: covers_stores_def covers_reads_def le_fun_def intro: le_trans)+

lemma covers_cong:
  "wb_slots t = wb_slots s \<Longrightarrow> covers_stores t v i = covers_stores s v i"
  "wb_reads t = wb_reads s \<Longrightarrow> covers_reads t v i = covers_reads s v i"
  by (simp_all add: covers_stores_def covers_reads_def)

lemma order_inv_views:
  assumes "order_inv s" and "wb_slots t = wb_slots s" and "wb_reads t = wb_reads s" and "wb_middle t = wb_middle s"
    and "weak_writer_slot t = weak_writer_slot s" and "weak_reader_slot t = weak_reader_slot s"
    and "tv_cur (wb_wv s) \<le> tv_cur (wb_wv t)" and "tv_cur (wb_rv s) \<le> tv_cur (wb_rv t)"
  shows "order_inv t"
proof -
  have "covers_stores t = covers_stores s" "covers_reads t = covers_reads s"
    using covers_cong [of t s] assms(2,3) by (simp_all add: fun_eq_iff)
  then show ?thesis using assms unfolding order_inv_def by (auto intro: covers_mono)
qed

text \<open>The owners and the middle slot hand their views over with the slots.\<close>

lemma order_inv_step:
  assumes inv: "weak_buffer_inv s" and "weak_buffer_step s t"
  shows "order_inv t"
proof -
  let ?a = "weak_writer_slot s" and ?b = "weak_reader_slot s" and ?c = "weak_middle_slot s"
  have own: "length (wb_slots s) = 3" "?a < 3" "?b < 3" "?c < 3" "?a \<noteq> ?b" "?a \<noteq> ?c" "?b \<noteq> ?c"
    using inv by (auto simp: weak_buffer_inv_def tb_inv_def tb_owners_inv_def newest_slots)
  have ord: "order_inv s" using inv by (simp add: weak_buffer_inv_def)
  from assms(2) show ?thesis
  proof cases
    case (xw_fill i v)
    then have "?a = i" "weak_reader_slot t = ?b" "weak_writer_slot t = ?a"
      by (simp_all add: slot_owner split: tb_writer.splits tb_reader.splits)
    with xw_fill own ord show ?thesis
      by (auto simp: order_inv_def covers_stores_def covers_reads_def nth_list_update)
  next
    case (xw_exchange old middle th)
    note ex = exchange_views(1,2) [OF xw_exchange(3)] exchange_learns [OF xw_exchange(3)]
    have "weak_writer_slot t = ?c" "weak_reader_slot t = ?b" "weak_middle_slot t = ?a"
      using xw_exchange ex(1,2) mid_of_write(1) [of "wb_write s"] own(2)
      by (simp_all add: slot_owner split: tb_writer.splits tb_reader.splits)
    moreover have "wb_wv t = th" "wb_rv t = wb_rv s" "snd (last (wb_middle t)) = tv_cur th" "wb_slots t = wb_slots s"
      "covers_stores t = covers_stores s" "covers_reads t = covers_reads s"
      using xw_exchange ex(2) covers_cong [of t s] by (simp_all add: fun_eq_iff)
    ultimately show ?thesis
      using ord own ex(3,4) unfolding order_inv_def by (auto intro: covers_mono)
  next
    case (xr_exchange old middle th)
    note ex = exchange_views(1,2) [OF xr_exchange(3)] exchange_learns [OF xr_exchange(3)]
    have "weak_writer_slot t = ?a" "weak_reader_slot t = ?c" "weak_middle_slot t = ?b"
      using xr_exchange ex(1,2) mid_of_write(3) [of "wb_read s"] own(3)
      by (simp_all add: slot_owner split: tb_writer.splits tb_reader.splits)
    moreover have "wb_wv t = wb_wv s" "wb_rv t = th" "snd (last (wb_middle t)) = tv_cur th" "wb_slots t = wb_slots s"
      "covers_stores t = covers_stores s" "covers_reads t = covers_reads s"
      using xr_exchange ex(2) covers_cong [of t s] by (simp_all add: fun_eq_iff)
    ultimately show ?thesis
      using ord own ex(3,4) unfolding order_inv_def by (auto intro: covers_mono)
  next
    case (xr_read i u)
    then have "?b = i" "weak_reader_slot t = ?b" "weak_writer_slot t = ?a"
      by (simp_all add: slot_owner split: tb_writer.splits tb_reader.splits)
    with xr_read own ord show ?thesis
      by (auto simp: order_inv_def covers_stores_def covers_reads_def)
  next
    case (xw_adopt old)
    then show ?thesis
      using order_inv_views [OF ord, of t] by (simp add: slot_owner mid_index_def split: tb_reader.splits)
  next
    case (xr_adopt old)
    then show ?thesis
      using order_inv_views [OF ord, of t] by (simp add: slot_owner mid_index_def split: tb_writer.splits)
  next
    case (xr_stale u mid m)
    then show ?thesis
      using order_inv_views [OF ord, of t] by (simp add: slot_owner load_acquire_le split: tb_writer.splits)
  next
    case (xr_fresh u mid m)
    then show ?thesis
      using order_inv_views [OF ord, of t] by (simp add: slot_owner load_acquire_le split: tb_writer.splits)
  qed
qed

lemma weak_buffer_inv_step: "weak_buffer_inv s \<Longrightarrow> weak_buffer_step s t \<Longrightarrow> weak_buffer_inv t"
  using weak_buffer_refines [of s t] tb_inv_step [of "newest_buffer s"] middle_inv_step [of s t] order_inv_step [of s t]
  by (auto simp: weak_buffer_inv_def)

text \<open>The slot in the reader's hands is the newest store to it, the empty one until the first consume.\<close>

lemma reader_sees_newest:
  assumes "weak_buffer_inv s" and "wb_r s = TRIdle" and "tv_cur (wb_rv s) (SlotLoc (wb_read s)) \<le> t"
    and "t < length (wb_slots s ! wb_read s)"
  shows "t = length (wb_slots s ! wb_read s) - 1" and "wb_slots s ! wb_read s ! t = last (wb_slots s ! wb_read s)"
    and "wb_taken s = Some v \<Longrightarrow> last (wb_slots s ! wb_read s) = v \<and> v \<in> set (wb_published s)"
proof -
  have slot: "weak_reader_slot s = wb_read s" using assms(2) by (simp add: slot_owner)
  then have "covers_stores s (tv_cur (wb_rv s)) (wb_read s)" using assms(1) by (simp add: weak_buffer_inv_def order_inv_def)
  with assms(3,4) show t: "t = length (wb_slots s ! wb_read s) - 1" by (simp add: covers_stores_def)
  have "wb_slots s ! wb_read s \<noteq> []" using assms(4) by auto
  with t show "wb_slots s ! wb_read s ! t = last (wb_slots s ! wb_read s)" by (simp add: last_conv_nth)
  have "wb_read s < length (wb_slots s)"
    using assms(1) slot by (simp add: weak_buffer_inv_def tb_inv_def tb_owners_inv_def newest_slots)
  then show "wb_taken s = Some v \<Longrightarrow> last (wb_slots s ! wb_read s) = v \<and> v \<in> set (wb_published s)"
    using assms(1,2) by (simp add: weak_buffer_inv_def tb_inv_def tb_contents_inv_def newest_buffer_def)
qed

definition shown_inv :: "'a \<Rightarrow> 'a weak_buffer \<Rightarrow> bool" where
  "shown_inv d s \<longleftrightarrow> weak_buffer_inv s \<and> (wb_taken s = None \<longrightarrow> last (wb_slots s ! weak_reader_slot s) = d) \<and>
     set (wb_shown s) \<subseteq> insert d (set (wb_published s))"

lemma shown_inv_step:
  assumes inv: "shown_inv d s" and step: "weak_buffer_step s t"
  shows "shown_inv d t"
proof -
  have wb: "weak_buffer_inv s" using inv by (simp add: shown_inv_def)
  then have "weak_buffer_inv t" using step by (rule weak_buffer_inv_step)
  moreover have "(wb_taken t = None \<longrightarrow> last (wb_slots t ! weak_reader_slot t) = d) \<and>
      set (wb_shown t) \<subseteq> insert d (set (wb_published t))"
    using step
  proof cases
    case (xw_fill i v)
    then have "weak_reader_slot s \<noteq> i" "weak_reader_slot t = weak_reader_slot s"
      using wb by (auto simp: weak_buffer_inv_def tb_inv_def tb_owners_inv_def newest_slots slot_owner split: tb_reader.splits)
    with xw_fill inv show ?thesis by (simp add: shown_inv_def)
  next
    case (xr_read i u)
    then have "weak_reader_slot t = weak_reader_slot s" "weak_reader_slot s = wb_read s" by (simp_all add: slot_owner)
    with xr_read inv reader_sees_newest [OF wb xr_read(2), of u] show ?thesis
      by (cases "wb_taken s") (auto simp: shown_inv_def)
  qed (use inv in \<open>auto simp: shown_inv_def slot_owner mid_index_def split: tb_reader.splits\<close>)
  ultimately show ?thesis by (simp add: shown_inv_def)
qed

lemma shown_inv_start: "shown_inv d (weak_buffer_start d)"
  using weak_buffer_inv_start [of d] by (simp add: shown_inv_def weak_buffer_start_def slot_owner)

interpretation weak_buffer_machine: step_machine "\<lambda>s. s = weak_buffer_start d" weak_buffer_step "shown_inv d" for d
  by unfold_locales (auto intro: shown_inv_start shown_inv_step)

lemma weak_buffer_run:
  assumes "weak_buffer_step\<^sup>*\<^sup>* (weak_buffer_start d) s"
  shows "tb_step\<^sup>*\<^sup>* (tb_start d) (newest_buffer s)"
  using assms
proof induction
  case base
  show ?case by (simp add: newest_buffer_def weak_buffer_start_def tb_start_def TripleBuffer_init_def)
next
  case (step s t)
  then have "weak_buffer_inv s" using weak_buffer_machine.inv_reachable [OF refl step(1)] by (simp add: shown_inv_def)
  with step weak_buffer_refines [of s t] show ?case by (auto intro: rtranclp.rtrancl_into_rtrancl)
qed

section \<open>A run\<close>

text \<open>The value 7 is published, consumed and read.\<close>

lemma weak_buffer_demo:
  "\<exists>s. weak_buffer_step\<^sup>*\<^sup>* (weak_buffer_start (0 :: int)) s \<and> wb_shown s = [7] \<and> wb_published s = [7] \<and>
     wb_w s = TWFill \<and> wb_write s = 2 \<and> wb_r s = TRIdle \<and> wb_read s = 0 \<and> wb_taken s = Some 7"
proof -
  define s0 where "s0 = weak_buffer_start (0 :: int)"
  define s1 where "s1 = s0\<lparr>wb_slots := (wb_slots s0)[0 := wb_slots s0 ! 0 @ [7]],
      wb_wv := (wb_wv s0)\<lparr>tv_cur := bump (SlotLoc 0) (length (wb_slots s0 ! 0)) (tv_cur (wb_wv s0))\<rparr>\<rparr>"
  note d1 = s1_def s0_def weak_buffer_start_def thread_start_def
  obtain middle2 th2 where x2: "exchange_acq_rel MidLoc 4 (wb_middle s1) (wb_wv s1) = (2, middle2, th2)"
    by (simp add: exchange_acq_rel_def store_release_def d1)
  note v2 = exchange_views [OF x2]
  define s2 where "s2 = s1\<lparr>wb_middle := middle2, wb_wv := th2, wb_w := TWGot 2, wb_published := [7]\<rparr>"
  define s3 where "s3 = s2\<lparr>wb_write := 2, wb_w := TWFill\<rparr>"
  define s4 where "s4 = s3\<lparr>wb_rv := load_acquire MidLoc 1 (tv_cur th2) (wb_rv s3), wb_r := TRFresh\<rparr>"
  have m2: "middle2 = [(2, \<lambda>_. 0), (4, tv_cur th2)]" "tv_cur th2 (SlotLoc 0) = 1"
    using v2 by (simp_all add: d1 sup_max)
  obtain middle5 th5 where x5: "exchange_acq_rel MidLoc 1 (wb_middle s4) (wb_rv s4) = (4, middle5, th5)"
    by (simp add: exchange_acq_rel_def store_release_def s4_def s3_def s2_def m2)
  note v5 = exchange_views [OF x5]
  have t5: "tv_cur th5 (SlotLoc 0) = 1"
    using v5(3) m2 by (simp add: s4_def s3_def s2_def d1 load_acquire_def sup_max)
  define s5 where "s5 = s4\<lparr>wb_middle := middle5, wb_rv := th5, wb_r := TRGot 4, wb_taken := Some 7\<rparr>"
  define s6 where "s6 = s5\<lparr>wb_read := 0, wb_r := TRIdle\<rparr>"
  define s7 where "s7 = s6\<lparr>wb_reads := (wb_reads s6)(0 := Suc (wb_reads s6 0)), wb_shown := wb_shown s6 @ [wb_slots s6 ! 0 ! 1],
      wb_rv := (wb_rv s6)\<lparr>tv_cur := bump (ReadLoc 0) (Suc (wb_reads s6 0)) (bump (SlotLoc 0) 1 (tv_cur (wb_rv s6)))\<rparr>\<rparr>"
  note d6 = s6_def s5_def s4_def s3_def s2_def
  have "weak_buffer_step s0 s1"
    unfolding s1_def by (rule xw_fill) (simp_all add: s0_def weak_buffer_start_def)
  moreover have "weak_buffer_step s1 s2"
    using xw_exchange [of s1 2 middle2 th2] x2 by (simp add: s2_def d1 kFresh_def)
  moreover have "weak_buffer_step s2 s3"
    using xw_adopt [of s2 2] by (simp add: s3_def s2_def kIndexMask_def)
  moreover have "weak_buffer_step s3 s4"
    unfolding s4_def by (rule xr_fresh [where mid = 4]) (simp_all add: s3_def s2_def m2 readable_def d1 kFresh_def)
  moreover have "weak_buffer_step s4 s5"
    using xr_exchange [of s4 4 middle5 th5] x5 by (simp add: s5_def s4_def s3_def s2_def d1)
  moreover have "weak_buffer_step s5 s6"
    using xr_adopt [of s5 4] by (simp add: s6_def s5_def kIndexMask_def)
  moreover have "weak_buffer_step s6 s7"
    unfolding s7_def by (rule xr_read) (simp_all add: d6 d1 t5)
  ultimately have "step_path weak_buffer_step s0 [s1, s2, s3, s4, s5, s6, s7]" by simp
  then have "weak_buffer_step\<^sup>*\<^sup>* (weak_buffer_start 0) s7" using step_path_run s0_def by fastforce
  then show ?thesis by (rule_tac x = s7 in exI) (simp add: s7_def d6 d1)
qed

section \<open>Properties\<close>

text \<open>
  (C10) The exchanges are enough. Under the memory orders of the source, whatever old value of
  \<open>middle_\<close> the test of the fresh bit loads: the newest stores always form a reachable state of the
  interleaving of one writer and one reader on one memory; when the writer may fill its slot,
  every earlier store and read of that slot is ordered before it; when the reader may
  read its slot, the only store it can see is the newest, which is the snapshot it
  consumed. So no two accesses of a slot race, and every value ever read was published, or is
  the empty one.
\<close>

theorem triple_buffer_weak:
  assumes "weak_buffer_step\<^sup>*\<^sup>* (weak_buffer_start d) s"
  shows "tb_step\<^sup>*\<^sup>* (tb_start d) (newest_buffer s) \<and>
    (wb_w s = TWFill \<longrightarrow> length (wb_slots s ! wb_write s) \<le> Suc (tv_cur (wb_wv s) (SlotLoc (wb_write s))) \<and>
       wb_reads s (wb_write s) \<le> tv_cur (wb_wv s) (ReadLoc (wb_write s))) \<and>
    (\<forall>t. wb_r s = TRIdle \<and> tv_cur (wb_rv s) (SlotLoc (wb_read s)) \<le> t \<and> t < length (wb_slots s ! wb_read s) \<longrightarrow>
       Suc t = length (wb_slots s ! wb_read s) \<and> (\<forall>v. wb_taken s = Some v \<longrightarrow> wb_slots s ! wb_read s ! t = v)) \<and>
    set (wb_shown s) \<subseteq> insert d (set (wb_published s))"
proof -
  have shown: "shown_inv d s" using weak_buffer_machine.inv_reachable [OF refl assms] .
  then have inv: "weak_buffer_inv s" by (simp add: shown_inv_def)
  have "length (wb_slots s ! wb_write s) \<le> Suc (tv_cur (wb_wv s) (SlotLoc (wb_write s))) \<and>
       wb_reads s (wb_write s) \<le> tv_cur (wb_wv s) (ReadLoc (wb_write s))" if "wb_w s = TWFill"
  proof -
    have slot: "weak_writer_slot s = wb_write s" using that by (simp add: slot_owner)
    then have "wb_write s < 3"
      using inv newest_slots(1) [of s] by (simp add: weak_buffer_inv_def tb_inv_def tb_owners_inv_def)
    with inv slot show ?thesis
      by (auto simp: weak_buffer_inv_def order_inv_def covers_stores_def covers_reads_def)
  qed
  moreover have "Suc t = length (wb_slots s ! wb_read s) \<and> (\<forall>v. wb_taken s = Some v \<longrightarrow> wb_slots s ! wb_read s ! t = v)"
    if "wb_r s = TRIdle" "tv_cur (wb_rv s) (SlotLoc (wb_read s)) \<le> t" "t < length (wb_slots s ! wb_read s)" for t
    using reader_sees_newest [OF inv that] that(3) by auto
  ultimately show ?thesis using weak_buffer_run [OF assms] shown by (auto simp: shown_inv_def)
qed

theorem triple_buffer_weak_witness:
  "\<exists>s. weak_buffer_step\<^sup>*\<^sup>* (weak_buffer_start (0 :: int)) s \<and> wb_shown s = [7] \<and>
     tb_step\<^sup>*\<^sup>* (tb_start 0) (newest_buffer s) \<and> wb_reads s 2 \<le> tv_cur (wb_wv s) (ReadLoc 2)"
proof -
  obtain s where s: "weak_buffer_step\<^sup>*\<^sup>* (weak_buffer_start (0 :: int)) s" "wb_shown s = [7]" "wb_w s = TWFill" "wb_write s = 2"
    using weak_buffer_demo by blast
  with triple_buffer_weak [OF s(1)] show ?thesis by auto
qed

end
