(* ===== verification/Spsc_Ring_Weak.thy ===== *)
theory Spsc_Ring_Weak
  imports Spsc_Ring Weak_Memory
begin

text \<open>
  \<^verbatim>\<open>include/ratehub/spsc_ring.hpp\<close> under the memory orders it is written with. The slots are plain
  memory; the release stores and acquire loads of the two indexes order their
  accesses. An index load may return any value that is not older than what its
  thread has learned, a slot read any store the consumer may still see.
\<close>

section \<open>The ring access by access\<close>

text \<open>The timestamps at \<open>SlotStores i\<close> and \<open>SlotReads i\<close> count the stores to slot \<open>i\<close> and the reads of it.\<close>

datatype ring_loc = WriteIdx | ReadIdx | SlotStores nat | SlotReads nat

type_synonym ring_views = "ring_loc thread_views"

record 'a weak_ring =
  wr_slots :: "'a list list"
  wr_reads :: "nat \<Rightarrow> nat"
  wr_write :: "(u32 \<times> ring_loc view) list"
  wr_read :: "(u32 \<times> ring_loc view) list"
  wr_p :: "'a ring_producer"
  wr_c :: "'a ring_consumer"
  wr_pv :: ring_views
  wr_cv :: ring_views
  wr_pushed :: "'a list"
  wr_popped :: "'a list"

definition weak_ring_start :: "u32 \<Rightarrow> 'a \<Rightarrow> 'a weak_ring" where
  "weak_ring_start cap d = \<lparr>wr_slots = replicate (unat cap) [d], wr_reads = (\<lambda>_. 0),
     wr_write = [(0, \<lambda>_. 0)], wr_read = [(0, \<lambda>_. 0)], wr_p = PIdle, wr_c = CIdle,
     wr_pv = thread_start, wr_cv = thread_start, wr_pushed = [], wr_popped = []\<rparr>"

inductive weak_push_step :: "u32 \<Rightarrow> 'a weak_ring \<Rightarrow> 'a weak_ring \<Rightarrow> bool" for cap where
  wp_load_own: "wr_p s = PIdle \<Longrightarrow> readable WriteIdx (wr_write s) (wr_pv s) t \<Longrightarrow> wr_write s ! t = (w, m) \<Longrightarrow>
    weak_push_step cap s (s\<lparr>wr_p := PHave v w, wr_pv := load_relaxed WriteIdx t m (wr_pv s)\<rparr>)"
| wp_full: "wr_p s = PHave v w \<Longrightarrow> readable ReadIdx (wr_read s) (wr_pv s) t \<Longrightarrow> wr_read s ! t = (rd, m) \<Longrightarrow>
    (w + 1) AND kMask cap = rd \<Longrightarrow>
    weak_push_step cap s (s\<lparr>wr_p := PIdle, wr_pv := load_acquire ReadIdx t m (wr_pv s)\<rparr>)"
| wp_room: "wr_p s = PHave v w \<Longrightarrow> readable ReadIdx (wr_read s) (wr_pv s) t \<Longrightarrow> wr_read s ! t = (rd, m) \<Longrightarrow>
    (w + 1) AND kMask cap \<noteq> rd \<Longrightarrow>
    weak_push_step cap s (s\<lparr>wr_p := PWrite v w ((w + 1) AND kMask cap), wr_pv := load_acquire ReadIdx t m (wr_pv s)\<rparr>)"
| wp_slot: "wr_p s = PWrite v w nxt \<Longrightarrow> i = unat w \<Longrightarrow>
    weak_push_step cap s (s\<lparr>wr_slots := (wr_slots s)[i := wr_slots s ! i @ [v]], wr_p := PStore v nxt,
      wr_pv := (wr_pv s)\<lparr>tv_cur := bump (SlotStores i) (length (wr_slots s ! i)) (tv_cur (wr_pv s))\<rparr>\<rparr>)"
| wp_release: "wr_p s = PStore v nxt \<Longrightarrow> store_release WriteIdx (length (wr_write s)) (wr_pv s) = (m, th) \<Longrightarrow>
    weak_push_step cap s (s\<lparr>wr_write := wr_write s @ [(nxt, m)], wr_p := PIdle, wr_pv := th,
      wr_pushed := wr_pushed s @ [v]\<rparr>)"

inductive weak_pop_step :: "u32 \<Rightarrow> 'a weak_ring \<Rightarrow> 'a weak_ring \<Rightarrow> bool" for cap where
  wc_load_own: "wr_c s = CIdle \<Longrightarrow> readable ReadIdx (wr_read s) (wr_cv s) t \<Longrightarrow> wr_read s ! t = (rd, m) \<Longrightarrow>
    weak_pop_step cap s (s\<lparr>wr_c := CHave rd, wr_cv := load_relaxed ReadIdx t m (wr_cv s)\<rparr>)"
| wc_empty: "wr_c s = CHave rd \<Longrightarrow> readable WriteIdx (wr_write s) (wr_cv s) t \<Longrightarrow> wr_write s ! t = (w, m) \<Longrightarrow>
    rd = w \<Longrightarrow> weak_pop_step cap s (s\<lparr>wr_c := CIdle, wr_cv := load_acquire WriteIdx t m (wr_cv s)\<rparr>)"
| wc_data: "wr_c s = CHave rd \<Longrightarrow> readable WriteIdx (wr_write s) (wr_cv s) t \<Longrightarrow> wr_write s ! t = (w, m) \<Longrightarrow>
    rd \<noteq> w \<Longrightarrow> weak_pop_step cap s (s\<lparr>wr_c := CRead rd, wr_cv := load_acquire WriteIdx t m (wr_cv s)\<rparr>)"
| wc_slot: "wr_c s = CRead rd \<Longrightarrow> i = unat rd \<Longrightarrow> tv_cur (wr_cv s) (SlotStores i) \<le> t \<Longrightarrow> t < length (wr_slots s ! i) \<Longrightarrow>
    weak_pop_step cap s (s\<lparr>wr_c := CStore (wr_slots s ! i ! t) rd, wr_reads := (wr_reads s)(i := Suc (wr_reads s i)),
      wr_cv := (wr_cv s)\<lparr>tv_cur := bump (SlotReads i) (Suc (wr_reads s i)) (bump (SlotStores i) t (tv_cur (wr_cv s)))\<rparr>\<rparr>)"
| wc_release: "wr_c s = CStore x rd \<Longrightarrow> store_release ReadIdx (length (wr_read s)) (wr_cv s) = (m, th) \<Longrightarrow>
    weak_pop_step cap s (s\<lparr>wr_read := wr_read s @ [((rd + 1) AND kMask cap, m)], wr_c := CIdle, wr_cv := th,
      wr_popped := wr_popped s @ [x]\<rparr>)"

definition weak_ring_step :: "u32 \<Rightarrow> 'a weak_ring \<Rightarrow> 'a weak_ring \<Rightarrow> bool" where
  "weak_ring_step cap s t \<longleftrightarrow> weak_push_step cap s t \<or> weak_pop_step cap s t"

section \<open>The interleaving it refines\<close>

text \<open>The newest store of each location, and how far each side has seen the other's index.\<close>

definition newest_ring :: "'a weak_ring \<Rightarrow> 'a ring_sys" where
  "newest_ring s = \<lparr>rmem = \<lparr>rb_slots = map last (wr_slots s), rb_write = fst (last (wr_write s)),
       rb_read = fst (last (wr_read s))\<rparr>,
     prod = wr_p s, cons = wr_c s, seen_read = tv_cur (wr_pv s) ReadIdx, seen_write = tv_cur (wr_cv s) WriteIdx,
     pushed = wr_pushed s, popped = wr_popped s\<rparr>"

text \<open>The \<open>k\<close>-th store of an index has value \<open>k\<close>; each side has its own last store, and nothing is known before it happened.\<close>

definition index_hist :: "u32 \<Rightarrow> ring_loc \<Rightarrow> ring_loc \<Rightarrow> (u32 \<times> ring_loc view) list \<Rightarrow> 'a list \<Rightarrow> 'a list \<Rightarrow> bool" where
  "index_hist cap own other hist ours theirs \<longleftrightarrow> length hist = Suc (length ours) \<and>
     (\<forall>k < length hist. fst (hist ! k) = idx cap k \<and> snd (hist ! k) own \<le> k \<and> snd (hist ! k) other \<le> length theirs)"

definition index_inv :: "u32 \<Rightarrow> 'a weak_ring \<Rightarrow> bool" where
  "index_inv cap s \<longleftrightarrow> index_hist cap WriteIdx ReadIdx (wr_write s) (wr_pushed s) (wr_popped s) \<and>
     index_hist cap ReadIdx WriteIdx (wr_read s) (wr_popped s) (wr_pushed s) \<and>
     tv_cur (wr_pv s) WriteIdx = length (wr_pushed s) \<and> tv_cur (wr_cv s) ReadIdx = length (wr_popped s)"

text \<open>
  Record \<open>j\<close> is store \<open>j div cap + 1\<close> of slot \<open>j mod cap\<close>, and the \<open>j div cap + 1\<close>-st read of it. A view
  may know the stores, or the reads, of the first \<open>k\<close> records.
\<close>

definition knows_stores :: "u32 \<Rightarrow> nat \<Rightarrow> ring_loc view \<Rightarrow> bool" where
  "knows_stores cap k v \<longleftrightarrow> (\<forall>j < k. Suc (j div unat cap) \<le> v (SlotStores (j mod unat cap)))"

definition knows_reads :: "u32 \<Rightarrow> nat \<Rightarrow> ring_loc view \<Rightarrow> bool" where
  "knows_reads cap k v \<longleftrightarrow> (\<forall>j < k. Suc (j div unat cap) \<le> v (SlotReads (j mod unat cap)))"

definition records_stored :: "'a weak_ring \<Rightarrow> nat" where
  "records_stored s = length (wr_pushed s) + (case wr_p s of PStore _ _ \<Rightarrow> 1 | _ \<Rightarrow> 0)"

definition records_read :: "'a weak_ring \<Rightarrow> nat" where
  "records_read s = length (wr_popped s) + (case wr_c s of CStore _ _ \<Rightarrow> 1 | _ \<Rightarrow> 0)"

definition stores_inv :: "u32 \<Rightarrow> 'a weak_ring \<Rightarrow> bool" where
  "stores_inv cap s \<longleftrightarrow> (\<forall>i < unat cap. wr_slots s ! i \<noteq> [] \<and> length (wr_slots s ! i) \<le> Suc (tv_cur (wr_pv s) (SlotStores i))) \<and>
     (\<forall>j. if j < records_stored s then Suc (Suc (j div unat cap)) \<le> length (wr_slots s ! (j mod unat cap))
        else length (wr_slots s ! (j mod unat cap)) \<le> Suc (j div unat cap)) \<and>
     knows_stores cap (tv_cur (wr_cv s) WriteIdx) (tv_cur (wr_cv s)) \<and>
     (\<forall>k < length (wr_write s). knows_stores cap k (snd (wr_write s ! k)))"

definition reads_inv :: "u32 \<Rightarrow> 'a weak_ring \<Rightarrow> bool" where
  "reads_inv cap s \<longleftrightarrow> (\<forall>i < unat cap. wr_reads s i \<le> tv_cur (wr_cv s) (SlotReads i)) \<and>
     (\<forall>j. if j < records_read s then Suc (j div unat cap) \<le> wr_reads s (j mod unat cap)
        else wr_reads s (j mod unat cap) \<le> j div unat cap) \<and>
     knows_reads cap (tv_cur (wr_pv s) ReadIdx) (tv_cur (wr_pv s)) \<and>
     (\<forall>k < length (wr_read s). knows_reads cap k (snd (wr_read s ! k)))"

definition weak_ring_inv :: "u32 \<Rightarrow> 'a weak_ring \<Rightarrow> bool" where
  "weak_ring_inv cap s \<longleftrightarrow> ring_inv cap (newest_ring s) \<and> index_inv cap s \<and> stores_inv cap s \<and> reads_inv cap s"

lemma newest_ring_start: "newest_ring (weak_ring_start cap d) = ring_start cap d"
  by (simp add: newest_ring_def weak_ring_start_def ring_start_def SpscRing_init_def thread_start_def)

lemma weak_ring_inv_start:
  assumes "valid_capacity cap"
  shows "weak_ring_inv cap (weak_ring_start cap d)"
proof -
  have "ring_inv cap (newest_ring (weak_ring_start cap d))"
    using ring_inv_start [OF assms] by (simp add: newest_ring_start)
  moreover have "0 < unat cap" using valid_capacity_nat(1) [OF assms] by simp
  ultimately show ?thesis
    unfolding weak_ring_inv_def index_inv_def index_hist_def stores_inv_def reads_inv_def
    by (simp add: weak_ring_start_def thread_start_def idx_def knows_stores_def knows_reads_def records_stored_def records_read_def)
qed

section \<open>Steps\<close>

text \<open>The store of an index a thread loads; its own one is the last.\<close>

lemma index_loaded:
  assumes "index_hist cap own other hist ours theirs" and "readable own hist th t" and "hist ! t = (x, m)"
  shows "x = idx cap t" and "t \<le> length ours" and "m own \<le> t" and "m other \<le> length theirs" and "tv_cur th own \<le> t"
    and "tv_cur th own = length ours \<Longrightarrow> t = length ours"
proof -
  have "fst (hist ! t) = idx cap t \<and> snd (hist ! t) own \<le> t \<and> snd (hist ! t) other \<le> length theirs"
    using assms(1,2) by (simp add: index_hist_def readable_def)
  with assms show "x = idx cap t" "t \<le> length ours" "m own \<le> t" "m other \<le> length theirs" "tv_cur th own \<le> t"
    "tv_cur th own = length ours \<Longrightarrow> t = length ours" by (simp_all add: index_hist_def readable_def)
qed

lemma index_last: "index_hist cap own other hist ours theirs \<Longrightarrow> fst (last hist) = idx cap (length ours)"
  by (cases "hist = []") (simp_all add: index_hist_def last_conv_nth)

text \<open>What the producer may overwrite has been read, what the consumer reads is not yet overwritten.\<close>

lemma stored_within:
  assumes "ring_inv cap (newest_ring s)"
  shows "records_stored s \<le> length (wr_popped s) + unat cap" and "records_read s \<le> length (wr_pushed s)"
  using assms
  by (auto simp: ring_inv_def ring_mem_inv_def newest_ring_def records_stored_def records_read_def
      split: ring_producer.splits ring_consumer.splits)

lemma consumer_slot:
  assumes inv: "weak_ring_inv cap s" and "wr_c s = CRead rd"
  shows "unat rd = length (wr_popped s) mod unat cap" and "unat rd < unat cap" and "unat rd < length (wr_slots s)"
    and "length (wr_slots s ! unat rd) \<le> Suc (tv_cur (wr_cv s) (SlotStores (unat rd)))"
proof -
  let ?j = "length (wr_popped s)"
  have vc: "valid_capacity cap" and rd: "rd = idx cap ?j" and seen: "?j < tv_cur (wr_cv s) WriteIdx"
    and len: "length (wr_slots s) = unat cap"
    using assms by (auto simp: weak_ring_inv_def ring_inv_def ring_mem_inv_def newest_ring_def)
  show i: "unat rd = ?j mod unat cap" by (simp add: rd unat_idx [OF vc])
  moreover have c: "0 < unat cap" using valid_capacity_nat(1) [OF vc] by simp
  ultimately show "unat rd < unat cap" "unat rd < length (wr_slots s)" using len by simp_all
  have "Suc (?j div unat cap) \<le> tv_cur (wr_cv s) (SlotStores (unat rd))"
    using inv seen by (simp add: weak_ring_inv_def stores_inv_def knows_stores_def i)
  moreover have "\<not> ?j + unat cap < records_stored s"
    using stored_within(1) inv by (fastforce simp: weak_ring_inv_def)
  then have "length (wr_slots s ! ((?j + unat cap) mod unat cap)) \<le> Suc ((?j + unat cap) div unat cap)"
    using inv unfolding weak_ring_inv_def stores_inv_def by metis
  then have "length (wr_slots s ! unat rd) \<le> Suc (Suc (?j div unat cap))" using i c by (simp add: div_add_self2)
  ultimately show "length (wr_slots s ! unat rd) \<le> Suc (tv_cur (wr_cv s) (SlotStores (unat rd)))" by simp
qed

lemma producer_slot:
  assumes inv: "weak_ring_inv cap s" and "wr_p s = PWrite v w nxt"
  shows "unat w = length (wr_pushed s) mod unat cap" and "unat w < unat cap" and "unat w < length (wr_slots s)"
    and "wr_reads s (unat w) \<le> tv_cur (wr_pv s) (SlotReads (unat w))"
proof -
  let ?n = "length (wr_pushed s)"
  have vc: "valid_capacity cap" and w: "w = idx cap ?n" and seen: "Suc ?n < tv_cur (wr_pv s) ReadIdx + unat cap"
    and len: "length (wr_slots s) = unat cap"
    using assms by (auto simp: weak_ring_inv_def ring_inv_def ring_mem_inv_def newest_ring_def)
  show i: "unat w = ?n mod unat cap" by (simp add: w unat_idx [OF vc])
  moreover have c: "0 < unat cap" using valid_capacity_nat(1) [OF vc] by simp
  ultimately show "unat w < unat cap" "unat w < length (wr_slots s)" using len by simp_all
  have "\<not> ?n < records_read s" using stored_within(2) inv by (fastforce simp: weak_ring_inv_def)
  then have reads: "wr_reads s (unat w) \<le> ?n div unat cap"
    using inv i unfolding weak_ring_inv_def reads_inv_def by metis
  show "wr_reads s (unat w) \<le> tv_cur (wr_pv s) (SlotReads (unat w))"
  proof (cases "?n < unat cap")
    case False
    then have "Suc ((?n - unat cap) div unat cap) \<le> tv_cur (wr_pv s) (SlotReads ((?n - unat cap) mod unat cap))"
      using inv seen by (simp add: weak_ring_inv_def reads_inv_def knows_reads_def)
    moreover have "Suc ((?n - unat cap) div unat cap) = ?n div unat cap" "(?n - unat cap) mod unat cap = ?n mod unat cap"
      using False c by (simp_all add: le_div_geq le_mod_geq)
    ultimately show ?thesis using reads i by simp
  qed (use reads in simp)
qed

lemma weak_push_refines:
  assumes inv: "weak_ring_inv cap s" and "weak_push_step cap s t"
  shows "ring_step cap (newest_ring s) (newest_ring t)"
proof -
  have w: "index_hist cap WriteIdx ReadIdx (wr_write s) (wr_pushed s) (wr_popped s)"
    and r: "index_hist cap ReadIdx WriteIdx (wr_read s) (wr_popped s) (wr_pushed s)"
    and own: "tv_cur (wr_pv s) WriteIdx = length (wr_pushed s)"
    using inv by (simp_all add: weak_ring_inv_def index_inv_def)
  from assms(2) show ?thesis
  proof cases
    case (wp_load_own u x m v)
    note ld = index_loaded [OF w wp_load_own(3,4)]
    show ?thesis using p_load_own [of "newest_ring s" cap v] wp_load_own ld(1) ld(6) [OF own] index_last [OF w]
      by (simp add: newest_ring_def load_relaxed_def)
  next
    case (wp_full v x u rd m)
    note ld = index_loaded [OF r wp_full(3,4)]
    show ?thesis using p_full [of "newest_ring s" v x u cap] wp_full ld load_acquire_at [of "wr_pv s" ReadIdx u m]
      by (simp add: newest_ring_def)
  next
    case (wp_room v x u rd m)
    note ld = index_loaded [OF r wp_room(3,4)]
    show ?thesis using p_room [of "newest_ring s" v x u cap] wp_room ld load_acquire_at [of "wr_pv s" ReadIdx u m]
      by (simp add: newest_ring_def)
  next
    case (wp_slot v x nxt i)
    have "map last ((wr_slots s)[i := wr_slots s ! i @ [v]]) = (map last (wr_slots s))[i := v]" by (simp add: map_update)
    with wp_slot show ?thesis using p_slot [of "newest_ring s" v x nxt cap] by (simp add: newest_ring_def)
  next
    case (wp_release v nxt m th)
    then show ?thesis using p_release [of "newest_ring s" v nxt cap] by (auto simp: newest_ring_def store_release_def)
  qed
qed

lemma weak_pop_refines:
  assumes inv: "weak_ring_inv cap s" and "weak_pop_step cap s t"
  shows "ring_step cap (newest_ring s) (newest_ring t)"
proof -
  have w: "index_hist cap WriteIdx ReadIdx (wr_write s) (wr_pushed s) (wr_popped s)"
    and r: "index_hist cap ReadIdx WriteIdx (wr_read s) (wr_popped s) (wr_pushed s)"
    and own: "tv_cur (wr_cv s) ReadIdx = length (wr_popped s)"
    using inv by (simp_all add: weak_ring_inv_def index_inv_def)
  from assms(2) show ?thesis
  proof cases
    case (wc_load_own u rd m)
    note ld = index_loaded [OF r wc_load_own(3,4)]
    show ?thesis using c_load_own [of "newest_ring s" cap] wc_load_own ld(1) ld(6) [OF own] index_last [OF r]
      by (simp add: newest_ring_def load_relaxed_def)
  next
    case (wc_empty rd u x m)
    note ld = index_loaded [OF w wc_empty(3,4)]
    show ?thesis using c_empty [of "newest_ring s" rd u cap] wc_empty ld load_acquire_at [of "wr_cv s" WriteIdx u m]
      by (simp add: newest_ring_def)
  next
    case (wc_data rd u x m)
    note ld = index_loaded [OF w wc_data(3,4)]
    show ?thesis using c_data [of "newest_ring s" rd u cap] wc_data ld load_acquire_at [of "wr_cv s" WriteIdx u m]
      by (simp add: newest_ring_def)
  next
    case (wc_slot rd i u)
    note slot = consumer_slot [OF inv wc_slot(2)]
    have "u = length (wr_slots s ! i) - 1" "wr_slots s ! i \<noteq> []" using slot(4) wc_slot(3,4,5) by auto
    then have "wr_slots s ! i ! u = last (wr_slots s ! i)" by (simp add: last_conv_nth)
    with wc_slot slot(3) show ?thesis using c_slot [of "newest_ring s" rd cap] by (simp add: newest_ring_def)
  next
    case (wc_release x rd m th)
    then show ?thesis using c_release [of "newest_ring s" x rd cap] by (auto simp: newest_ring_def store_release_def)
  qed
qed

subsection \<open>Indexes\<close>

lemma index_hist_more:
  assumes "index_hist cap own other hist ours theirs"
  shows "x = idx cap (Suc (length ours)) \<Longrightarrow> m own \<le> Suc (length ours) \<Longrightarrow> m other \<le> length theirs \<Longrightarrow>
      index_hist cap own other (hist @ [(x, m)]) (ours @ [v]) theirs"
    and "index_hist cap own other hist ours (theirs @ [v])"
  using assms by (auto simp: index_hist_def nth_append less_Suc_eq le_SucI)

lemma index_inv_push:
  assumes inv: "weak_ring_inv cap s" and "weak_push_step cap s t"
  shows "index_inv cap t"
proof -
  have ix: "index_inv cap s" and ring: "ring_inv cap (newest_ring s)" using inv by (simp_all add: weak_ring_inv_def)
  have w: "index_hist cap WriteIdx ReadIdx (wr_write s) (wr_pushed s) (wr_popped s)"
    and r: "index_hist cap ReadIdx WriteIdx (wr_read s) (wr_popped s) (wr_pushed s)"
    and own: "tv_cur (wr_pv s) WriteIdx = length (wr_pushed s)"
    using ix by (simp_all add: index_inv_def)
  from assms(2) show ?thesis
  proof cases
    case (wp_load_own u x m v)
    with index_loaded(2) [OF w wp_load_own(3,4)] ix show ?thesis by (simp add: index_inv_def load_relaxed_def)
  next
    case (wp_full v x u rd m)
    with index_loaded(4) [OF r wp_full(3,4)] ix show ?thesis by (simp add: index_inv_def load_acquire_def sup_max)
  next
    case (wp_room v x u rd m)
    with index_loaded(4) [OF r wp_room(3,4)] ix show ?thesis by (simp add: index_inv_def load_acquire_def sup_max)
  next
    case (wp_release v nxt m th)
    have "nxt = idx cap (Suc (length (wr_pushed s)))" "tv_cur (wr_pv s) ReadIdx \<le> length (wr_popped s)"
      using ring wp_release(2) by (simp_all add: ring_inv_def ring_mem_inv_def newest_ring_def)
    moreover have "m = bump WriteIdx (Suc (length (wr_pushed s))) (tv_cur (wr_pv s))" "tv_cur th = m"
      using wp_release(3) w by (auto simp: store_release_def index_hist_def)
    ultimately show ?thesis
      using wp_release(1) index_hist_more(1) [OF w, of nxt m v] index_hist_more(2) [OF r, of v] own ix
      by (simp add: index_inv_def)
  qed (use ix in \<open>simp add: index_inv_def\<close>)
qed

lemma index_inv_pop:
  assumes inv: "weak_ring_inv cap s" and "weak_pop_step cap s t"
  shows "index_inv cap t"
proof -
  have ix: "index_inv cap s" and ring: "ring_inv cap (newest_ring s)" using inv by (simp_all add: weak_ring_inv_def)
  have w: "index_hist cap WriteIdx ReadIdx (wr_write s) (wr_pushed s) (wr_popped s)"
    and r: "index_hist cap ReadIdx WriteIdx (wr_read s) (wr_popped s) (wr_pushed s)"
    and own: "tv_cur (wr_cv s) ReadIdx = length (wr_popped s)"
    using ix by (simp_all add: index_inv_def)
  from assms(2) show ?thesis
  proof cases
    case (wc_load_own u x m)
    with index_loaded(2) [OF r wc_load_own(3,4)] ix show ?thesis by (simp add: index_inv_def load_relaxed_def)
  next
    case (wc_empty rd u x m)
    with index_loaded(4) [OF w wc_empty(3,4)] ix show ?thesis by (simp add: index_inv_def load_acquire_def sup_max)
  next
    case (wc_data rd u x m)
    with index_loaded(4) [OF w wc_data(3,4)] ix show ?thesis by (simp add: index_inv_def load_acquire_def sup_max)
  next
    case (wc_release x rd m th)
    have "(rd + 1) AND kMask cap = idx cap (Suc (length (wr_popped s)))" "tv_cur (wr_cv s) WriteIdx \<le> length (wr_pushed s)"
      using ring wc_release(2) by (auto simp: ring_inv_def ring_mem_inv_def newest_ring_def idx_succ)
    moreover have "m = bump ReadIdx (Suc (length (wr_popped s))) (tv_cur (wr_cv s))" "tv_cur th = m"
      using wc_release(3) r by (auto simp: store_release_def index_hist_def)
    ultimately show ?thesis
      using wc_release(1) index_hist_more(1) [OF r, of "(rd + 1) AND kMask cap" m x] index_hist_more(2) [OF w, of x] own ix
      by (simp add: index_inv_def)
  qed (use ix in \<open>simp add: index_inv_def\<close>)
qed

subsection \<open>Stores\<close>

lemma knows_mono:
  "knows_stores cap k v \<Longrightarrow> (\<And>i. v (SlotStores i) \<le> v' (SlotStores i)) \<Longrightarrow> knows_stores cap k v'"
  "knows_reads cap k v \<Longrightarrow> (\<And>i. v (SlotReads i) \<le> v' (SlotReads i)) \<Longrightarrow> knows_reads cap k v'"
  unfolding knows_stores_def knows_reads_def by (blast intro: le_trans)+

lemma stores_inv_frame:
  assumes "stores_inv cap s" and "wr_slots t = wr_slots s" and "wr_write t = wr_write s" and "records_stored t = records_stored s"
    and "\<And>i. tv_cur (wr_pv s) (SlotStores i) \<le> tv_cur (wr_pv t) (SlotStores i)"
    and "knows_stores cap (tv_cur (wr_cv t) WriteIdx) (tv_cur (wr_cv t))"
  shows "stores_inv cap t"
proof -
  have "length (wr_slots s ! i) \<le> Suc (tv_cur (wr_pv t) (SlotStores i))" if "i < unat cap" for i
    using assms(1) assms(5) [of i] that unfolding stores_inv_def by fastforce
  then show ?thesis using assms unfolding stores_inv_def by simp
qed

lemma reads_inv_frame:
  assumes "reads_inv cap s" and "wr_reads t = wr_reads s" and "wr_read t = wr_read s" and "records_read t = records_read s"
    and "\<And>i. tv_cur (wr_cv s) (SlotReads i) \<le> tv_cur (wr_cv t) (SlotReads i)"
    and "knows_reads cap (tv_cur (wr_pv t) ReadIdx) (tv_cur (wr_pv t))"
  shows "reads_inv cap t"
proof -
  have "wr_reads s i \<le> tv_cur (wr_cv t) (SlotReads i)" if "i < unat cap" for i
    using assms(1) assms(5) [of i] that unfolding reads_inv_def by fastforce
  then show ?thesis using assms unfolding reads_inv_def by simp
qed

text \<open>Two records of one slot are a whole number of laps apart.\<close>

lemma later_lap:
  assumes "n < j" and "j mod c = n mod c"
  shows "Suc (n div c) \<le> (j :: nat) div c"
proof -
  have "n div c \<noteq> j div c" using assms by (metis div_mult_mod_eq less_irrefl)
  moreover have "n div c \<le> j div c" using assms(1) by (simp add: div_le_mono)
  ultimately show ?thesis by simp
qed

lemma stores_inv_slot:
  assumes inv: "stores_inv cap s" and n: "records_stored s = n" "records_stored t = Suc n" and i: "i = n mod unat cap"
    and c: "0 < unat cap" "length (wr_slots s) = unat cap"
    and t: "wr_slots t = (wr_slots s)[i := wr_slots s ! i @ [v]]" "wr_write t = wr_write s" "wr_cv t = wr_cv s"
      "tv_cur (wr_pv t) = bump (SlotStores i) (length (wr_slots s ! i)) (tv_cur (wr_pv s))"
  shows "stores_inv cap t"
proof -
  have lt: "i < unat cap" using c i by simp
  have low: "Suc (Suc (j div unat cap)) \<le> length (wr_slots s ! (j mod unat cap))" if "j < n" for j
    using inv n(1) that unfolding stores_inv_def by metis
  have high: "length (wr_slots s ! (j mod unat cap)) \<le> Suc (j div unat cap)" if "n \<le> j" for j
    using inv n(1) that unfolding stores_inv_def by (metis not_le)
  have next_store: "Suc (n div unat cap) \<le> length (wr_slots s ! i)"
  proof (cases "n < unat cap")
    case True
    then show ?thesis using inv lt by (simp add: stores_inv_def Suc_le_eq)
  next
    case False
    then show ?thesis using low [of "n - unat cap"] c(1) i by (simp add: le_div_geq le_mod_geq)
  qed
  have "if j < Suc n then Suc (Suc (j div unat cap)) \<le> length (wr_slots t ! (j mod unat cap))
      else length (wr_slots t ! (j mod unat cap)) \<le> Suc (j div unat cap)" for j
  proof (cases "j mod unat cap = i")
    case True
    then have "length (wr_slots t ! (j mod unat cap)) = Suc (length (wr_slots s ! i))" using t(1) lt c(2) by simp
    moreover have "Suc (n div unat cap) \<le> j div unat cap" if "n < j" using later_lap [OF that] True i by simp
    ultimately show ?thesis using low [of j] next_store high [of n] True i by (cases "j < n"; cases "j = n") auto
  next
    case False
    then show ?thesis using low [of j] high [of j] t(1) i by (cases "j = n") auto
  qed
  moreover have "wr_slots t ! k \<noteq> [] \<and> length (wr_slots t ! k) \<le> Suc (tv_cur (wr_pv t) (SlotStores k))" if "k < unat cap" for k
    using inv that t(1,4) c(2) by (cases "k = i") (simp_all add: stores_inv_def)
  ultimately show ?thesis using inv n(2) t(2,3) unfolding stores_inv_def by simp
qed

lemma stores_inv_push:
  assumes inv: "weak_ring_inv cap s" and "weak_push_step cap s t"
  shows "stores_inv cap t"
proof -
  have st: "stores_inv cap s" using inv by (simp add: weak_ring_inv_def)
  then have known: "knows_stores cap (tv_cur (wr_cv s) WriteIdx) (tv_cur (wr_cv s))" by (simp add: stores_inv_def)
  from assms(2) show ?thesis
  proof cases
    case (wp_slot v x nxt i)
    note slot = producer_slot [OF inv wp_slot(2)]
    have "length (wr_slots s) = unat cap"
      using inv by (simp add: weak_ring_inv_def ring_inv_def ring_mem_inv_def newest_ring_def)
    with wp_slot slot show ?thesis
      using stores_inv_slot [OF st, of "length (wr_pushed s)" t i v] by (simp add: records_stored_def)
  next
    case (wp_release v nxt m th)
    let ?k = "length (wr_write s)"
    have len: "?k = Suc (length (wr_pushed s))" using inv by (simp add: weak_ring_inv_def index_inv_def index_hist_def)
    have m: "m = bump WriteIdx ?k (tv_cur (wr_pv s))" "tv_cur th = m" using wp_release(3) by (auto simp: store_release_def)
    have c: "0 < unat cap" using valid_capacity_nat(1) [of cap] inv by (simp add: weak_ring_inv_def ring_inv_def ring_mem_inv_def)
    have "Suc (j div unat cap) \<le> tv_cur (wr_pv s) (SlotStores (j mod unat cap))" if "j < ?k" for j
    proof -
      have "j < records_stored s" using that len wp_release(2) by (simp add: records_stored_def)
      then have "Suc (Suc (j div unat cap)) \<le> length (wr_slots s ! (j mod unat cap))"
        using st unfolding stores_inv_def by metis
      moreover have "length (wr_slots s ! (j mod unat cap)) \<le> Suc (tv_cur (wr_pv s) (SlotStores (j mod unat cap)))"
        using st c by (simp add: stores_inv_def)
      ultimately show ?thesis by simp
    qed
    then have "knows_stores cap ?k m" by (simp add: knows_stores_def m)
    moreover have "records_stored t = records_stored s" using wp_release(1,2) by (simp add: records_stored_def)
    ultimately show ?thesis
      using st wp_release(1) m unfolding stores_inv_def by (simp add: nth_append less_Suc_eq)
  qed (use known stores_inv_frame [OF st, of t] in
    \<open>simp_all add: records_stored_def load_relaxed_def load_acquire_def sup_max le_max_iff_disj\<close>)
qed

lemma stores_inv_pop:
  assumes inv: "weak_ring_inv cap s" and "weak_pop_step cap s t"
  shows "stores_inv cap t"
proof -
  have st: "stores_inv cap s" using inv by (simp add: weak_ring_inv_def)
  then have known: "knows_stores cap (tv_cur (wr_cv s) WriteIdx) (tv_cur (wr_cv s))" by (simp add: stores_inv_def)
  have w: "index_hist cap WriteIdx ReadIdx (wr_write s) (wr_pushed s) (wr_popped s)"
    using inv by (simp add: weak_ring_inv_def index_inv_def)
  have learned: "knows_stores cap (tv_cur (load_acquire WriteIdx u m (wr_cv s)) WriteIdx) (tv_cur (load_acquire WriteIdx u m (wr_cv s)))"
    if "readable WriteIdx (wr_write s) (wr_cv s) u" "wr_write s ! u = (x, m)" for u x m
  proof -
    have "knows_stores cap u (snd (wr_write s ! u))" using st that(1) by (simp add: stores_inv_def readable_def)
    then have "knows_stores cap u (tv_cur (load_acquire WriteIdx u m (wr_cv s)))"
      by (rule knows_mono) (simp add: that(2) load_acquire_def sup_max)
    then show ?thesis
      using load_acquire_at [of "wr_cv s" WriteIdx u m] index_loaded(3,5) [OF w that] by simp
  qed
  from assms(2) show ?thesis
  proof cases
    case (wc_empty rd u x m)
    then show ?thesis using stores_inv_frame [OF st, of t] learned [OF wc_empty(3,4)] by (simp add: records_stored_def)
  next
    case (wc_data rd u x m)
    then show ?thesis using stores_inv_frame [OF st, of t] learned [OF wc_data(3,4)] by (simp add: records_stored_def)
  next
    case (wc_slot rd i u)
    then show ?thesis
      using stores_inv_frame [OF st, of t] knows_mono(1) [OF known, of "tv_cur (wr_cv t)"] by (simp add: records_stored_def)
  next
    case (wc_load_own u rd m)
    then show ?thesis
      using stores_inv_frame [OF st, of t] knows_mono(1) [OF known, of "tv_cur (wr_cv t)"]
      by (simp add: records_stored_def load_relaxed_def)
  next
    case (wc_release x rd m th)
    then show ?thesis
      using stores_inv_frame [OF st, of t] knows_mono(1) [OF known, of "tv_cur (wr_cv t)"]
      by (auto simp: records_stored_def store_release_def)
  qed
qed

subsection \<open>Reads\<close>

lemma reads_inv_slot:
  assumes inv: "reads_inv cap s" and n: "records_read s = n" "records_read t = Suc n" and i: "i = n mod unat cap"
    and t: "wr_reads t = (wr_reads s)(i := Suc (wr_reads s i))" "wr_read t = wr_read s" "wr_pv t = wr_pv s"
      "tv_cur (wr_cv t) = bump (SlotReads i) (Suc (wr_reads s i)) (bump (SlotStores i) u (tv_cur (wr_cv s)))"
  shows "reads_inv cap t"
proof -
  have low: "Suc (j div unat cap) \<le> wr_reads s (j mod unat cap)" if "j < n" for j
    using inv n(1) that unfolding reads_inv_def by metis
  have high: "wr_reads s (j mod unat cap) \<le> j div unat cap" if "n \<le> j" for j
    using inv n(1) that unfolding reads_inv_def by (metis not_le)
  have next_read: "n div unat cap \<le> wr_reads s i"
  proof (cases "n < unat cap \<or> unat cap = 0")
    case False
    then show ?thesis using low [of "n - unat cap"] i by (simp add: le_div_geq le_mod_geq)
  qed auto
  have "if j < Suc n then Suc (j div unat cap) \<le> wr_reads t (j mod unat cap)
      else wr_reads t (j mod unat cap) \<le> j div unat cap" for j
  proof (cases "j mod unat cap = i")
    case True
    moreover have "Suc (n div unat cap) \<le> j div unat cap" if "n < j" using later_lap [OF that] True i by simp
    ultimately show ?thesis using low [of j] next_read high [of n] i t(1) by (cases "j < n"; cases "j = n") auto
  next
    case False
    then show ?thesis using low [of j] high [of j] t(1) i by (cases "j = n") auto
  qed
  moreover have "wr_reads t k \<le> tv_cur (wr_cv t) (SlotReads k)" if "k < unat cap" for k
    using inv that t(1,4) by (cases "k = i") (simp_all add: reads_inv_def)
  ultimately show ?thesis using inv n(2) t(2,3) unfolding reads_inv_def by simp
qed

lemma reads_inv_pop:
  assumes inv: "weak_ring_inv cap s" and "weak_pop_step cap s t"
  shows "reads_inv cap t"
proof -
  have rs: "reads_inv cap s" using inv by (simp add: weak_ring_inv_def)
  then have known: "knows_reads cap (tv_cur (wr_pv s) ReadIdx) (tv_cur (wr_pv s))" by (simp add: reads_inv_def)
  from assms(2) show ?thesis
  proof cases
    case (wc_slot rd i u)
    then show ?thesis
      using reads_inv_slot [OF rs, of "length (wr_popped s)" t i u] consumer_slot(1) [OF inv wc_slot(2)]
      by (simp add: records_read_def)
  next
    case (wc_release x rd m th)
    let ?k = "length (wr_read s)"
    have len: "?k = Suc (length (wr_popped s))" using inv by (simp add: weak_ring_inv_def index_inv_def index_hist_def)
    have m: "m = bump ReadIdx ?k (tv_cur (wr_cv s))" "tv_cur th = m" using wc_release(3) by (auto simp: store_release_def)
    have c: "0 < unat cap" using valid_capacity_nat(1) [of cap] inv by (simp add: weak_ring_inv_def ring_inv_def ring_mem_inv_def)
    have "Suc (j div unat cap) \<le> tv_cur (wr_cv s) (SlotReads (j mod unat cap))" if "j < ?k" for j
    proof -
      have "j < records_read s" using that len wc_release(2) by (simp add: records_read_def)
      then have "Suc (j div unat cap) \<le> wr_reads s (j mod unat cap)" using rs unfolding reads_inv_def by metis
      moreover have "wr_reads s (j mod unat cap) \<le> tv_cur (wr_cv s) (SlotReads (j mod unat cap))"
        using rs c by (simp add: reads_inv_def)
      ultimately show ?thesis by simp
    qed
    then have "knows_reads cap ?k m" by (simp add: knows_reads_def m)
    moreover have "records_read t = records_read s" using wc_release(1,2) by (simp add: records_read_def)
    ultimately show ?thesis
      using rs wc_release(1) m unfolding reads_inv_def by (simp add: nth_append less_Suc_eq)
  qed (use known reads_inv_frame [OF rs, of t] in
    \<open>simp_all add: records_read_def load_relaxed_def load_acquire_def sup_max le_max_iff_disj\<close>)
qed

lemma reads_inv_push:
  assumes inv: "weak_ring_inv cap s" and "weak_push_step cap s t"
  shows "reads_inv cap t"
proof -
  have rs: "reads_inv cap s" using inv by (simp add: weak_ring_inv_def)
  then have known: "knows_reads cap (tv_cur (wr_pv s) ReadIdx) (tv_cur (wr_pv s))" by (simp add: reads_inv_def)
  have r: "index_hist cap ReadIdx WriteIdx (wr_read s) (wr_popped s) (wr_pushed s)"
    using inv by (simp add: weak_ring_inv_def index_inv_def)
  have learned: "knows_reads cap (tv_cur (load_acquire ReadIdx u m (wr_pv s)) ReadIdx) (tv_cur (load_acquire ReadIdx u m (wr_pv s)))"
    if "readable ReadIdx (wr_read s) (wr_pv s) u" "wr_read s ! u = (x, m)" for u x m
  proof -
    have "knows_reads cap u (snd (wr_read s ! u))" using rs that(1) by (simp add: reads_inv_def readable_def)
    then have "knows_reads cap u (tv_cur (load_acquire ReadIdx u m (wr_pv s)))"
      by (rule knows_mono) (simp add: that(2) load_acquire_def sup_max)
    then show ?thesis
      using load_acquire_at [of "wr_pv s" ReadIdx u m] index_loaded(3,5) [OF r that] by simp
  qed
  note frame = reads_inv_frame [OF rs, of t] and more = knows_mono(2) [OF known, of "tv_cur (wr_pv t)"]
  from assms(2) show ?thesis
  proof cases
    case (wp_full v x u rd m)
    then show ?thesis using frame learned [OF wp_full(3,4)] by (simp add: records_read_def)
  next
    case (wp_room v x u rd m)
    then show ?thesis using frame learned [OF wp_room(3,4)] by (simp add: records_read_def)
  next
    case (wp_slot v x nxt i)
    then show ?thesis using frame more by (simp add: records_read_def)
  next
    case (wp_load_own u w m v)
    then show ?thesis using frame more by (simp add: records_read_def load_relaxed_def)
  next
    case (wp_release v nxt m th)
    then show ?thesis using frame more by (auto simp: records_read_def store_release_def)
  qed
qed

subsection \<open>Runs\<close>

lemma weak_ring_refines: "weak_ring_inv cap s \<Longrightarrow> weak_ring_step cap s t \<Longrightarrow> ring_step cap (newest_ring s) (newest_ring t)"
  using weak_push_refines weak_pop_refines by (auto simp: weak_ring_step_def)

lemma weak_ring_inv_step:
  assumes "weak_ring_inv cap s" and "weak_ring_step cap s t"
  shows "weak_ring_inv cap t"
proof -
  have "ring_inv cap (newest_ring t)"
    using ring_inv_step [OF _ weak_ring_refines [OF assms]] assms(1) by (simp add: weak_ring_inv_def)
  moreover have "index_inv cap t" "stores_inv cap t" "reads_inv cap t"
    using assms(2) index_inv_push [OF assms(1)] index_inv_pop [OF assms(1)] stores_inv_push [OF assms(1)]
      stores_inv_pop [OF assms(1)] reads_inv_push [OF assms(1)] reads_inv_pop [OF assms(1)]
    by (auto simp: weak_ring_step_def)
  ultimately show ?thesis by (simp add: weak_ring_inv_def)
qed

interpretation weak_ring_machine: step_machine "\<lambda>s. valid_capacity cap \<and> s = weak_ring_start cap d" "weak_ring_step cap"
  "weak_ring_inv cap" for cap d
  by unfold_locales (auto intro: weak_ring_inv_start weak_ring_inv_step)

lemma weak_ring_reachable:
  assumes "valid_capacity cap" and "(weak_ring_step cap)\<^sup>*\<^sup>* (weak_ring_start cap d) s"
  shows "weak_ring_inv cap s" and "(ring_step cap)\<^sup>*\<^sup>* (ring_start cap d) (newest_ring s)"
proof -
  have inv: "weak_ring_inv cap u" if "(weak_ring_step cap)\<^sup>*\<^sup>* (weak_ring_start cap d) u" for u
    using weak_ring_machine.inv_reachable [OF _ that, of d] assms(1) by simp
  from assms(2) show "weak_ring_inv cap s" by (rule inv)
  from assms(2) show "(ring_step cap)\<^sup>*\<^sup>* (ring_start cap d) (newest_ring s)"
  proof induction
    case base
    show ?case by (simp add: newest_ring_start)
  next
    case (step s t)
    show ?case
      by (rule rtranclp.rtrancl_into_rtrancl [OF step.IH weak_ring_refines [OF inv [OF step.hyps(1)] step.hyps(2)]])
  qed
qed

section \<open>A run\<close>

text \<open>A ring of two slots: 7 is pushed and popped.\<close>

lemma weak_ring_demo:
  "\<exists>s. (weak_ring_step 2)\<^sup>*\<^sup>* (weak_ring_start 2 (0 :: int)) s \<and> wr_pushed s = [7] \<and> wr_popped s = [7]"
proof -
  define z where "z = (\<lambda>_ :: ring_loc. 0 :: nat)"
  define s0 where "s0 = weak_ring_start 2 (0 :: int)"
  define s1 where "s1 = s0\<lparr>wr_p := PHave 7 0, wr_pv := load_relaxed WriteIdx 0 z (wr_pv s0)\<rparr>"
  define s2 where "s2 = s1\<lparr>wr_p := PWrite 7 0 ((0 + 1) AND kMask 2), wr_pv := load_acquire ReadIdx 0 z (wr_pv s1)\<rparr>"
  define s3 where "s3 = s2\<lparr>wr_slots := (wr_slots s2)[0 := wr_slots s2 ! 0 @ [7]], wr_p := PStore 7 1,
      wr_pv := (wr_pv s2)\<lparr>tv_cur := bump (SlotStores 0) (length (wr_slots s2 ! 0)) (tv_cur (wr_pv s2))\<rparr>\<rparr>"
  define m4 where "m4 = bump WriteIdx 1 (tv_cur (wr_pv s3))"
  define s4 where "s4 = s3\<lparr>wr_write := wr_write s3 @ [(1, m4)], wr_p := PIdle, wr_pv := (wr_pv s3)\<lparr>tv_cur := m4\<rparr>,
      wr_pushed := wr_pushed s3 @ [7]\<rparr>"
  define s5 where "s5 = s4\<lparr>wr_c := CHave 0, wr_cv := load_relaxed ReadIdx 0 z (wr_cv s4)\<rparr>"
  define s6 where "s6 = s5\<lparr>wr_c := CRead 0, wr_cv := load_acquire WriteIdx 1 m4 (wr_cv s5)\<rparr>"
  define s7 where "s7 = s6\<lparr>wr_c := CStore (wr_slots s6 ! 0 ! 1) 0, wr_reads := (wr_reads s6)(0 := Suc (wr_reads s6 0)),
      wr_cv := (wr_cv s6)\<lparr>tv_cur := bump (SlotReads 0) (Suc (wr_reads s6 0)) (bump (SlotStores 0) 1 (tv_cur (wr_cv s6)))\<rparr>\<rparr>"
  define m8 where "m8 = bump ReadIdx 1 (tv_cur (wr_cv s7))"
  define s8 where "s8 = s7\<lparr>wr_read := wr_read s7 @ [((0 + 1) AND kMask 2, m8)], wr_c := CIdle, wr_cv := (wr_cv s7)\<lparr>tv_cur := m8\<rparr>,
      wr_popped := wr_popped s7 @ [7]\<rparr>"
  note d0 = s0_def weak_ring_start_def thread_start_def z_def
  have "replicate 2 [0 :: int] = [[0], [0]]" by (simp add: numeral_2_eq_2)
  then have two: "wr_slots s2 = [[0], [0]]" by (simp add: s2_def s1_def d0)
  have f4: "wr_write s4 = [(0, z), (1, m4)]" "wr_read s4 = [(0, z)]" "wr_slots s4 = [[0, 7], [0]]" "wr_c s4 = CIdle"
    "wr_cv s4 = thread_start" "wr_reads s4 0 = 0" "wr_pushed s4 = [7]" "wr_popped s4 = []"
    by (simp_all add: s4_def s3_def two) (simp_all add: s2_def s1_def d0)
  have m: "m4 (SlotStores 0) = 1" "m4 WriteIdx = 1" "m4 ReadIdx = 0"
    by (simp_all add: m4_def s3_def two) (simp_all add: s2_def s1_def d0 load_acquire_def load_relaxed_def sup_max)
  have "weak_push_step 2 s0 s1" unfolding s1_def by (rule wp_load_own) (simp_all add: d0 readable_def)
  moreover have "weak_push_step 2 s1 s2" unfolding s2_def
    by (rule wp_room [where rd = 0]) (simp_all add: s1_def d0 readable_def load_relaxed_def kMask_def)
  moreover have "weak_push_step 2 s2 s3" unfolding s3_def by (rule wp_slot [where w = 0]) (simp_all add: s2_def kMask_def)
  moreover have "length (wr_write s3) = 1" by (simp add: s3_def s2_def s1_def d0)
  then have "weak_push_step 2 s3 s4" unfolding s4_def
    by (intro wp_release) (simp_all add: m4_def store_release_def s3_def)
  moreover have "weak_pop_step 2 s4 s5" unfolding s5_def
    by (rule wc_load_own) (simp_all add: f4 readable_def thread_start_def)
  moreover have "weak_pop_step 2 s5 s6" unfolding s6_def
    by (rule wc_data [where w = 1]) (simp_all add: s5_def f4 readable_def thread_start_def load_relaxed_def)
  moreover have v6: "tv_cur (wr_cv s6) (SlotStores 0) = 1" "wr_slots s6 = [[0, 7], [0]]" "length (wr_read s6) = 1"
    by (simp_all add: s6_def s5_def f4 thread_start_def load_relaxed_def load_acquire_def m sup_max)
  then have "weak_pop_step 2 s6 s7" unfolding s7_def
    by (intro wc_slot [where i = 0]) (simp_all add: s6_def)
  moreover have "weak_pop_step 2 s7 s8" unfolding s8_def
    by (rule wc_release) (simp_all add: v6 m8_def store_release_def s7_def)
  ultimately have "step_path (weak_ring_step 2) s0 [s1, s2, s3, s4, s5, s6, s7, s8]"
    by (simp add: weak_ring_step_def)
  then have "(weak_ring_step 2)\<^sup>*\<^sup>* (weak_ring_start 2 (0 :: int)) s8" using step_path_run s0_def by fastforce
  moreover have "wr_pushed s8 = [7]" "wr_popped s8 = [7]"
    by (simp_all add: s8_def s7_def s6_def s5_def f4)
  ultimately show ?thesis by blast
qed

section \<open>Properties\<close>

text \<open>
  (C8) The two indexes are enough. Under the memory orders of the source, for every capacity the
  static assertions allow and whatever old index values the acquire loads return:
  each state is one of the interleaving machine, so what has been popped is a prefix
  of what has been pushed; when the producer is about to store into a slot, every earlier
  store and every read of that slot is ordered before it; when the consumer is about
  to read a slot, the only store it can see is the newest, and that is the next
  record. So no two accesses of a slot race.
\<close>

theorem ring_weak_fifo:
  assumes "valid_capacity cap" and "(weak_ring_step cap)\<^sup>*\<^sup>* (weak_ring_start cap d) s"
  shows "(ring_step cap)\<^sup>*\<^sup>* (ring_start cap d) (newest_ring s) \<and>
    take (length (wr_popped s)) (wr_pushed s) = wr_popped s \<and>
    (\<forall>v w nxt. wr_p s = PWrite v w nxt \<longrightarrow> length (wr_slots s ! unat w) \<le> Suc (tv_cur (wr_pv s) (SlotStores (unat w))) \<and>
       wr_reads s (unat w) \<le> tv_cur (wr_pv s) (SlotReads (unat w))) \<and>
    (\<forall>rd t. wr_c s = CRead rd \<and> tv_cur (wr_cv s) (SlotStores (unat rd)) \<le> t \<and> t < length (wr_slots s ! unat rd) \<longrightarrow>
       Suc t = length (wr_slots s ! unat rd) \<and> wr_slots s ! unat rd ! t = wr_pushed s ! length (wr_popped s))"
proof -
  have inv: "weak_ring_inv cap s" using assms by (rule weak_ring_reachable)
  have mem: "ring_mem_inv cap (newest_ring s)" using inv by (simp add: weak_ring_inv_def ring_inv_def)
  have "length (wr_slots s ! unat w) \<le> Suc (tv_cur (wr_pv s) (SlotStores (unat w))) \<and>
      wr_reads s (unat w) \<le> tv_cur (wr_pv s) (SlotReads (unat w))" if "wr_p s = PWrite v w nxt" for v w nxt
    using producer_slot(2,4) [OF inv that] inv by (simp add: weak_ring_inv_def stores_inv_def)
  moreover have "Suc t = length (wr_slots s ! unat rd) \<and> wr_slots s ! unat rd ! t = wr_pushed s ! length (wr_popped s)"
    if rd: "wr_c s = CRead rd" and t: "tv_cur (wr_cv s) (SlotStores (unat rd)) \<le> t" "t < length (wr_slots s ! unat rd)" for rd t
  proof -
    note slot = consumer_slot [OF inv rd]
    have newest: "Suc t = length (wr_slots s ! unat rd)" using slot(4) t by simp
    have "length (wr_popped s) < length (wr_pushed s)"
      using inv rd by (auto simp: weak_ring_inv_def ring_inv_def ring_mem_inv_def newest_ring_def)
    then have "map last (wr_slots s) ! unat rd = wr_pushed s ! length (wr_popped s)"
      using mem slot(1) by (simp add: ring_mem_inv_def newest_ring_def del: nth_map)
    then have "last (wr_slots s ! unat rd) = wr_pushed s ! length (wr_popped s)" using slot(3) by simp
    moreover have "wr_slots s ! unat rd \<noteq> []" "t = length (wr_slots s ! unat rd) - 1" using newest by auto
    ultimately show ?thesis using newest by (simp add: last_conv_nth)
  qed
  ultimately show ?thesis
    using weak_ring_reachable(2) [OF assms] mem by (auto simp: ring_mem_inv_def newest_ring_def)
qed

theorem ring_weak_fifo_witness:
  "\<exists>s. (weak_ring_step 2)\<^sup>*\<^sup>* (weak_ring_start 2 (0 :: int)) s \<and> wr_popped s = [7] \<and>
     take (length (wr_popped s)) (wr_pushed s) = wr_popped s \<and> (ring_step 2)\<^sup>*\<^sup>* (ring_start 2 0) (newest_ring s)"
proof -
  have "valid_capacity 2" by (simp add: valid_capacity_def)
  moreover obtain s where s: "(weak_ring_step 2)\<^sup>*\<^sup>* (weak_ring_start 2 (0 :: int)) s" "wr_popped s = [7]"
    using weak_ring_demo by blast
  ultimately show ?thesis using ring_weak_fifo [OF _ s(1)] by blast
qed

end
