(* ===== verification/Telemetry.thy ===== *)
theory Telemetry
  imports Layout Decimal
begin

text \<open>
  \<^verbatim>\<open>src/telemetry.cpp\<close>: the observer's snapshot of the region and its JSON text. A
  \<open>printf\<close> call is the list of its literal pieces and converted arguments; \<open>put\<close>
  appends its text to what is before the write pointer if it fits the buffer.
\<close>

section \<open>The snapshot\<close>

record SourcePoint =
  pt_id :: u32
  pt_x :: i32
  pt_y :: i32
  pt_publishes :: u32
  pt_sequence :: u32

definition kMaxPoints :: nat where "kMaxPoints = 16"

text \<open>\<open>ts_sources\<close> holds the first \<open>source_count\<close> points of the array.\<close>

record TelemetrySnapshot =
  ts_ts_ns :: u64
  ts_generation :: u32
  ts_shutdown :: u32
  ts_fault :: u32
  ts_idle :: u32
  ts_ring_occupied :: u32
  ts_ring_capacity :: u32
  ts_overrun_fast :: u32
  ts_overrun_window :: u32
  ts_overrun_snapshot :: u32
  ts_ingest_done :: u32
  ts_fast_done :: u32
  ts_window_done :: u32
  ts_snapshot_done :: u32
  ts_compute_done :: u32
  ts_hb_ingest :: u64
  ts_hb_compute :: u64
  ts_hb_publish :: u64
  ts_hb_fast :: u64
  ts_hb_window :: u64
  ts_hb_snapshot :: u64
  ts_ingest_pid :: u32
  ts_compute_pid :: u32
  ts_publish_pid :: u32
  ts_observe_pid :: u32
  ts_ingest_exit :: u32
  ts_compute_exit :: u32
  ts_publish_exit :: u32
  ts_sources :: "SourcePoint list"

definition point_of :: "nat \<Rightarrow> WindowState \<Rightarrow> SourcePoint" where
  "point_of sid row = \<lparr>pt_id = of_nat sid, pt_x = w_pos_x row, pt_y = w_pos_y row,
     pt_publishes = w_publishes row, pt_sequence = w_sequence row\<rparr>"

text \<open>
  The other processes go on while the snapshot is taken: \<open>view k\<close> is the region at the \<open>k\<close>-th load,
  in the order of the source, and \<open>view (26 + sid)\<close> the region when the row of source
  \<open>sid\<close> is loaded; \<open>busy sid\<close> says that this load failed.
\<close>

fun collect_points :: "(nat \<Rightarrow> bool) \<Rightarrow> (nat \<Rightarrow> Layout) \<Rightarrow> nat list \<Rightarrow> SourcePoint list \<Rightarrow> SourcePoint list" where
  "collect_points busy view [] points = points"
| "collect_points busy view (sid # ids) points =
     (case (if busy sid then (False, WindowState_default) else window_load sid (view (26 + sid)) WindowState_default) of
        (ok, row) \<Rightarrow>
          if \<not> ok \<or> w_publishes row = 0 then collect_points busy view ids points
          else if length points \<ge> kMaxPoints then points
          else collect_points busy view ids (points @ [point_of sid row]))"

text \<open>\<open>ring.occupied()\<close> is two loads, the write index first.\<close>

definition collect_telemetry :: "(nat \<Rightarrow> bool) \<Rightarrow> (nat \<Rightarrow> Layout) \<Rightarrow> u64 \<Rightarrow> TelemetrySnapshot" where
  "collect_telemetry busy view now_ns =
     (let c = (\<lambda>k. l_control (view k)); s = (\<lambda>k. l_supervisor (view k));
          shutdown = c_shutdown (c 1); ingest_done = c_ingest_done (c 8); compute_done = c_compute_done (c 12)
      in
      \<lparr>ts_ts_ns = now_ns, ts_generation = c_generation (c 0), ts_shutdown = shutdown, ts_fault = c_fault (c 2),
       ts_idle = (if shutdown \<noteq> 0 \<and> ingest_done \<noteq> 0 \<and> compute_done \<noteq> 0 then 1 else 0),
       ts_ring_occupied = (rb_write (l_ring (view 3)) - rb_read (l_ring (view 4))) AND kMask kRingCapacity,
       ts_ring_capacity = kRingCapacity - 1,
       ts_overrun_fast = c_overrun_fast (c 5), ts_overrun_window = c_overrun_window (c 6),
       ts_overrun_snapshot = c_overrun_snapshot (c 7),
       ts_ingest_done = ingest_done, ts_fast_done = c_fast_done (c 9), ts_window_done = c_window_done (c 10),
       ts_snapshot_done = c_snapshot_done (c 11), ts_compute_done = compute_done,
       ts_hb_ingest = c_heartbeat_ingest (c 13), ts_hb_compute = c_heartbeat_compute (c 14),
       ts_hb_publish = c_heartbeat_publish (c 15), ts_hb_fast = c_heartbeat_fast (c 16),
       ts_hb_window = c_heartbeat_window (c 17), ts_hb_snapshot = c_heartbeat_snapshot (c 18),
       ts_ingest_pid = sup_ingest_pid (s 19), ts_compute_pid = sup_compute_pid (s 20),
       ts_publish_pid = sup_publish_pid (s 21), ts_observe_pid = sup_observe_pid (s 22),
       ts_ingest_exit = sup_ingest_exit (s 23), ts_compute_exit = sup_compute_exit (s 24),
       ts_publish_exit = sup_publish_exit (s 25),
       ts_sources = collect_points busy view [0..<unat kMaxSources] []\<rparr>)"

section \<open>Formatting\<close>

datatype piece = Lit string | U32 u32 | U64 u64 | I32 i32

fun piece_text :: "piece \<Rightarrow> string" where
  "piece_text (Lit s) = s"
| "piece_text (U32 w) = show_u32 w"
| "piece_text (U64 w) = show_u64 w"
| "piece_text (I32 w) = show_i32 w"

definition printf_text :: "piece list \<Rightarrow> string" where
  "printf_text ps = concat (map piece_text ps)"

text \<open>
  \<open>put\<close>: \<open>done\<close> is the text before the pointer \<open>p\<close>, in a buffer of \<open>cap\<close> bytes. The
  pointer only moves when the new text and its terminator fit.
\<close>

definition put :: "nat \<Rightarrow> string \<Rightarrow> piece list \<Rightarrow> bool \<times> string" where
  "put cap done ps =
     (if length done \<ge> cap then (False, done)
      else let n = length (printf_text ps) in
        if length done + n \<ge> cap then (False, done) else (True, done @ printf_text ps))"

definition quote :: "string \<Rightarrow> string" where
  "quote s = CHR 0x22 # s @ [CHR 0x22]"

text \<open>\<open>key k\<close> is the text \<^verbatim>\<open>"k":\<close> of the format string.\<close>

definition key :: "string \<Rightarrow> string" where
  "key s = quote s @ '':''"

definition json_head :: "TelemetrySnapshot \<Rightarrow> piece list" where
  "json_head t = [
     Lit (''{'' @ key ''ts_ns''), U64 (ts_ts_ns t), Lit ('','' @ key ''generation''), U32 (ts_generation t),
     Lit ('','' @ key ''shutdown''), U32 (ts_shutdown t), Lit ('','' @ key ''fault''), U32 (ts_fault t),
     Lit ('','' @ key ''idle''), U32 (ts_idle t),
     Lit ('','' @ key ''ring'' @ ''{'' @ key ''occupied''), U32 (ts_ring_occupied t),
     Lit ('','' @ key ''capacity''), U32 (ts_ring_capacity t),
     Lit (''},'' @ key ''overrun'' @ ''{'' @ key ''fast''), U32 (ts_overrun_fast t),
     Lit ('','' @ key ''window''), U32 (ts_overrun_window t), Lit ('','' @ key ''snapshot''), U32 (ts_overrun_snapshot t),
     Lit (''},'' @ key ''done'' @ ''{'' @ key ''ingest''), U32 (ts_ingest_done t),
     Lit ('','' @ key ''fast''), U32 (ts_fast_done t), Lit ('','' @ key ''window''), U32 (ts_window_done t),
     Lit ('','' @ key ''snapshot''), U32 (ts_snapshot_done t), Lit ('','' @ key ''compute''), U32 (ts_compute_done t),
     Lit (''},'' @ key ''hb'' @ ''{'' @ key ''ingest''), U64 (ts_hb_ingest t),
     Lit ('','' @ key ''compute''), U64 (ts_hb_compute t), Lit ('','' @ key ''publish''), U64 (ts_hb_publish t),
     Lit ('','' @ key ''fast''), U64 (ts_hb_fast t), Lit ('','' @ key ''window''), U64 (ts_hb_window t),
     Lit ('','' @ key ''snapshot''), U64 (ts_hb_snapshot t),
     Lit (''},'' @ key ''pids'' @ ''{'' @ key ''ingest''), U32 (ts_ingest_pid t),
     Lit ('','' @ key ''compute''), U32 (ts_compute_pid t), Lit ('','' @ key ''publish''), U32 (ts_publish_pid t),
     Lit ('','' @ key ''observe''), U32 (ts_observe_pid t),
     Lit (''},'' @ key ''exits'' @ ''{'' @ key ''ingest''), U32 (ts_ingest_exit t),
     Lit ('','' @ key ''compute''), U32 (ts_compute_exit t), Lit ('','' @ key ''publish''), U32 (ts_publish_exit t),
     Lit (''},'' @ key ''sources'' @ ''['')]"

definition json_point :: "bool \<Rightarrow> SourcePoint \<Rightarrow> piece list" where
  "json_point first src = [
     Lit (if first then '''' else '',''),
     Lit (''{'' @ key ''id''), U32 (pt_id src), Lit ('','' @ key ''x''), I32 (pt_x src),
     Lit ('','' @ key ''y''), I32 (pt_y src), Lit ('','' @ key ''p''), U32 (pt_publishes src),
     Lit ('','' @ key ''seq''), U32 (pt_sequence src), Lit ''}'']"

fun put_points :: "nat \<Rightarrow> bool \<Rightarrow> SourcePoint list \<Rightarrow> string \<Rightarrow> bool \<times> string" where
  "put_points cap first [] done = (True, done)"
| "put_points cap first (src # srcs) done =
     (case put cap done (json_point first src) of
        (False, done) \<Rightarrow> (False, done)
      | (True, done) \<Rightarrow> put_points cap False srcs done)"

text \<open>The return value and the text in the buffer; \<open>out\<close> is false for a null pointer.\<close>

definition format_telemetry_json :: "TelemetrySnapshot \<Rightarrow> bool \<Rightarrow> nat \<Rightarrow> nat \<times> string" where
  "format_telemetry_json snap out cap =
     (if \<not> out \<or> cap < 2 then (0, [])
      else case put cap [] (json_head snap) of
        (False, done) \<Rightarrow> (0, done)
      | (True, done) \<Rightarrow>
          (case put_points cap True (ts_sources snap) done of
             (False, done) \<Rightarrow> (0, done)
           | (True, done) \<Rightarrow>
               (case put cap done [Lit '']}''] of
                  (False, done) \<Rightarrow> (0, done)
                | (True, done) \<Rightarrow> (length done, done))))"

section \<open>Lemmas\<close>

subsection \<open>Length\<close>

fun piece_bound :: "piece \<Rightarrow> nat" where
  "piece_bound (Lit s) = length s"
| "piece_bound (U32 w) = 10"
| "piece_bound (U64 w) = 20"
| "piece_bound (I32 w) = 11"

lemma piece_text_bound: "length (piece_text p) \<le> piece_bound p"
  by (cases p) (simp_all add: length_show_u32 length_show_u64 length_show_i32)

lemma printf_text_bound: "length (printf_text ps) \<le> sum_list (map piece_bound ps)"
  by (induction ps) (auto simp: printf_text_def intro: add_mono piece_text_bound)

lemma length_key [simp]: "length (key s) = length s + 3"
  by (simp add: key_def quote_def)

lemma json_head_bound: "length (printf_text (json_head t)) \<le> 753"
  using printf_text_bound [of "json_head t"] by (simp add: json_head_def)

lemma json_point_bound: "length (printf_text (json_point first src)) \<le> 84"
  using printf_text_bound [of "json_point first src"] by (simp add: json_point_def split: if_splits)

definition json_points :: "bool \<Rightarrow> SourcePoint list \<Rightarrow> piece list list" where
  "json_points first srcs = (case srcs of [] \<Rightarrow> [] | src # rest \<Rightarrow> json_point first src # map (json_point False) rest)"

definition json_text :: "TelemetrySnapshot \<Rightarrow> string" where
  "json_text t = printf_text (json_head t @ concat (json_points True (ts_sources t)) @ [Lit '']}''])"

lemma printf_text_simps [simp]:
  "printf_text [] = []" "printf_text (p # ps) = piece_text p @ printf_text ps"
  "printf_text (ps @ qs) = printf_text ps @ printf_text qs"
  by (simp_all add: printf_text_def)

lemma put_eq:
  "length done < cap \<Longrightarrow>
     put cap done ps =
       (if length done + length (printf_text ps) < cap then (True, done @ printf_text ps) else (False, done))"
  by (simp add: put_def)

lemma put_points_eq:
  assumes "length done < cap"
  shows "if length done + length (printf_text (concat (json_points first srcs))) < cap
    then put_points cap first srcs done = (True, done @ printf_text (concat (json_points first srcs)))
    else \<not> fst (put_points cap first srcs done)"
  using assms
proof (induction srcs arbitrary: first "done")
  case Nil
  then show ?case by (simp add: json_points_def)
next
  case (Cons src srcs)
  let ?new = "done @ printf_text (json_point first src)"
  have rest: "json_points first (src # srcs) = json_point first src # json_points False srcs"
    by (cases srcs) (simp_all add: json_points_def)
  show ?case
  proof (cases "length ?new < cap")
    case True
    with Cons.IH [of ?new False] Cons.prems show ?thesis by (simp add: put_eq rest)
  next
    case False
    with Cons.prems show ?thesis by (simp add: put_eq rest)
  qed
qed

lemma json_points_bound: "length (printf_text (concat (json_points first srcs))) \<le> 84 * length srcs"
proof (induction srcs arbitrary: first)
  case (Cons src srcs)
  have "json_points first (src # srcs) = json_point first src # json_points False srcs"
    by (cases srcs) (simp_all add: json_points_def)
  with Cons [of False] json_point_bound [of first src] show ?case by simp
qed (simp add: json_points_def)

lemma collect_points_bound: "length points \<le> 16 \<Longrightarrow> length (collect_points busy view ids points) \<le> 16"
  by (induction ids arbitrary: points) (auto simp: kMaxPoints_def split: prod.splits)

lemma json_text_bound: "length (ts_sources t) \<le> 16 \<Longrightarrow> length (json_text t) < 4096"
  using json_head_bound [of t] json_points_bound [of True "ts_sources t"] by (simp add: json_text_def)

lemma format_eq:
  assumes "2 \<le> cap"
  shows "if length (json_text t) < cap
    then format_telemetry_json t True cap = (length (json_text t), json_text t)
    else fst (format_telemetry_json t True cap) = 0"
proof -
  let ?head = "printf_text (json_head t)"
  note points = put_points_eq [of ?head cap True "ts_sources t"]
  show ?thesis
  proof (cases "length ?head < cap")
    case False
    with assms show ?thesis by (simp add: format_telemetry_json_def put_eq json_text_def)
  next
    case head: True
    let ?done = "?head @ printf_text (concat (json_points True (ts_sources t)))"
    show ?thesis
    proof (cases "length ?done < cap")
      case False
      with points head obtain d where "put_points cap True (ts_sources t) ?head = (False, d)"
        by (cases "put_points cap True (ts_sources t) ?head") auto
      with assms head False show ?thesis by (simp add: format_telemetry_json_def put_eq json_text_def)
    next
      case True
      with points head have "put_points cap True (ts_sources t) ?head = (True, ?done)" by simp
      with assms head True show ?thesis by (simp add: format_telemetry_json_def put_eq json_text_def)
    qed
  qed
qed

subsection \<open>Reading the numbers back\<close>

lemma read_nat_shorter: "read_nat s = Some (n, rest) \<Longrightarrow> length rest < length s"
proof -
  assume "read_nat s = Some (n, rest)"
  then have "takeWhile is_digit s \<noteq> []" and "rest = dropWhile is_digit s"
    by (auto simp: read_nat_def Let_def split: if_splits)
  moreover have "length s = length (takeWhile is_digit s) + length (dropWhile is_digit s)"
    by (metis length_append takeWhile_dropWhile_id)
  ultimately show ?thesis by simp
qed

lemma read_int_shorter: "read_int s = Some (z, rest) \<Longrightarrow> length rest < length s"
  by (cases s) (auto split: if_splits dest!: read_nat_shorter)

function numbers :: "string \<Rightarrow> int list" where
  "numbers s =
     (case s of
        [] \<Rightarrow> []
      | c # rest \<Rightarrow>
          if is_digit c \<or> c = CHR ''-'' then
            (case read_int s of None \<Rightarrow> numbers rest | Some (z, rest') \<Rightarrow> z # numbers rest')
          else numbers rest)"
  by pat_completeness auto
termination by (relation "measure length") (auto simp del: read_int.simps dest: read_int_shorter)

declare numbers.simps [simp del]

definition plain :: "string \<Rightarrow> bool" where
  "plain s \<longleftrightarrow> list_all (\<lambda>c. \<not> is_digit c \<and> c \<noteq> CHR ''-'') s"

lemma numbers_plain: "plain s \<Longrightarrow> numbers (s @ rest) = numbers rest"
  by (induction s) (simp_all add: plain_def numbers.simps [of "_ # _"])

lemma show_int_hd: "\<exists>c s. show_int z = c # s \<and> (is_digit c \<or> c = CHR ''-'')"
  using show_nat_hd [of "nat z"] show_nat_nonempty [of "nat z"]
  by (cases "show_nat (nat z)") (auto simp: show_int_def)

lemma numbers_show_int:
  assumes "rest = [] \<or> \<not> is_digit (hd rest)"
  shows "numbers (show_int z @ rest) = z # numbers rest"
proof -
  obtain c s where cs: "show_int z = c # s" "is_digit c \<or> c = CHR ''-''" using show_int_hd by blast
  with read_show_int [OF assms, of z] show ?thesis by (subst numbers.simps) simp
qed

fun piece_values :: "piece \<Rightarrow> int list" where
  "piece_values (Lit s) = []"
| "piece_values (U32 w) = [uint w]"
| "piece_values (U64 w) = [uint w]"
| "piece_values (I32 w) = [sint w]"

text \<open>Literals without digits, and one after every number.\<close>

fun separated :: "piece list \<Rightarrow> bool" where
  "separated [] \<longleftrightarrow> True"
| "separated (Lit s # ps) \<longleftrightarrow> plain s \<and> separated ps"
| "separated (p # Lit s # ps) \<longleftrightarrow> s \<noteq> [] \<and> plain s \<and> separated ps"
| "separated (p # ps) \<longleftrightarrow> False"

lemma show_int_uint: "show_int (uint (w :: 'a :: len word)) = show_nat (unat w)"
proof -
  have "\<not> uint w < 0" using uint_ge_0 [of w] by linarith
  then show ?thesis by (simp add: show_int_def)
qed

lemma piece_text_int: "piece_values p = [z] \<Longrightarrow> piece_text p = show_int z"
  by (cases p) (auto simp: show_u32_def show_u64_def show_i32_def show_int_uint)

lemma numbers_number_lit:
  assumes "piece_values p = [z]" and "s \<noteq> []" and "plain s"
  shows "numbers (piece_text p @ s @ rest) = z # numbers rest"
proof -
  have "\<not> is_digit (hd s)" using assms(2,3) by (cases s) (simp_all add: plain_def)
  with assms(2) have "s @ rest = [] \<or> \<not> is_digit (hd (s @ rest))" by simp
  from numbers_show_int [OF this, of z] piece_text_int [OF assms(1)] numbers_plain [OF assms(3)] show ?thesis by simp
qed

lemma numbers_printf: "separated ps \<Longrightarrow> numbers (printf_text ps) = concat (map piece_values ps)"
  by (induction ps rule: separated.induct)
    (simp_all add: numbers.simps [of "[]"] numbers_plain numbers_number_lit del: piece_text.simps(2,3,4))

lemma separated_append:
  "separated ps \<Longrightarrow> separated qs \<Longrightarrow> separated (ps @ qs)"
  by (induction ps rule: separated.induct) auto

lemma plain_simps [simp]: "plain []" "plain (s @ t) = (plain s \<and> plain t)"
  "plain (c # s) = (\<not> is_digit c \<and> c \<noteq> CHR ''-'' \<and> plain s)"
  by (auto simp: plain_def)

lemma plain_key: "plain (key s) = plain s"
  by (simp add: key_def quote_def is_digit_def)

lemma separated_head: "separated (json_head t)"
  by (simp add: json_head_def plain_key is_digit_def)

lemma separated_point: "separated (json_point first src)"
  by (simp add: json_point_def plain_key is_digit_def)

lemma separated_concat: "list_all separated pss \<Longrightarrow> separated (concat pss)"
  by (induction pss) (simp_all add: separated_append)

lemma separated_json:
  "separated (json_head t @ concat (json_points True (ts_sources t)) @ [Lit '']}''])"
proof -
  have "list_all separated (json_points True (ts_sources t))"
    by (auto simp: json_points_def separated_point list_all_iff split: list.splits)
  then show ?thesis
    by (intro separated_append separated_head separated_concat) (simp_all add: is_digit_def)
qed

definition point_values :: "SourcePoint \<Rightarrow> int list" where
  "point_values p = [uint (pt_id p), sint (pt_x p), sint (pt_y p), uint (pt_publishes p), uint (pt_sequence p)]"

definition head_values :: "TelemetrySnapshot \<Rightarrow> int list" where
  "head_values t = [uint (ts_ts_ns t), uint (ts_generation t), uint (ts_shutdown t), uint (ts_fault t), uint (ts_idle t),
     uint (ts_ring_occupied t), uint (ts_ring_capacity t),
     uint (ts_overrun_fast t), uint (ts_overrun_window t), uint (ts_overrun_snapshot t),
     uint (ts_ingest_done t), uint (ts_fast_done t), uint (ts_window_done t), uint (ts_snapshot_done t), uint (ts_compute_done t),
     uint (ts_hb_ingest t), uint (ts_hb_compute t), uint (ts_hb_publish t),
     uint (ts_hb_fast t), uint (ts_hb_window t), uint (ts_hb_snapshot t),
     uint (ts_ingest_pid t), uint (ts_compute_pid t), uint (ts_publish_pid t), uint (ts_observe_pid t),
     uint (ts_ingest_exit t), uint (ts_compute_exit t), uint (ts_publish_exit t)]"

lemma json_point_values: "concat (map piece_values (json_point first src)) = point_values src"
  by (simp add: json_point_def point_values_def)

lemma json_points_values:
  "concat (map piece_values (concat (json_points first srcs))) = concat (map point_values srcs)"
proof (cases srcs)
  case (Cons src rest)
  have "concat (map piece_values (concat (map (json_point False) rest))) = concat (map point_values rest)"
    by (induction rest) (simp_all add: json_point_values)
  with Cons show ?thesis by (simp add: json_points_def json_point_values)
qed (simp add: json_points_def)

text \<open>The points are the published rows whose load succeeded, cut off after sixteen.\<close>

definition shown_points :: "(nat \<Rightarrow> bool) \<Rightarrow> (nat \<Rightarrow> Layout) \<Rightarrow> nat list \<Rightarrow> SourcePoint list" where
  "shown_points busy view ids = map (\<lambda>sid. point_of sid (window_value (view (26 + sid)) sid))
     (filter (\<lambda>sid. \<not> busy sid \<and> w_publishes (window_value (view (26 + sid)) sid) \<noteq> 0) ids)"

lemma collect_points_eq:
  assumes "\<And>sid. sid \<in> set ids \<Longrightarrow> sid < 64 \<and> window_wf (l_window (view (26 + sid)))" and "length points \<le> 16"
  shows "collect_points busy view ids points = take 16 (points @ shown_points busy view ids)"
  using assms
proof (induction ids arbitrary: points)
  case (Cons sid ids)
  then have "window_load sid (view (26 + sid)) WindowState_default = (True, window_value (view (26 + sid)) sid)"
    by (simp add: window_load_wf)
  with Cons show ?case by (auto simp: shown_points_def kMaxPoints_def take_Cons')
qed (simp add: shown_points_def)

text \<open>The observer's 4096-byte buffer is always large enough, whatever the region holds.\<close>

lemma format_fits:
  "format_telemetry_json (collect_telemetry busy view now) True 4096 =
     (length (json_text (collect_telemetry busy view now)), json_text (collect_telemetry busy view now)) \<and>
   0 < length (json_text (collect_telemetry busy view now)) \<and> length (json_text (collect_telemetry busy view now)) < 4096"
proof -
  have "length (ts_sources (collect_telemetry busy view now)) \<le> 16"
    by (simp add: collect_telemetry_def Let_def collect_points_bound)
  then have "length (json_text (collect_telemetry busy view now)) < 4096" by (rule json_text_bound)
  moreover have "0 < length (json_text t)" for t by (simp add: json_text_def)
  ultimately show ?thesis
    using format_eq [of 4096 "collect_telemetry busy view now"] by simp
qed

section \<open>Properties\<close>

text \<open>
  The formatter reports exactly: with a buffer of at least two bytes it returns the
  length of the JSON text, and the buffer holds that text, when the text and
  its terminator fit, and 0 otherwise.
\<close>

theorem telemetry_format_exact:
  "if 2 \<le> cap \<and> length (json_text t) < cap
   then format_telemetry_json t True cap = (length (json_text t), json_text t)
   else fst (format_telemetry_json t True cap) = 0"
proof (cases "2 \<le> cap")
  case True
  then show ?thesis using format_eq [OF True, of t] by auto
qed (simp add: format_telemetry_json_def)

text \<open>
  The JSON text can be read back: the numbers in it, in order, are all the fields of
  the snapshot and then identity, position, count and sequence of each point.
\<close>

theorem telemetry_numbers_roundtrip:
  "numbers (json_text t) = head_values t @ concat (map point_values (ts_sources t))"
proof -
  have "concat (map piece_values (json_head t)) = head_values t"
    by (simp add: json_head_def head_values_def)
  then show ?thesis
    by (simp add: json_text_def numbers_printf [OF separated_json, simplified] json_points_values)
qed

end
