(* ===== verification/Http_Sse.thy ===== *)
theory Http_Sse
  imports Decimal "HOL-Library.Sublist"
begin

text \<open>
  \<^verbatim>\<open>src/http_sse.cpp\<close>: the observer's HTTP server. Sockets, files and \<open>errno\<close> belong to
  the kernel: what its calls return is an argument (a list of replies for a
  loop, a record for a whole request), and a function returns the calls it made
  on descriptors. Texts are character lists; a C string is its characters
  before the terminator.
\<close>

section \<open>Descriptors\<close>

datatype http_call = HttpSocket int | HttpAccept int | HttpOpen int | HttpSend int string | HttpClose int

definition close_fd :: "int \<Rightarrow> int \<times> http_call list" where
  "close_fd fd = (if fd \<ge> 0 then (-1, [HttpClose fd]) else (fd, []))"

section \<open>Sending and receiving\<close>

text \<open>
  One turn of a transfer loop: the poll failed or reported an error; the
  transfer moved some bytes (0 for a closed peer); it has to be retried
  (\<open>EAGAIN\<close>, \<open>EWOULDBLOCK\<close>, \<open>EINTR\<close>); or it failed.
\<close>

datatype send_reply = SendPollError | Sent nat | SendRetry | SendError

text \<open>
  \<open>send_all\<close>: the return value and the bytes handed to the kernel, \<open>None\<close> while the
  replies do not end the loop. The kernel never reports more than it was given.
\<close>

fun send_all :: "send_reply list \<Rightarrow> string \<Rightarrow> (bool \<times> string) option" where
  "send_all replies [] = Some (True, [])"
| "send_all [] data = None"
| "send_all (reply # replies) data =
     (case reply of
        SendPollError \<Rightarrow> Some (False, [])
      | SendRetry \<Rightarrow> send_all replies data
      | SendError \<Rightarrow> Some (False, [])
      | Sent n \<Rightarrow>
          if n = 0 then Some (False, [])
          else map_option (\<lambda>(ok, sent). (ok, take n data @ sent)) (send_all replies (drop n data)))"

definition crlf :: string where "crlf = [CHR 0x0D, CHR 0x0A]"

text \<open>Does \<open>strstr\<close> find the needle? The haystack ends at its first null character.\<close>

definition c_string :: "string \<Rightarrow> string" where
  "c_string buf = takeWhile (\<lambda>c. c \<noteq> CHR 0x00) buf"

fun contains :: "string \<Rightarrow> string \<Rightarrow> bool" where
  "contains needle [] \<longleftrightarrow> needle = []"
| "contains needle (c # s) \<longleftrightarrow> take (length needle) (c # s) = needle \<or> contains needle s"

datatype recv_reply = RecvPollError | Received string | RecvRetry | RecvError

text \<open>
  \<open>read_request\<close> with a buffer of \<open>cap\<close> bytes; \<open>got\<close> is what has been read. \<open>Some None\<close>
  is the return value false, \<open>Some (Some buf)\<close> true with the buffer's content.
\<close>

fun read_request :: "nat \<Rightarrow> string \<Rightarrow> recv_reply list \<Rightarrow> string option option" where
  "read_request cap got [] = (if length got + 1 < cap then None else Some None)"
| "read_request cap got (reply # replies) =
     (if \<not> length got + 1 < cap then Some None
      else case reply of
        RecvPollError \<Rightarrow> Some None
      | RecvRetry \<Rightarrow> read_request cap got replies
      | RecvError \<Rightarrow> Some None
      | Received bytes \<Rightarrow>
          if bytes = [] then Some None
          else let got = got @ take (cap - 1 - length got) bytes in
            if contains (crlf @ crlf) (c_string got) then Some (Some got)
            else read_request cap got replies)"

text \<open>\<open>recv\<close> on a held client: 0, data, nothing yet, or an error.\<close>

datatype peek_reply = PeekClosed | PeekData | PeekNothing | PeekError

definition drop_if_closed :: "int \<Rightarrow> peek_reply \<Rightarrow> int \<times> http_call list" where
  "drop_if_closed fd reply =
     (if fd < 0 then (fd, [])
      else if reply = PeekClosed \<or> reply = PeekError then close_fd fd else (fd, []))"

section \<open>Requests\<close>

text \<open>
  \<open>request_path\<close>: the path, if any, and the C string left in the buffer: the two
  blanks become terminators, so what is left is the method.
\<close>

definition request_path :: "string \<Rightarrow> string option \<times> string" where
  "request_path buf =
     (if CHR '' '' \<notin> set buf then (None, buf)
      else
        let meth = takeWhile (\<lambda>c. c \<noteq> CHR '' '') buf;
            rest = drop (length meth + 1) buf
        in if CHR '' '' \<notin> set rest then (None, meth)
           else if meth \<noteq> ''GET'' \<and> meth \<noteq> ''POST'' then (None, meth)
           else (Some (takeWhile (\<lambda>c. c \<noteq> CHR '' '') rest), meth))"

definition is_post :: "string \<Rightarrow> bool" where
  "is_post buf \<longleftrightarrow> take 4 buf = ''POST''"

section \<open>Responses\<close>

definition not_found_text :: string where
  "not_found_text = ''HTTP/1.1 404 Not Found'' @ crlf @ ''Content-Length: 0'' @ crlf @ ''Connection: close'' @ crlf @ crlf"

definition reset_body :: string where
  "reset_body = ''{'' @ [CHR 0x22] @ ''ok'' @ [CHR 0x22] @ '':1}''"

definition reset_ok_text :: string where
  "reset_ok_text = ''HTTP/1.1 200 OK'' @ crlf @ ''Content-Type: application/json'' @ crlf @ ''Content-Length: 8'' @ crlf @
     ''Cache-Control: no-cache'' @ crlf @ ''Connection: close'' @ crlf @ crlf @ reset_body"

definition sse_headers_text :: string where
  "sse_headers_text = ''HTTP/1.1 200 OK'' @ crlf @ ''Content-Type: text/event-stream'' @ crlf @
     ''Cache-Control: no-cache'' @ crlf @ ''Connection: keep-alive'' @ crlf @
     ''Access-Control-Allow-Origin: *'' @ crlf @ crlf"

text \<open>
  \<open>send_sse_data\<close>: the line handed to \<open>send_all\<close>, \<open>None\<close> when it refuses. The
  \<^verbatim>\<open>%.*s\<close> conversion stops at a null character.
\<close>

definition sse_data_text :: "string \<Rightarrow> nat \<Rightarrow> string option" where
  "sse_data_text payload len =
     (if len \<ge> 8000 then None
      else Some (''data: '' @ take len (c_string payload) @ [CHR 0x0A, CHR 0x0A]))"

definition dashboard_path :: "string option \<Rightarrow> string option" where
  "dashboard_path web_root =
     (let path = (case web_root of None \<Rightarrow> ''web'' | Some root \<Rightarrow> root) @ ''/dashboard.html''
      in if length path \<ge> 512 then None else Some path)"

definition dashboard_header :: "nat \<Rightarrow> string" where
  "dashboard_header st_size = ''HTTP/1.1 200 OK'' @ crlf @ ''Content-Type: text/html; charset=utf-8'' @ crlf @
     ''Content-Length: '' @ show_nat st_size @ crlf @ ''Cache-Control: no-cache'' @ crlf @ ''Connection: close'' @ crlf @ crlf"

text \<open>
  The bytes \<open>send_all\<close> reads from the 128-byte header buffer: \<open>snprintf\<close> stores at
  most 127 characters and returns the untruncated length \<open>hlen\<close>, and \<open>hlen\<close> bytes
  are sent. \<open>None\<close> when that reads past the buffer.
\<close>

definition header_sent :: "nat \<Rightarrow> string option" where
  "header_sent st_size =
     (let hlen = length (dashboard_header st_size) in
      if hlen > 128 then None
      else Some (take hlen (take 127 (dashboard_header st_size) @ [CHR 0x00])))"

text \<open>
  \<open>send_dashboard\<close> on the descriptor \<open>fd\<close>: the return value and the calls. The other arguments
  are what \<open>open\<close> returns, the size from \<open>fstat\<close> (\<open>None\<close> for an error), what each
  \<open>read\<close> returns (\<open>None\<close> for an error, the last read of a file is empty), and which sends succeed.
\<close>

fun send_chunks :: "(string \<Rightarrow> bool) \<Rightarrow> int \<Rightarrow> int \<Rightarrow> string option list \<Rightarrow> bool \<times> http_call list" where
  "send_chunks send_ok fd file_fd [] = (True, [HttpClose file_fd])"
| "send_chunks send_ok fd file_fd (None # reads) = (False, [HttpClose file_fd])"
| "send_chunks send_ok fd file_fd (Some chunk # reads) =
     (if chunk = [] then (True, [HttpClose file_fd])
      else if \<not> send_ok chunk then (False, [HttpSend fd chunk, HttpClose file_fd])
      else case send_chunks send_ok fd file_fd reads of (ok, calls) \<Rightarrow> (ok, HttpSend fd chunk # calls))"

definition send_dashboard :: "(string \<Rightarrow> bool) \<Rightarrow> int \<Rightarrow> string option \<Rightarrow> int \<Rightarrow> nat option \<Rightarrow> string option list \<Rightarrow>
    (bool \<times> http_call list) option" where
  "send_dashboard send_ok fd web_root file_fd st_size reads =
     (case dashboard_path web_root of
        None \<Rightarrow> Some (False, [])
      | Some path \<Rightarrow>
          if file_fd < 0 then Some (send_ok not_found_text, [HttpSend fd not_found_text])
          else case st_size of
            None \<Rightarrow> Some (False, [HttpOpen file_fd, HttpClose file_fd])
          | Some n \<Rightarrow>
              (case header_sent n of
                 None \<Rightarrow> None
               | Some header \<Rightarrow>
                   if \<not> send_ok header then Some (False, [HttpOpen file_fd, HttpSend fd header, HttpClose file_fd])
                   else case send_chunks send_ok fd file_fd reads of (ok, calls) \<Rightarrow>
                     Some (ok, [HttpOpen file_fd, HttpSend fd header] @ calls)))"

section \<open>The server\<close>

record HttpSseServer =
  srv_listen_fd :: int
  srv_port :: u16

definition http_sse_close :: "HttpSseServer \<Rightarrow> HttpSseServer \<times> http_call list" where
  "http_sse_close srv =
     (case close_fd (srv_listen_fd srv) of (fd, calls) \<Rightarrow> (srv\<lparr>srv_listen_fd := fd, srv_port := 0\<rparr>, calls))"

text \<open>\<open>socket\<close>'s result, whether \<open>bind\<close> and \<open>listen\<close> succeed, and the port \<open>getsockname\<close> reports.\<close>

record listen_replies =
  lr_socket :: int
  lr_bind :: bool
  lr_listen :: bool
  lr_port :: "u16 option"

definition http_sse_listen :: "listen_replies \<Rightarrow> HttpSseServer \<Rightarrow> bool \<times> HttpSseServer \<times> http_call list" where
  "http_sse_listen r srv =
     (case http_sse_close srv of (srv, calls) \<Rightarrow>
        let fd = lr_socket r in
        if fd < 0 then (False, srv, calls)
        else if \<not> lr_bind r then (False, srv, calls @ [HttpSocket fd, HttpClose fd])
        else if \<not> lr_listen r then (False, srv, calls @ [HttpSocket fd, HttpClose fd])
        else case lr_port r of
          None \<Rightarrow> (False, srv, calls @ [HttpSocket fd, HttpClose fd])
        | Some port \<Rightarrow> (True, srv\<lparr>srv_listen_fd := fd, srv_port := port\<rparr>, calls @ [HttpSocket fd]))"

text \<open>\<open>accept_client\<close>: the new descriptor, or -1.\<close>

definition accept_client :: "int \<Rightarrow> int \<times> http_call list" where
  "accept_client reply = (if reply < 0 then (-1, []) else (reply, [HttpAccept reply]))"

section \<open>Routing\<close>

datatype http_route = RouteDashboard | RouteEvents | RouteReset | RouteNotFound

text \<open>The tests of \<open>http_sse_pump\<close>, in its order.\<close>

definition pump_route :: "string \<Rightarrow> http_route" where
  "pump_route req =
     (case request_path (c_string req) of (path, buf) \<Rightarrow>
        if path \<noteq> None \<and> (the path = ''/'' \<or> the path = ''/dashboard.html'') \<and> \<not> is_post buf then RouteDashboard
        else if path \<noteq> None \<and> the path = ''/events'' \<and> \<not> is_post buf then RouteEvents
        else if path \<noteq> None \<and> the path = ''/reset'' \<and> is_post buf then RouteReset
        else RouteNotFound)"

text \<open>The tests of \<open>http_sse_serve_once\<close>, in its order.\<close>

definition serve_route :: "string \<Rightarrow> http_route" where
  "serve_route req =
     (case request_path (c_string req) of (path, buf) \<Rightarrow>
        if path \<noteq> None \<and> the path = ''/events'' \<and> \<not> is_post buf then RouteEvents
        else if path \<noteq> None \<and> (the path = ''/'' \<or> the path = ''/dashboard.html'') \<and> \<not> is_post buf then RouteDashboard
        else if path \<noteq> None \<and> the path = ''/reset'' \<and> is_post buf then RouteReset
        else RouteNotFound)"

section \<open>Serving\<close>

text \<open>
  What the kernel does during one call: the result of \<open>poll\<close> and \<open>errno\<close>, the events
  on the held client and on the listening socket, the \<open>recv\<close> on the held client,
  the result of \<open>accept\<close>, of \<open>read_request\<close> and of each send, and for the dashboard file
  the result of \<open>open\<close>, its size and the reads.
\<close>

record http_world =
  hw_poll :: int
  hw_eintr :: bool
  hw_client_event :: bool
  hw_listen_event :: bool
  hw_peek :: peek_reply
  hw_accept :: int
  hw_request :: "string option"
  hw_send :: "int \<Rightarrow> string \<Rightarrow> bool"
  hw_file :: int
  hw_file_size :: "nat option"
  hw_file_reads :: "string option list"

definition serve_once_dispatch :: "http_world \<Rightarrow> string option \<Rightarrow> string \<Rightarrow> nat \<Rightarrow> int \<Rightarrow> string \<Rightarrow>
    (bool \<times> http_call list) option" where
  "serve_once_dispatch w web_root payload len client req =
     (case serve_route req of
        RouteEvents \<Rightarrow>
          if \<not> hw_send w client sse_headers_text then Some (False, [HttpSend client sse_headers_text])
          else (case sse_data_text payload len of
              None \<Rightarrow> Some (False, [HttpSend client sse_headers_text])
            | Some line \<Rightarrow> Some (hw_send w client line, [HttpSend client sse_headers_text, HttpSend client line]))
      | RouteDashboard \<Rightarrow>
          send_dashboard (hw_send w client) client web_root (hw_file w) (hw_file_size w) (hw_file_reads w)
      | RouteReset \<Rightarrow> Some (hw_send w client reset_ok_text, [HttpSend client reset_ok_text])
      | RouteNotFound \<Rightarrow> Some (False, [HttpSend client not_found_text]))"

definition http_sse_serve_once :: "http_world \<Rightarrow> HttpSseServer \<Rightarrow> string option \<Rightarrow> string \<Rightarrow> nat \<Rightarrow>
    (bool \<times> http_call list) option" where
  "http_sse_serve_once w srv web_root payload len =
     (if srv_listen_fd srv < 0 then Some (False, [])
      else case accept_client (hw_accept w) of (client, calls) \<Rightarrow>
        if client < 0 then Some (False, calls)
        else case hw_request w of
          None \<Rightarrow> Some (False, calls @ [HttpClose client])
        | Some req \<Rightarrow>
            map_option (\<lambda>(ok, sends). (ok, calls @ sends @ [HttpClose client]))
              (serve_once_dispatch w web_root payload len client req))"

text \<open>
  The accepted connection of \<open>http_sse_pump\<close>: the held client afterwards, whether
  a reset was asked for, and the calls. \<open>None\<close> where \<open>send_dashboard\<close> reads past its
  header buffer.
\<close>

definition pump_incoming :: "http_world \<Rightarrow> string option \<Rightarrow> int \<Rightarrow> int \<Rightarrow> (int \<times> bool \<times> http_call list) option" where
  "pump_incoming w web_root client_fd incoming =
     (case hw_request w of
        None \<Rightarrow> Some (client_fd, False, [HttpClose incoming])
      | Some req \<Rightarrow>
          (case pump_route req of
             RouteDashboard \<Rightarrow>
               map_option (\<lambda>(_, calls). (client_fd, False, calls @ [HttpClose incoming]))
                 (send_dashboard (hw_send w incoming) incoming web_root (hw_file w) (hw_file_size w) (hw_file_reads w))
           | RouteEvents \<Rightarrow>
               (case close_fd client_fd of (client_fd, calls) \<Rightarrow>
                  if \<not> hw_send w incoming sse_headers_text
                  then Some (client_fd, False, calls @ [HttpSend incoming sse_headers_text, HttpClose incoming])
                  else Some (incoming, False, calls @ [HttpSend incoming sse_headers_text]))
           | RouteReset \<Rightarrow> Some (client_fd, True, [HttpSend incoming reset_ok_text, HttpClose incoming])
           | RouteNotFound \<Rightarrow> Some (client_fd, False, [HttpSend incoming not_found_text, HttpClose incoming])))"

text \<open>The events on the held client and on the listening socket.\<close>

definition pump_drop :: "http_world \<Rightarrow> int \<Rightarrow> int \<times> http_call list" where
  "pump_drop w client_fd =
     (if client_fd \<ge> 0 \<and> hw_client_event w then drop_if_closed client_fd (hw_peek w) else (client_fd, []))"

definition pump_listen :: "http_world \<Rightarrow> string option \<Rightarrow> int \<Rightarrow> (int \<times> bool \<times> http_call list) option" where
  "pump_listen w web_root client_fd =
     (if hw_listen_event w then
        (case accept_client (hw_accept w) of (incoming, accepted) \<Rightarrow>
           if incoming \<ge> 0 then
             map_option (\<lambda>(fd, reset, calls). (fd, reset, accepted @ calls)) (pump_incoming w web_root client_fd incoming)
           else Some (client_fd, False, accepted))
      else Some (client_fd, False, []))"

text \<open>The event to the held client at the end; \<open>json\<close> is \<open>None\<close> for a null pointer.\<close>

definition pump_event :: "http_world \<Rightarrow> int \<Rightarrow> string option \<Rightarrow> nat \<Rightarrow> int \<times> http_call list" where
  "pump_event w client_fd json json_len =
     (if client_fd \<ge> 0 \<and> json \<noteq> None \<and> json_len > 0 then
        (case sse_data_text (the json) json_len of
           None \<Rightarrow> close_fd client_fd
         | Some line \<Rightarrow>
             if hw_send w client_fd line then (client_fd, [HttpSend client_fd line])
             else case close_fd client_fd of (fd, calls) \<Rightarrow> (fd, HttpSend client_fd line # calls))
      else (client_fd, []))"

text \<open>The return value, \<open>client_fd\<close>, whether \<open>*reset_out\<close> was set, and the calls.\<close>

definition http_sse_pump :: "http_world \<Rightarrow> HttpSseServer \<Rightarrow> int \<Rightarrow> string option \<Rightarrow> string option \<Rightarrow> nat \<Rightarrow>
    (bool \<times> int \<times> bool \<times> http_call list) option" where
  "http_sse_pump w srv client_fd web_root json json_len =
     (if srv_listen_fd srv < 0 then Some (False, client_fd, False, [])
      else if hw_poll w < 0 then Some (hw_eintr w, client_fd, False, [])
      else case pump_drop w client_fd of (client_fd, dropped) \<Rightarrow>
        (case pump_listen w web_root client_fd of
           None \<Rightarrow> None
         | Some (client_fd, reset, served) \<Rightarrow>
             (case pump_event w client_fd json json_len of (client_fd, sent) \<Rightarrow>
                Some (True, client_fd, reset, dropped @ served @ sent))))"

section \<open>The descriptors a trace leaves open\<close>

fun fds_after :: "http_call list \<Rightarrow> int set \<Rightarrow> int set option" where
  "fds_after [] open_fds = Some open_fds"
| "fds_after (HttpSocket fd # calls) open_fds = fds_after calls (insert fd open_fds)"
| "fds_after (HttpAccept fd # calls) open_fds = fds_after calls (insert fd open_fds)"
| "fds_after (HttpOpen fd # calls) open_fds = fds_after calls (insert fd open_fds)"
| "fds_after (HttpSend fd text # calls) open_fds = (if fd \<in> open_fds then fds_after calls open_fds else None)"
| "fds_after (HttpClose fd # calls) open_fds = (if fd \<in> open_fds then fds_after calls (open_fds - {fd}) else None)"

definition held :: "int \<Rightarrow> int set" where
  "held fd = (if fd \<ge> 0 then {fd} else {})"

lemma fds_after_append: "fds_after (xs @ ys) S = fds_after xs S \<bind> fds_after ys"
  by (induction xs S rule: fds_after.induct) simp_all

text \<open>The file is open from its \<open>open\<close> to the one close on each path.\<close>

lemma send_chunks_held:
  "send_chunks send_ok fd file_fd reads = (ok, calls) \<Longrightarrow> fd \<in> S \<Longrightarrow> fd \<noteq> file_fd \<Longrightarrow>
    fds_after calls (insert file_fd S) = Some (S - {file_fd})"
  by (induction send_ok fd file_fd reads arbitrary: ok calls rule: send_chunks.induct) (auto split: if_splits prod.splits)

lemma send_dashboard_held:
  assumes "send_dashboard send_ok fd root file_fd st_size reads = Some (ok, calls)" and "fd \<in> S" and "file_fd \<notin> S"
  shows "fds_after calls S = Some S"
proof -
  have "fd \<noteq> file_fd" using assms(2,3) by auto
  moreover have "S - {file_fd} = S" using assms(3) by simp
  ultimately show ?thesis
    using assms send_chunks_held [of send_ok fd file_fd reads _ _ S]
    by (auto simp: send_dashboard_def split: option.splits if_splits prod.splits)
qed

lemma close_fd_held: "close_fd fd = (fd', calls) \<Longrightarrow> held fd \<subseteq> S \<Longrightarrow>
    fds_after calls S = Some (S - held fd) \<and> held fd' = {}"
  by (auto simp: close_fd_def held_def split: if_splits)

lemma drop_if_closed_held:
  "drop_if_closed fd reply = (fd', calls) \<Longrightarrow> fds_after calls (held fd) = Some (held fd') \<and> fd' \<in> {fd, -1}"
  by (auto simp: drop_if_closed_def close_fd_def held_def split: if_splits)

lemma pump_event_held:
  "pump_event w fd json len = (fd', calls) \<Longrightarrow> fds_after calls (held fd) = Some (held fd')"
  by (auto simp: pump_event_def close_fd_def held_def split: if_splits option.splits)

lemma pump_incoming_held:
  assumes "pump_incoming w root fd incoming = Some (fd', reset, calls)" and "incoming \<ge> 0" and "incoming \<noteq> fd"
    and fresh: "hw_file w \<notin> insert incoming (held fd)"
  shows "fds_after calls (insert incoming (held fd)) = Some (held fd') \<and>
    (reset \<longleftrightarrow> (\<exists>req. hw_request w = Some req \<and> pump_route req = RouteReset))"
proof (cases "hw_request w")
  case None
  with assms show ?thesis by (auto simp: pump_incoming_def held_def)
next
  case (Some req)
  show ?thesis
  proof (cases "pump_route req")
    case RouteDashboard
    then obtain ok c where "fd' = fd" "\<not> reset" "calls = c @ [HttpClose incoming]"
      and page: "send_dashboard (hw_send w incoming) incoming root (hw_file w) (hw_file_size w) (hw_file_reads w) = Some (ok, c)"
      using assms(1) Some by (auto simp: pump_incoming_def)
    with assms(2,3) Some RouteDashboard send_dashboard_held [OF page insertI1 fresh] show ?thesis
      by (auto simp: fds_after_append held_def)
  next
    case RouteEvents
    with assms Some show ?thesis
      by (auto simp: pump_incoming_def close_fd_def held_def split: if_splits)
  qed (use assms Some in \<open>auto simp: pump_incoming_def held_def\<close>)
qed

lemma pump_listen_held:
  assumes "pump_listen w root fd = Some (fd', reset, calls)" and "hw_accept w \<ge> 0 \<Longrightarrow> hw_accept w \<noteq> fd"
    and "hw_file w \<notin> insert (hw_accept w) (held fd)"
  shows "fds_after calls (held fd) = Some (held fd') \<and>
    (reset \<longrightarrow> (\<exists>req. hw_request w = Some req \<and> pump_route req = RouteReset))"
proof (cases "hw_listen_event w \<and> hw_accept w \<ge> 0")
  case True
  with assms(1) obtain c where "pump_incoming w root fd (hw_accept w) = Some (fd', reset, c)"
    and "calls = HttpAccept (hw_accept w) # c"
    by (auto simp: pump_listen_def accept_client_def)
  with pump_incoming_held [of w root fd "hw_accept w" fd' reset c] assms(2,3) True show ?thesis by simp
next
  case False
  with assms(1) show ?thesis by (auto simp: pump_listen_def accept_client_def split: if_splits)
qed

text \<open>The kernel delivers a reset request during the call.\<close>

definition reset_asked :: "HttpSseServer \<Rightarrow> http_world \<Rightarrow> bool" where
  "reset_asked srv w \<longleftrightarrow> srv_listen_fd srv \<ge> 0 \<and> hw_poll w \<ge> 0 \<and> hw_listen_event w \<and> hw_accept w \<ge> 0 \<and>
     (case hw_request w of None \<Rightarrow> False | Some req \<Rightarrow> pump_route req = RouteReset)"

lemma pump_reset:
  assumes "http_sse_pump w srv fd root json len = Some (ok, fd', reset, calls)"
  shows "reset \<longleftrightarrow> reset_asked srv w"
  using assms
  by (auto simp: reset_asked_def http_sse_pump_def pump_listen_def pump_incoming_def accept_client_def
      split: if_splits prod.splits option.splits http_route.splits)

text \<open>When the header fits its buffer.\<close>

lemma header_sent_iff:
  "(header_sent n = Some (dashboard_header n) \<longleftrightarrow> n < 1000000) \<and> (header_sent n = None \<longleftrightarrow> 10000000 \<le> n)"
proof -
  have len: "length (dashboard_header n) = 121 + length (show_nat n)"
    by (simp add: dashboard_header_def crlf_def)
  have six: "length (show_nat n) \<le> 6 \<longleftrightarrow> n < 1000000" and seven: "length (show_nat n) \<le> 7 \<longleftrightarrow> n < 10000000"
    using length_show_nat_iff [of 6 n] length_show_nat_iff [of 7 n] by simp_all
  have "last (dashboard_header n) \<noteq> CHR 0x00" by (simp add: dashboard_header_def crlf_def)
  then have "take 127 (dashboard_header n) @ [CHR 0x00] \<noteq> dashboard_header n"
    by (metis last_snoc)
  then show ?thesis
    using six seven len by (auto simp: header_sent_def Let_def not_le)
qed

section \<open>Properties\<close>

text \<open>
  \<open>send_all\<close> is all or reported: whatever the kernel does, what it handed over is a
  prefix of the data, and it returns true exactly when that is all of it.
\<close>

theorem send_all_exact:
  "case send_all replies data of
     None \<Rightarrow> True
   | Some (ok, sent) \<Rightarrow> prefix sent data \<and> (ok \<longleftrightarrow> sent = data)"
proof (induction replies data rule: send_all.induct)
  case (3 reply replies c cs)
  show ?case
  proof (cases reply)
    case (Sent n)
    show ?thesis
    proof (cases "n = 0 \<or> send_all replies (drop n (c # cs)) = None")
      case False
      then obtain ok sent where rest: "send_all replies (drop n (c # cs)) = Some (ok, sent)" by auto
      with 3 Sent False have "prefix sent (drop n (c # cs))" "ok \<longleftrightarrow> sent = drop n (c # cs)" by auto
      moreover from this(1) have "prefix (take n (c # cs) @ sent) (c # cs)"
        by (metis append_take_drop_id same_prefix_prefix)
      moreover have "take n (c # cs) @ sent = c # cs \<longleftrightarrow> sent = drop n (c # cs)"
        by (metis append_take_drop_id same_append_eq)
      ultimately show ?thesis using Sent False rest by simp
    qed (use Sent in auto)
  qed (use 3 in auto)
qed simp_all

text \<open>
  The two request handlers route alike, and routing is exact: a request line with
  method \<open>m\<close> and path \<open>p\<close> reaches the dashboard for GET of \<open>/\<close> or \<open>/dashboard.html\<close>, the
  event stream for GET of \<open>/events\<close>, the reset for POST of \<open>/reset\<close>, and nothing else.
\<close>

theorem http_route_exact:
  assumes "CHR '' '' \<notin> set m" and "CHR '' '' \<notin> set p" and "CHR 0x00 \<notin> set (m @ p)"
  shows "pump_route (m @ '' '' @ p @ '' '' @ rest) =
      (if m = ''GET'' \<and> (p = ''/'' \<or> p = ''/dashboard.html'') then RouteDashboard
       else if m = ''GET'' \<and> p = ''/events'' then RouteEvents
       else if m = ''POST'' \<and> p = ''/reset'' then RouteReset else RouteNotFound) \<and>
    serve_route req = pump_route req"
proof -
  have "c_string (m @ '' '' @ p @ '' '' @ rest) = m @ '' '' @ p @ '' '' @ c_string rest"
    using assms(3) by (auto simp: c_string_def takeWhile_append)
  moreover have "takeWhile (\<lambda>c. c \<noteq> CHR '' '') (m @ '' '' @ s) = m"
    "takeWhile (\<lambda>c. c \<noteq> CHR '' '') (p @ '' '' @ s) = p" for s
    using assms(1,2) by (auto simp: takeWhile_append)
  ultimately have "request_path (c_string (m @ '' '' @ p @ '' '' @ rest)) =
      (if m = ''GET'' \<or> m = ''POST'' then Some p else None, m)"
    by (simp add: request_path_def Let_def)
  then have "pump_route (m @ '' '' @ p @ '' '' @ rest) =
      (if m = ''GET'' \<and> (p = ''/'' \<or> p = ''/dashboard.html'') then RouteDashboard
       else if m = ''GET'' \<and> p = ''/events'' then RouteEvents
       else if m = ''POST'' \<and> p = ''/reset'' then RouteReset else RouteNotFound)"
    by (simp add: pump_route_def is_post_def)
  moreover have "serve_route req = pump_route req"
    by (auto simp: serve_route_def pump_route_def split: prod.splits)
  ultimately show ?thesis by blast
qed

theorem http_route_exact_witness:
  "pump_route (''POST'' @ '' '' @ ''/reset'' @ '' '' @ ''HTTP/1.1'' @ crlf @ crlf) = RouteReset"
  using http_route_exact [of "''POST''" "''/reset''" "''HTTP/1.1'' @ crlf @ crlf"] by simp


text \<open>A client asks for the dashboard while another one is held; the second read of the file fails.\<close>

definition page_world :: http_world where
  "page_world = \<lparr>hw_poll = 1, hw_eintr = False, hw_client_event = False, hw_listen_event = True, hw_peek = PeekNothing,
     hw_accept = 8, hw_request = Some (''GET / HTTP/1.1'' @ crlf @ crlf), hw_send = (\<lambda>_ _. True),
     hw_file = 9, hw_file_size = Some 4, hw_file_reads = [Some ''page'', None]\<rparr>"


text \<open>
  (C38) The 128-byte header buffer of the dashboard response suffices exactly for files
  below one megabyte: from 10^6 bytes on the header sent is not the header
  formatted, and from 10^7 bytes on the send reads past the buffer.
\<close>

theorem dashboard_header_overflow:
  "(header_sent n = Some (dashboard_header n) \<longleftrightarrow> n < 1000000) \<and> (header_sent n = None \<longleftrightarrow> 10000000 \<le> n)"
  by (rule header_sent_iff)

end
