(* ===== verification/Observe.thy ===== *)
theory Observe
  imports Telemetry Http_Sse Shm_Region Pace
begin

text \<open>
  \<^verbatim>\<open>src/observe.cpp\<close>: the observer's loop. The other processes and the
  supervisor go on beside it: a turn gets the signal flag, what they did to the
  region before the test of the loop, up to each load of the snapshot and until the
  pump returned, the clock, which row loads failed, and the kernel's side of the
  pump. The loop stores one word of the region, once for each request for another
  run, and the event it sends can be read back.
\<close>

definition released :: "Layout \<Rightarrow> bool" where
  "released l \<longleftrightarrow> sup_observe_release (l_supervisor l) \<noteq> 0"

record observe_turn =
  ot_stop :: bool
  ot_others :: "Layout \<Rightarrow> Layout"
  ot_loads :: "nat \<Rightarrow> Layout \<Rightarrow> Layout"
  ot_pumped :: "Layout \<Rightarrow> Layout"
  ot_now :: u64
  ot_busy :: "nat \<Rightarrow> bool"
  ot_world :: http_world

definition kJsonBytes :: nat where "kJsonBytes = 4096"

text \<open>
  The loop: the region, the held client and the descriptor calls when it ends,
  \<open>None\<close> while it is still running (or in the overflow of \<open>send_dashboard\<close>).
\<close>

fun observe_loop :: "HttpSseServer \<Rightarrow> string \<Rightarrow> observe_turn list \<Rightarrow> int \<Rightarrow> Layout \<Rightarrow>
    (Layout \<times> int \<times> http_call list) option" where
  "observe_loop srv root [] client_fd l = None"
| "observe_loop srv root (t # ts) client_fd l =
     (let l = ot_others t l in
      if ot_stop t \<or> released l then Some (l, client_fd, [])
      else
        let snap = collect_telemetry (ot_busy t) (\<lambda>k. ot_loads t k l) (ot_now t);
            (n, json) = format_telemetry_json snap True kJsonBytes
        in if n = 0 then observe_loop srv root ts client_fd l
           else case http_sse_pump (ot_world t) srv client_fd (Some root) (Some json) n of
             None \<Rightarrow> None
           | Some (ok, client_fd, reset, calls) \<Rightarrow>
               let l = ot_pumped t l in
               if \<not> ok then Some (l, client_fd, calls)
               else let l = (if reset then l\<lparr>l_supervisor := request_rerun (l_supervisor l)\<rparr> else l) in
                 map_option (\<lambda>(l, fd, calls'). (l, fd, calls @ calls')) (observe_loop srv root ts client_fd l))"

text \<open>The wait of the pump, in milliseconds.\<close>

definition observe_timeout :: "(string \<Rightarrow> string option) \<Rightarrow> u32 \<Rightarrow> u32" where
  "observe_timeout getenv interval_ms =
     (let interval = (if interval_ms = 0 then 100 else interval_ms) in
      if pacing_enabled getenv then interval else 0)"

text \<open>\<open>run_observe\<close>: exit code, region, descriptor calls.\<close>

definition run_observe :: "ShmStatus \<Rightarrow> listen_replies \<Rightarrow> string option \<Rightarrow> observe_turn list \<Rightarrow> Layout \<Rightarrow>
    (nat \<times> Layout \<times> http_call list) option" where
  "run_observe attached lr web_root turns l =
     (if attached \<noteq> ShmOk then Some (1, l, [])
      else case http_sse_listen lr \<lparr>srv_listen_fd = -1, srv_port = 0\<rparr> of (ok, srv, calls) \<Rightarrow>
        if \<not> ok then Some (1, l, calls)
        else
          let root = (case web_root of None \<Rightarrow> ''web'' | Some r \<Rightarrow> r) in
          case observe_loop srv root turns (-1) l of
            None \<Rightarrow> None
          | Some (l, client_fd, calls') \<Rightarrow>
              Some (0, l, calls @ calls' @ (if client_fd \<ge> 0 then [HttpClose client_fd] else []) @
                snd (http_sse_close srv)))"

section \<open>Lemmas\<close>

text \<open>A request for another run arrived in the turn, and what a turn that goes on makes of the region.\<close>

definition posts_reset :: "http_world \<Rightarrow> bool" where
  "posts_reset w \<longleftrightarrow> hw_poll w \<ge> 0 \<and> hw_listen_event w \<and> hw_accept w \<ge> 0 \<and>
     (\<exists>req. hw_request w = Some req \<and> pump_route req = RouteReset)"

definition after_turn :: "observe_turn \<Rightarrow> Layout \<Rightarrow> Layout" where
  "after_turn t l = (let l = ot_pumped t (ot_others t l) in
     if posts_reset (ot_world t) then l\<lparr>l_supervisor := (l_supervisor l)\<lparr>sup_rerun_request := 1\<rparr>\<rparr> else l)"

definition turn_ends :: "observe_turn \<Rightarrow> Layout \<Rightarrow> Layout \<Rightarrow> bool" where
  "turn_ends t l l' \<longleftrightarrow> (let l = ot_others t l in
     if ot_stop t \<or> released l then l' = l
     else hw_poll (ot_world t) < 0 \<and> \<not> hw_eintr (ot_world t) \<and> l' = ot_pumped t l)"

lemma pump_outcome:
  assumes "http_sse_pump w srv fd root json n = Some (ok, fd', reset, calls)" and "srv_listen_fd srv \<ge> 0"
  shows "reset \<longleftrightarrow> posts_reset w" and "ok \<longleftrightarrow> \<not> (hw_poll w < 0 \<and> \<not> hw_eintr w)"
proof -
  show "reset \<longleftrightarrow> posts_reset w"
    using pump_reset [OF assms(1)] assms(2) by (auto simp: reset_asked_def posts_reset_def split: option.splits)
  show "ok \<longleftrightarrow> \<not> (hw_poll w < 0 \<and> \<not> hw_eintr w)"
    using assms by (auto simp: http_sse_pump_def split: if_splits prod.splits option.splits)
qed

text \<open>The loop ends in turn \<open>k\<close>; each turn before it went on and stored exactly what was asked for.\<close>

lemma observe_loop_region:
  assumes "observe_loop srv root ts fd l = Some (l', fd', calls)" and "srv_listen_fd srv \<ge> 0"
  shows "\<exists>k < length ts. turn_ends (ts ! k) (fold after_turn (take k ts) l) l' \<and>
    (\<forall>i < k. \<not> ot_stop (ts ! i) \<and> \<not> released (ot_others (ts ! i) (fold after_turn (take i ts) l)))"
  using assms
proof (induction ts arbitrary: fd l calls)
  case (Cons t ts)
  let ?l = "ot_others t l"
  show ?case
  proof (cases "ot_stop t \<or> released ?l")
    case True
    with Cons.prems(1) have "turn_ends t l l'" by (simp add: turn_ends_def)
    then show ?thesis by (intro exI [of _ 0]) simp
  next
    case goes: False
    define snap where "snap = collect_telemetry (ot_busy t) (\<lambda>k. ot_loads t k ?l) (ot_now t)"
    have fmt: "format_telemetry_json snap True kJsonBytes = (length (json_text snap), json_text snap)" "json_text snap \<noteq> []"
      using format_fits [of "ot_busy t" "\<lambda>k. ot_loads t k ?l" "ot_now t"] by (simp_all add: kJsonBytes_def snap_def)
    then obtain ok fd1 reset c where pump:
      "http_sse_pump (ot_world t) srv fd (Some root) (Some (json_text snap)) (length (json_text snap)) = Some (ok, fd1, reset, c)"
      using Cons.prems(1) goes by (auto simp: snap_def [symmetric] split: option.splits)
    note out = pump_outcome [OF pump Cons.prems(2)]
    show ?thesis
    proof (cases ok)
      case False
      with Cons.prems(1) goes fmt pump out(2) have "turn_ends t l l'"
        by (simp add: turn_ends_def snap_def [symmetric])
      then show ?thesis by (intro exI [of _ 0]) simp
    next
      case True
      then obtain c' where "observe_loop srv root ts fd1 (after_turn t l) = Some (l', fd', c')"
        using Cons.prems(1) goes fmt pump out(1)
        by (cases reset) (auto simp: snap_def [symmetric] after_turn_def Let_def request_rerun_def)
      from Cons.IH [OF this Cons.prems(2)] obtain k where "k < length ts"
        "turn_ends (ts ! k) (fold after_turn (take k ts) (after_turn t l)) l'"
        "\<forall>i < k. \<not> ot_stop (ts ! i) \<and> \<not> released (ot_others (ts ! i) (fold after_turn (take i ts) (after_turn t l)))"
        by blast
      with goes show ?thesis by (intro exI [of _ "Suc k"]) (simp add: All_less_Suc2)
    qed
  qed
qed simp

subsection \<open>The event a client receives\<close>

text \<open>Text that stays in one line of the stream and ends no C string.\<close>

definition inline :: "string \<Rightarrow> bool" where
  "inline s \<longleftrightarrow> list_all (\<lambda>c. c \<noteq> CHR 0x00 \<and> c \<noteq> CHR 0x0A) s"

fun inline_piece :: "piece \<Rightarrow> bool" where
  "inline_piece (Lit s) \<longleftrightarrow> inline s"
| "inline_piece _ \<longleftrightarrow> True"

lemma inline_simps [simp]: "inline []" "inline (s @ t) \<longleftrightarrow> inline s \<and> inline t"
  "inline (c # s) \<longleftrightarrow> c \<noteq> CHR 0x00 \<and> c \<noteq> CHR 0x0A \<and> inline s"
  by (auto simp: inline_def)

lemma inline_show_nat: "inline (show_nat n)"
  using show_nat_digits [of n] by (auto simp: inline_def list_all_iff is_digit_def)

lemma inline_piece_text: "inline_piece p \<Longrightarrow> inline (piece_text p)"
  by (cases p) (simp_all add: show_u32_def show_u64_def show_i32_def show_int_def inline_show_nat)

lemma inline_printf: "list_all inline_piece ps \<Longrightarrow> inline (printf_text ps)"
  by (induction ps) (simp_all add: printf_text_def inline_piece_text)

lemma inline_key [simp]: "inline (key s) = inline s"
  by (simp add: key_def quote_def)

lemma inline_json: "inline (json_text t)"
proof -
  have "list_all inline_piece (json_head t)" by (simp add: json_head_def)
  moreover have "list_all inline_piece (json_point first src)" for first src by (simp add: json_point_def)
  then have "list_all inline_piece (concat (json_points True (ts_sources t)))"
    by (auto simp: json_points_def list_all_iff split: list.splits)
  ultimately show ?thesis by (simp add: json_text_def inline_printf)
qed

lemma c_string_inline: "inline s \<Longrightarrow> c_string s = s"
  by (simp add: c_string_def inline_def list_all_iff)

text \<open>What the pump sends last to the client it keeps.\<close>

lemma pump_sends_event:
  assumes "http_sse_pump w srv fd root (Some json) n = Some (ok, fd', reset, calls)"
    and "ok" and "0 \<le> hw_poll w" and "0 \<le> fd'" and "0 < n" and "sse_data_text json n = Some line"
  shows "\<exists>before. calls = before @ [HttpSend fd' line] \<and> hw_send w fd' line"
  using assms
  by (auto simp: http_sse_pump_def pump_event_def close_fd_def split: if_splits prod.splits option.splits)

lemma event_numbers:
  "numbers (''data: '' @ json_text t @ [CHR 0x0A, CHR 0x0A]) = head_values t @ concat (map point_values (ts_sources t))"
proof -
  let ?ps = "json_head t @ concat (json_points True (ts_sources t)) @ [Lit '']}'']"
  have "separated (Lit ''data: '' # ?ps @ [Lit [CHR 0x0A, CHR 0x0A]])"
    using separated_append [OF separated_json, of "[Lit [CHR 0x0A, CHR 0x0A]]" t] by (simp add: plain_def is_digit_def)
  from numbers_printf [OF this] numbers_printf [OF separated_json, of t] telemetry_numbers_roundtrip [of t]
  show ?thesis by (simp add: json_text_def)
qed

text \<open>The text of an event without its numbers: the labels, and one object for each of \<open>n\<close> sources.\<close>

definition labels :: "string \<Rightarrow> string" where
  "labels s = filter (\<lambda>c. \<not> is_digit c \<and> c \<noteq> CHR ''-'') s"

definition point_labels :: string where
  "point_labels = ''{'' @ key ''id'' @ '','' @ key ''x'' @ '','' @ key ''y'' @ '','' @ key ''p'' @ '','' @ key ''seq'' @ ''}''"

definition event_labels :: "nat \<Rightarrow> string" where
  "event_labels n =
     ''{'' @ key ''ts_ns'' @ '','' @ key ''generation'' @ '','' @ key ''shutdown'' @ '','' @ key ''fault'' @ '','' @ key ''idle'' @
     '','' @ key ''ring'' @ ''{'' @ key ''occupied'' @ '','' @ key ''capacity'' @ ''}'' @
     '','' @ key ''overrun'' @ ''{'' @ key ''fast'' @ '','' @ key ''window'' @ '','' @ key ''snapshot'' @ ''}'' @
     '','' @ key ''done'' @ ''{'' @ key ''ingest'' @ '','' @ key ''fast'' @ '','' @ key ''window'' @ '','' @ key ''snapshot'' @
       '','' @ key ''compute'' @ ''}'' @
     '','' @ key ''hb'' @ ''{'' @ key ''ingest'' @ '','' @ key ''compute'' @ '','' @ key ''publish'' @ '','' @ key ''fast'' @
       '','' @ key ''window'' @ '','' @ key ''snapshot'' @ ''}'' @
     '','' @ key ''pids'' @ ''{'' @ key ''ingest'' @ '','' @ key ''compute'' @ '','' @ key ''publish'' @ '','' @ key ''observe'' @ ''}'' @
     '','' @ key ''exits'' @ ''{'' @ key ''ingest'' @ '','' @ key ''compute'' @ '','' @ key ''publish'' @ ''}'' @
     '','' @ key ''sources'' @ ''['' @ drop 1 (concat (replicate n ('','' @ point_labels))) @ '']}''"

lemma labels_simps [simp]:
  "labels [] = []" "labels (s @ t) = labels s @ labels t"
  "labels (c # s) = (if is_digit c \<or> c = CHR ''-'' then [] else [c]) @ labels s"
  by (auto simp: labels_def)

lemma labels_show_nat: "labels (show_nat n) = []"
  using show_nat_digits [of n] by (simp add: labels_def filter_empty_conv list_all_iff)

lemma labels_numbers [simp]: "labels (show_u32 a) = []" "labels (show_u64 b) = []" "labels (show_i32 c) = []"
  by (simp_all add: show_u32_def show_u64_def show_i32_def show_int_def labels_show_nat)

lemma labels_key [simp]: "labels (key s) = key (labels s)"
  by (simp add: key_def quote_def is_digit_def)

lemma labels_point: "labels (printf_text (json_point first src)) = (if first then [] else '','') @ point_labels"
  by (simp add: json_point_def point_labels_def is_digit_def)

lemma labels_points:
  "labels (printf_text (concat (json_points first srcs))) =
     (if first then drop 1 else id) (concat (replicate (length srcs) ('','' @ point_labels)))"
proof (induction srcs arbitrary: first)
  case (Cons src srcs)
  have "json_points first (src # srcs) = json_point first src # json_points False srcs"
    by (cases srcs) (simp_all add: json_points_def)
  with Cons show ?case by (simp add: labels_point)
qed (simp add: json_points_def)

lemma labels_json: "labels (json_text t) = event_labels (length (ts_sources t))"
proof -
  have "labels (json_text t) = labels (printf_text (json_head t)) @
      drop 1 (concat (replicate (length (ts_sources t)) ('','' @ point_labels))) @ '']}''"
    by (simp add: json_text_def labels_points is_digit_def)
  then show ?thesis by (simp add: event_labels_def json_head_def is_digit_def)
qed

lemma uint_source: "sid < 64 \<Longrightarrow> uint (of_nat sid :: u32) = int sid"
  by (simp add: uint_nat unat_of_nat)

text \<open>The ring's occupancy as a number.\<close>

lemma uint_occupied: "uint ((a - b) AND kMask kRingCapacity) = (uint a - uint b) mod 1024"
proof -
  have "(kMask kRingCapacity :: u32) = mask 10" by (simp add: kMask_def kRingCapacity_def mask_eq_exp_minus_1)
  then have "uint ((a - b) AND kMask kRingCapacity) = take_bit 10 (uint (a - b))"
    by (simp add: take_bit_eq_mask [symmetric] unsigned_take_bit_eq)
  also have "\<dots> = (uint a - uint b) mod 4294967296 mod 1024"
    by (simp add: take_bit_eq_mod uint_word_ariths)
  finally show ?thesis by (simp add: mod_mod_cancel)
qed

lemma uint_capacity: "uint (kRingCapacity - 1) = 1023"
  by (simp add: kRingCapacity_def)

section \<open>Properties\<close>


text \<open>A turn with a reset request, a turn before which the supervisor took it, then a signal.\<close>

definition reset_world :: http_world where
  "reset_world = \<lparr>hw_poll = 1, hw_eintr = False, hw_client_event = False, hw_listen_event = True, hw_peek = PeekNothing,
     hw_accept = 8, hw_request = Some (''POST /reset HTTP/1.1'' @ crlf @ crlf), hw_send = (\<lambda>_ _. True),
     hw_file = -1, hw_file_size = None, hw_file_reads = []\<rparr>"

definition reset_turn :: observe_turn where
  "reset_turn = \<lparr>ot_stop = False, ot_others = id, ot_loads = (\<lambda>_. id), ot_pumped = id, ot_now = 1,
     ot_busy = (\<lambda>_. False), ot_world = reset_world\<rparr>"

definition reset_turns :: "observe_turn list" where
  "reset_turns =
     [reset_turn,
      reset_turn\<lparr>ot_others := \<lambda>l. l\<lparr>l_supervisor := snd (take_rerun (l_supervisor l))\<rparr>, ot_now := 2,
        ot_world := reset_world\<lparr>hw_listen_event := False\<rparr>\<rparr>,
      reset_turn\<lparr>ot_stop := True, ot_now := 3\<rparr>]"

definition listens :: listen_replies where
  "listens = \<lparr>lr_socket = 5, lr_bind = True, lr_listen = True, lr_port = Some 8080\<rparr>"


text \<open>
  (C37) What a browser of the dashboard receives, while the other processes go on: \<open>view k\<close> is
  the region at the \<open>k\<close>-th load of the snapshot. In a turn after which the pump holds a client,
  the last thing sent is one whole event, accepted by the connection, to that client: a
  single \<^verbatim>\<open>data:\<close> line with no line break or null inside, ended by a blank line.
  Its labels are those of the dashboard's format, and the numbers in it are, in the order of the
  labels, the clock, the generation and flags, the idle flag they give,
  the ring's occupancy and capacity, the overruns, stage flags, heartbeats, pids and exit statuses of the
  region, each at its load, and then identity, position, count and sequence of the
  first sixteen sources whose row load did not fail (\<open>busy\<close>, any set of sources) and
  whose window row has been published, from their rows; nothing is cut off. The rows of
  the window table are at rest or fail to load.
\<close>

theorem observe_event_roundtrip:
  assumes "\<forall>sid < 64. window_wf (l_window (view (26 + sid)))"
    and "format_telemetry_json (collect_telemetry busy view now) True kJsonBytes = (n, json)"
    and "http_sse_pump w srv fd root (Some json) n = Some (True, fd', reset, calls)"
    and "0 \<le> hw_poll w" and "0 \<le> fd'"
    and "row = (\<lambda>sid. window_value (view (26 + sid)) sid)"
    and "sids = take 16 (filter (\<lambda>sid. \<not> busy sid \<and> w_publishes (row sid) \<noteq> 0) [0..<64])"
  shows "(\<exists>before. calls = before @ [HttpSend fd' (''data: '' @ json @ [CHR 0x0A, CHR 0x0A])]) \<and>
    hw_send w fd' (''data: '' @ json @ [CHR 0x0A, CHR 0x0A]) \<and> CHR 0x00 \<notin> set json \<and> CHR 0x0A \<notin> set json \<and>
    labels json = event_labels (length sids) \<and>
    numbers (''data: '' @ json @ [CHR 0x0A, CHR 0x0A]) =
      [uint now, uint (c_generation (l_control (view 0))), uint (c_shutdown (l_control (view 1))), uint (c_fault (l_control (view 2))),
       if c_shutdown (l_control (view 1)) \<noteq> 0 \<and> c_ingest_done (l_control (view 8)) \<noteq> 0 \<and> c_compute_done (l_control (view 12)) \<noteq> 0
         then 1 else 0,
       (uint (rb_write (l_ring (view 3))) - uint (rb_read (l_ring (view 4)))) mod 1024, 1023,
       uint (c_overrun_fast (l_control (view 5))), uint (c_overrun_window (l_control (view 6))),
       uint (c_overrun_snapshot (l_control (view 7))),
       uint (c_ingest_done (l_control (view 8))), uint (c_fast_done (l_control (view 9))), uint (c_window_done (l_control (view 10))),
       uint (c_snapshot_done (l_control (view 11))), uint (c_compute_done (l_control (view 12))),
       uint (c_heartbeat_ingest (l_control (view 13))), uint (c_heartbeat_compute (l_control (view 14))),
       uint (c_heartbeat_publish (l_control (view 15))), uint (c_heartbeat_fast (l_control (view 16))),
       uint (c_heartbeat_window (l_control (view 17))), uint (c_heartbeat_snapshot (l_control (view 18))),
       uint (sup_ingest_pid (l_supervisor (view 19))), uint (sup_compute_pid (l_supervisor (view 20))),
       uint (sup_publish_pid (l_supervisor (view 21))), uint (sup_observe_pid (l_supervisor (view 22))),
       uint (sup_ingest_exit (l_supervisor (view 23))), uint (sup_compute_exit (l_supervisor (view 24))),
       uint (sup_publish_exit (l_supervisor (view 25)))] @
      concat (map (\<lambda>sid. [int sid, sint (w_pos_x (row sid)), sint (w_pos_y (row sid)),
        uint (w_publishes (row sid)), uint (w_sequence (row sid))]) sids)"
proof -
  let ?t = "collect_telemetry busy view now"
  have json: "json = json_text ?t" "n = length json" "0 < n" "n < 4096"
    using assms(2) format_fits [of busy view now] by (auto simp: kJsonBytes_def)
  have line: "sse_data_text json n = Some (''data: '' @ json @ [CHR 0x0A, CHR 0x0A])"
    using json by (simp add: sse_data_text_def c_string_inline inline_json)
  have sent: "\<exists>before. calls = before @ [HttpSend fd' (''data: '' @ json @ [CHR 0x0A, CHR 0x0A])] \<and>
      hw_send w fd' (''data: '' @ json @ [CHR 0x0A, CHR 0x0A])"
    using pump_sends_event [OF assms(3) _ assms(4,5) json(3) line] by blast
  have whole: "CHR 0x00 \<notin> set json" "CHR 0x0A \<notin> set json"
    using inline_json [of ?t] json(1) by (auto simp: inline_def list_all_iff)
  have srcs: "ts_sources ?t = map (\<lambda>sid. point_of sid (row sid)) sids"
    using collect_points_eq [of "[0..<64]" view "[]" busy] assms(1,6,7)
    by (simp add: collect_telemetry_def Let_def kMaxSources_def shown_points_def take_map)
  have points: "map point_values (ts_sources ?t) = map (\<lambda>sid. [int sid, sint (w_pos_x (row sid)), sint (w_pos_y (row sid)),
        uint (w_publishes (row sid)), uint (w_sequence (row sid))]) sids"
    using set_take_subset [of 16 "filter (\<lambda>sid. \<not> busy sid \<and> w_publishes (row sid) \<noteq> 0) [0..<64]"]
    by (auto simp: srcs point_values_def point_of_def assms(7) uint_source)
  have head: "head_values ?t = [uint now, uint (c_generation (l_control (view 0))), uint (c_shutdown (l_control (view 1))), uint (c_fault (l_control (view 2))),
         if c_shutdown (l_control (view 1)) \<noteq> 0 \<and> c_ingest_done (l_control (view 8)) \<noteq> 0 \<and> c_compute_done (l_control (view 12)) \<noteq> 0
           then 1 else 0,
         (uint (rb_write (l_ring (view 3))) - uint (rb_read (l_ring (view 4)))) mod 1024, 1023,
         uint (c_overrun_fast (l_control (view 5))), uint (c_overrun_window (l_control (view 6))),
         uint (c_overrun_snapshot (l_control (view 7))),
         uint (c_ingest_done (l_control (view 8))), uint (c_fast_done (l_control (view 9))), uint (c_window_done (l_control (view 10))),
         uint (c_snapshot_done (l_control (view 11))), uint (c_compute_done (l_control (view 12))),
         uint (c_heartbeat_ingest (l_control (view 13))), uint (c_heartbeat_compute (l_control (view 14))),
         uint (c_heartbeat_publish (l_control (view 15))), uint (c_heartbeat_fast (l_control (view 16))),
         uint (c_heartbeat_window (l_control (view 17))), uint (c_heartbeat_snapshot (l_control (view 18))),
         uint (sup_ingest_pid (l_supervisor (view 19))), uint (sup_compute_pid (l_supervisor (view 20))),
         uint (sup_publish_pid (l_supervisor (view 21))), uint (sup_observe_pid (l_supervisor (view 22))),
         uint (sup_ingest_exit (l_supervisor (view 23))), uint (sup_compute_exit (l_supervisor (view 24))),
         uint (sup_publish_exit (l_supervisor (view 25)))]"
    by (simp add: head_values_def collect_telemetry_def Let_def uint_occupied uint_capacity)
  have "labels json = event_labels (length sids)" using labels_json [of ?t] by (simp add: srcs json(1))
  with sent whole event_numbers [of ?t, unfolded points head, folded json(1)] show ?thesis by blast
qed

text \<open>A client that opens the event stream, and a region with one published row whose generation moves on while it is read.\<close>

definition events_world :: http_world where
  "events_world = reset_world\<lparr>hw_request := Some (''GET /events HTTP/1.1'' @ crlf @ crlf)\<rparr>"

definition observed_region :: Layout where
  "observed_region = window_publish 3 (WindowState_default\<lparr>w_publishes := 2\<rparr>) Layout_init"

definition observed_view :: "nat \<Rightarrow> Layout" where
  "observed_view k = (if k = 0 then observed_region
     else observed_region\<lparr>l_control := (l_control observed_region)\<lparr>c_generation := 2, c_fault := 1\<rparr>\<rparr>)"

lemma observed_rows: "window_wf (l_window (observed_view k))"
  "window_value (observed_view k) sid = (if sid = 3 then WindowState_default\<lparr>w_publishes := 2\<rparr> else window_value Layout_init sid)"
proof -
  have wf: "window_wf (l_window Layout_init)" using layout_wf_init by (simp add: layout_wf_def)
  note row = window_publish_wf [OF wf, of 3 "WindowState_default\<lparr>w_publishes := 2\<rparr>"]
  have win: "l_window (observed_view k) = l_window observed_region" by (simp add: observed_view_def)
  show "window_wf (l_window (observed_view k))" using row(1) by (simp add: win observed_region_def)
  show "window_value (observed_view k) sid = (if sid = 3 then WindowState_default\<lparr>w_publishes := 2\<rparr> else window_value Layout_init sid)"
    using row(2) by (simp add: window_value_def win) (simp add: observed_region_def window_value_def)
qed

lemma observed_fields:
  "l_control (observed_view k) = (if k = 0 then ShmControl_default else ShmControl_default\<lparr>c_generation := 2, c_fault := 1\<rparr>)"
  "c_generation ShmControl_default = 1" "c_shutdown ShmControl_default = 0" "c_fault ShmControl_default = 0"
  "rb_write (l_ring (observed_view k)) = 0" "rb_read (l_ring (observed_view k)) = 0"
  by (simp_all add: observed_view_def observed_region_def window_publish_def Layout_init_def ShmControl_default_def SpscRing_init_def)

theorem observe_event_roundtrip_witness:
  "\<exists>line calls. http_sse_pump events_world \<lparr>srv_listen_fd = 5, srv_port = 8080\<rparr> (-1) (Some ''web'')
      (Some (json_text (collect_telemetry (\<lambda>sid. sid = 7) observed_view 1)))
      (length (json_text (collect_telemetry (\<lambda>sid. sid = 7) observed_view 1))) = Some (True, 8, False, calls) \<and>
    calls = [HttpAccept 8, HttpSend 8 sse_headers_text, HttpSend 8 line] \<and>
    take 7 (numbers line) = [1, 1, 0, 1, 0, 0, 1023] \<and> length (numbers line) = 33 \<and>
    drop 28 (numbers line) = [3, 0, 0, 2, 0]"
proof -
  let ?busy = "\<lambda>sid::nat. sid = 7"
  let ?json = "json_text (collect_telemetry ?busy observed_view 1)"
  have route: "pump_route (''GET /events HTTP/1.1'' @ crlf @ crlf) = RouteEvents"
    by (simp add: pump_route_def request_path_def c_string_def crlf_def is_post_def)
  have fits: "format_telemetry_json (collect_telemetry ?busy observed_view 1) True kJsonBytes = (length ?json, ?json)"
    "?json \<noteq> []" "length ?json < 8000"
    using format_fits [of ?busy observed_view 1] by (simp_all add: kJsonBytes_def)
  then obtain line where pump: "http_sse_pump events_world \<lparr>srv_listen_fd = 5, srv_port = 8080\<rparr> (-1) (Some ''web'')
      (Some ?json) (length ?json) = Some (True, 8, False, [HttpAccept 8, HttpSend 8 sse_headers_text, HttpSend 8 line])"
    using route
    by (simp add: http_sse_pump_def pump_drop_def pump_listen_def events_world_def reset_world_def accept_client_def
        pump_incoming_def pump_event_def close_fd_def sse_data_text_def)
  have start: "window_value Layout_init sid = WindowState_default" if "sid < 64" for sid
    using that window_cell.words_zero by (simp add: window_value_def Layout_init_def Seqlock_init_def kMaxSources_def)
  have "w_publishes (window_value (observed_view (26 + sid)) sid) \<noteq> 0 \<longleftrightarrow> sid = 3" if "sid < 64" for sid
    using start [OF that] by (simp add: observed_rows WindowState_default_def)
  then have "filter (\<lambda>sid. sid \<noteq> 7 \<and> w_publishes (window_value (observed_view (26 + sid)) sid) \<noteq> 0) [0..<64] = filter (\<lambda>sid. sid = 3) [0..<64]"
    by (intro filter_cong) auto
  then have sids: "take 16 (filter (\<lambda>sid. sid \<noteq> 7 \<and> w_publishes (window_value (observed_view (26 + sid)) sid) \<noteq> 0) [0..<64]) = [3]"
    by (simp add: upt_rec)
  have "\<forall>sid < 64. window_wf (l_window (observed_view (26 + sid)))" by (simp add: observed_rows(1))
  from observe_event_roundtrip [OF this fits(1) pump _ _ refl refl, unfolded sids]
  have "line = ''data: '' @ ?json @ [CHR 0x0A, CHR 0x0A]" and "take 7 (numbers line) = [1, 1, 0, 1, 0, 0, 1023]"
    "length (numbers line) = 33" "drop 28 (numbers line) = [3, 0, 0, 2, 0]"
    by (simp_all add: events_world_def reset_world_def observed_rows observed_fields WindowState_default_def)
  with pump show ?thesis by blast
qed

end
