(* ===== verification/Roles.thy ===== *)
theory Roles
  imports Supervisor
begin

text \<open>
  \<^verbatim>\<open>src/main.cpp\<close>: the dispatch of the one executable to its five roles. \<open>atoi\<close> is the
  C library's: leading white space, a sign, then digits; a value outside \<open>int\<close> is
  undefined behaviour and has the result \<open>None\<close>.
\<close>

section \<open>Dispatch\<close>

definition is_space :: "char \<Rightarrow> bool" where
  "is_space c \<longleftrightarrow> (of_char c :: nat) = 32 \<or> 9 \<le> (of_char c :: nat) \<and> (of_char c :: nat) \<le> 13"

definition atoi :: "string \<Rightarrow> int option" where
  "atoi s =
     (let s = dropWhile is_space s;
          (minus, digits) =
            (case s of [] \<Rightarrow> (False, []) | c # cs \<Rightarrow>
               if c = CHR ''-'' then (True, cs) else if c = CHR ''+'' then (False, cs) else (False, s));
          n = int (digits_value (takeWhile is_digit digits));
          z = (if minus then - n else n)
      in if INT32_MIN \<le> z \<and> z \<le> INT32_MAX then Some z else None)"

definition web_root_from_exe :: "string \<Rightarrow> string" where
  "web_root_from_exe argv0 =
     (if CHR ''/'' \<notin> set argv0 then ''web''
      else rev (tl (dropWhile (\<lambda>c. c \<noteq> CHR ''/'') (rev argv0))) @ ''/web'')"

datatype role =
    RunIngest string string
  | RunCompute string
  | RunPublish string string
  | RunObserve string u16 u32 string
  | RunSupervisor string string string u16
  | Usage

text \<open>The role \<open>main\<close> calls, with its arguments; \<open>Usage\<close> returns 2. \<open>None\<close> is an \<open>atoi\<close> out of range.\<close>

definition main_role :: "string list \<Rightarrow> role option" where
  "main_role argv =
     (let argc = length argv in
      if argc \<ge> 4 \<and> argv ! 1 = ''ingest'' then Some (RunIngest (argv ! 2) (argv ! 3))
      else if argc = 3 \<and> argv ! 1 = ''compute'' then Some (RunCompute (argv ! 2))
      else if argc = 4 \<and> argv ! 1 = ''publish'' then Some (RunPublish (argv ! 2) (argv ! 3))
      else if argc \<ge> 4 \<and> argv ! 1 = ''observe'' then do {
        port \<leftarrow> atoi (argv ! 3);
        interval \<leftarrow> (if argc \<ge> 5 then atoi (argv ! 4) else Some 100);
        Some (RunObserve (argv ! 2) (word_of_int port) (word_of_int interval) (web_root_from_exe (argv ! 0))) }
      else if argc \<ge> 4 \<and> argv ! 1 = ''run'' then do {
        observe_port \<leftarrow> (if argc \<ge> 6 \<and> argv ! 4 = ''--observe-port'' then atoi (argv ! 5) else Some 0);
        Some (RunSupervisor (argv ! 0) (argv ! 2) (argv ! 3) (word_of_int observe_port)) }
      else Some Usage)"

section \<open>Lemmas\<close>

lemma digit_not_special: "is_digit c \<Longrightarrow> \<not> is_space c \<and> c \<noteq> CHR ''-'' \<and> c \<noteq> CHR ''+''"
  by (auto simp: is_digit_def is_space_def)

text \<open>What \<open>snprintf\<close> prints of a port, \<open>atoi\<close> reads back.\<close>

lemma atoi_show_nat:
  assumes "n < 2 ^ 31"
  shows "atoi (show_nat n) = Some (int n)"
proof -
  obtain c cs where s: "show_nat n = c # cs" using show_nat_nonempty [of n] by (cases "show_nat n") auto
  have ds: "list_all is_digit (c # cs)" using show_nat_digits [of n] s by simp
  then have c: "\<not> is_space c" "c \<noteq> CHR ''-''" "c \<noteq> CHR ''+''" using digit_not_special by auto
  have "takeWhile is_digit (c # cs) = c # cs" using ds by (auto simp: list_all_iff intro: takeWhile_eq_all_conv [THEN iffD2])
  moreover have "digits_value (c # cs) = n" using digits_value_show [of n] s by simp
  ultimately have "digits_value (takeWhile is_digit (c # cs)) = n" by (rule ssubst)
  then show ?thesis using c assms by (simp add: atoi_def s Let_def)
qed

lemma port_back: "word_of_int (int (unat p)) = (p :: u16)"
  by simp

lemma web_root_dir:
  assumes "CHR ''/'' \<notin> set base"
  shows "web_root_from_exe (dir @ ''/'' @ base) = dir @ ''/web''"
proof -
  have "dropWhile (\<lambda>c. c \<noteq> CHR ''/'') (rev base @ CHR ''/'' # rev dir) = CHR ''/'' # rev dir"
    using assms by (subst dropWhile_append2) auto
  then show ?thesis by (simp add: web_root_from_exe_def)
qed

section \<open>Properties\<close>

text \<open>
  (C35) Every child the supervisor spawns arrives at the role it is meant to play, with
  the region, the file and the port it was given, and the observer serves the
  \<open>web\<close> directory next to the executable; the printed port survives the round trip
  through the argument vector, and fits the 16-byte buffer it is printed into.
  The same holds of the port option of \<open>run\<close>.
\<close>

theorem spawned_roles:
  assumes "CHR ''/'' \<notin> set base"
  shows "main_role (spawn_argv exe ''ingest'' shm (Some replay)) = Some (RunIngest shm replay) \<and>
    main_role (spawn_argv exe ''compute'' shm None) = Some (RunCompute shm) \<and>
    main_role (spawn_argv exe ''publish'' shm (Some out)) = Some (RunPublish shm out) \<and>
    main_role (spawn_argv (dir @ ''/'' @ base) ''observe'' shm (Some (show_nat (unat port)))) =
      Some (RunObserve shm port 100 (dir @ ''/web'')) \<and>
    main_role [exe, ''run'', replay, out, ''--observe-port'', show_nat (unat port)] = Some (RunSupervisor exe replay out port) \<and>
    length (show_nat (unat port)) < 16"
proof -
  have "unat port < 2 ^ 16" using unsigned_less [of port, where ?'a = nat] by simp
  then have "atoi (show_nat (unat port)) = Some (int (unat port))" by (intro atoi_show_nat) simp
  moreover have "length (show_nat (unat port)) \<le> 5"
    using \<open>unat port < 2 ^ 16\<close> by (intro length_show_nat) simp_all
  ultimately show ?thesis
    using web_root_dir [OF assms, of dir] by (simp add: main_role_def spawn_argv_def Let_def)
qed

theorem spawned_roles_witness:
  "main_role (spawn_argv ''/opt/ratehub'' ''observe'' ''/rh-7'' (Some (show_nat 8080))) =
     Some (RunObserve ''/rh-7'' 8080 100 ''/opt/web'')"
  using spawned_roles [of "''ratehub''" "''''" "''/rh-7''" "''''" "''''" "''/opt''" 8080] by simp

end
