(* ===== verification/Memory_Layout.thy ===== *)
theory Memory_Layout
  imports Types
begin

text \<open>
  Where the members of the shared structures lie in memory: sizes, alignments and
  offsets of the C++ structures that live in the mapping, computed from their
  member lists and \<open>alignas\<close> specifiers the way the compiler lays out
  standard-layout classes on a 64-bit target (a scalar is aligned to its size, a
  lock-free atomic is laid out like the value it holds). The assertions of
  \<^verbatim>\<open>shm_control.hpp\<close> and the claim that heartbeats, ring indexes and
  seqlock cells do not share cache lines are theorems here.
\<close>

section \<open>Sizes, alignments and offsets\<close>

text \<open>
  \<open>Struct a members\<close> is a class with \<open>alignas(a)\<close> (1 when there is none); a member has its
  own \<open>alignas\<close>.
\<close>

datatype ctype = Scalar nat | Arr ctype nat | Struct nat "(string \<times> nat \<times> ctype) list"

definition align_up :: "nat \<Rightarrow> nat \<Rightarrow> nat" where
  "align_up n a = (n + a - 1) div a * a"

fun ctype_align :: "ctype \<Rightarrow> nat" and members_align :: "(string \<times> nat \<times> ctype) list \<Rightarrow> nat" where
  "ctype_align (Scalar n) = n"
| "ctype_align (Arr t n) = ctype_align t"
| "ctype_align (Struct a ms) = max a (members_align ms)"
| "members_align [] = 1"
| "members_align ((name, a, t) # ms) = max (max a (ctype_align t)) (members_align ms)"

fun ctype_size :: "ctype \<Rightarrow> nat" and members_end :: "nat \<Rightarrow> (string \<times> nat \<times> ctype) list \<Rightarrow> nat" where
  "ctype_size (Scalar n) = n"
| "ctype_size (Arr t n) = n * ctype_size t"
| "ctype_size (Struct a ms) = align_up (members_end 0 ms) (max a (members_align ms))"
| "members_end at [] = at"
| "members_end at ((name, a, t) # ms) = members_end (align_up at (max a (ctype_align t)) + ctype_size t) ms"

text \<open>The members with their offsets, and \<open>offsetof\<close>.\<close>

fun members_at :: "nat \<Rightarrow> (string \<times> nat \<times> ctype) list \<Rightarrow> (string \<times> nat \<times> ctype) list" where
  "members_at at [] = []"
| "members_at at ((name, a, t) # ms) =
     (name, align_up at (max a (ctype_align t)), t) #
       members_at (align_up at (max a (ctype_align t)) + ctype_size t) ms"

datatype selector = Field string | Index nat

fun offset_of :: "ctype \<Rightarrow> selector list \<Rightarrow> nat option" where
  "offset_of t [] = Some 0"
| "offset_of (Struct a ms) (Field name # path) =
     (case map_of (members_at 0 ms) name of
        None \<Rightarrow> None
      | Some (off, t) \<Rightarrow> map_option (\<lambda>n. off + n) (offset_of t path))"
| "offset_of (Arr t n) (Index i # path) =
     (if i < n then map_option (\<lambda>k. i * ctype_size t + k) (offset_of t path) else None)"
| "offset_of _ _ = None"

section \<open>The structures of the mapping\<close>

abbreviation u16_t :: ctype where "u16_t \<equiv> Scalar 2"
abbreviation u32_t :: ctype where "u32_t \<equiv> Scalar 4"
abbreviation u64_t :: ctype where "u64_t \<equiv> Scalar 8"

definition Record_t :: ctype where
  "Record_t = Struct 1 [(''source_id'', 1, u32_t), (''sequence'', 1, u32_t), (''time_ns'', 1, u64_t),
     (''pos_x'', 1, u32_t), (''pos_y'', 1, u32_t), (''vel_x'', 1, u32_t), (''vel_y'', 1, u32_t)]"

definition SourceState_t :: ctype where
  "SourceState_t = Struct 1 [(''pos_x'', 1, u32_t), (''pos_y'', 1, u32_t), (''vel_x'', 1, u32_t), (''vel_y'', 1, u32_t),
     (''sequence'', 1, u32_t), (''publishes'', 1, u32_t), (''time_ns'', 1, u64_t), (''valid'', 1, u32_t)]"

definition WindowState_t :: ctype where
  "WindowState_t = Struct 1 [(''pos_x'', 1, u32_t), (''pos_y'', 1, u32_t), (''sequence'', 1, u32_t), (''publishes'', 1, u32_t)]"

definition Snapshot_t :: ctype where
  "Snapshot_t = Struct 1 [(''generation'', 1, u32_t), (''rows'', 1, Arr WindowState_t (unat kMaxSources))]"

definition SpscRing_t :: "ctype \<Rightarrow> nat \<Rightarrow> ctype" where
  "SpscRing_t t capacity = Struct 1 [(''slots_'', 1, Arr t capacity), (''write_'', 64, u32_t), (''read_'', 64, u32_t)]"

definition Seqlock_t :: "ctype \<Rightarrow> ctype" where
  "Seqlock_t t = Struct 64 [(''seq_'', 1, u32_t), (''words_'', 1, Arr u64_t ((ctype_size t + 8 - 1) div 8))]"

definition TripleBuffer_t :: "ctype \<Rightarrow> ctype" where
  "TripleBuffer_t t = Struct 1 [(''slots_'', 1, Arr t 3), (''write_'', 1, u64_t), (''read_'', 1, u64_t), (''middle_'', 1, u32_t)]"

definition ShmControl_t :: ctype where
  "ShmControl_t = Struct 64 [(''magic'', 1, u32_t), (''schema'', 1, u16_t), (''reserved'', 1, u16_t),
     (''shutdown'', 1, u32_t), (''generation'', 1, u32_t), (''ingest_done'', 1, u32_t), (''fast_done'', 1, u32_t),
     (''window_done'', 1, u32_t), (''compute_done'', 1, u32_t), (''fault'', 1, u32_t), (''snapshot_done'', 1, u32_t),
     (''overrun_fast'', 1, u32_t), (''overrun_window'', 1, u32_t), (''overrun_snapshot'', 1, u32_t),
     (''heartbeat_ingest'', 64, u64_t), (''heartbeat_compute'', 64, u64_t), (''heartbeat_publish'', 64, u64_t),
     (''heartbeat_fast'', 64, u64_t), (''heartbeat_window'', 64, u64_t), (''heartbeat_snapshot'', 64, u64_t)]"

definition SupervisorState_t :: ctype where
  "SupervisorState_t = Struct 64 [(''ingest_pid'', 1, u32_t), (''compute_pid'', 1, u32_t), (''publish_pid'', 1, u32_t),
     (''observe_pid'', 1, u32_t), (''ingest_exit'', 1, u32_t), (''compute_exit'', 1, u32_t), (''publish_exit'', 1, u32_t),
     (''observe_release'', 1, u32_t), (''rerun_request'', 1, u32_t)]"

definition Layout_t :: ctype where
  "Layout_t = Struct 64 [(''control'', 1, ShmControl_t), (''supervisor'', 64, SupervisorState_t),
     (''ring'', 64, SpscRing_t Record_t 1024), (''latest'', 64, Arr (Seqlock_t SourceState_t) (unat kMaxSources)),
     (''window'', 64, Arr (Seqlock_t WindowState_t) (unat kMaxSources)), (''snapshots'', 64, TripleBuffer_t Snapshot_t)]"

text \<open>The words that two threads of the pipeline would contend for.\<close>

definition heartbeats :: "string list" where
  "heartbeats = [''heartbeat_ingest'', ''heartbeat_compute'', ''heartbeat_publish'',
     ''heartbeat_fast'', ''heartbeat_window'', ''heartbeat_snapshot'']"

definition hot_words :: "selector list list" where
  "hot_words = map (\<lambda>name. [Field ''control'', Field name]) heartbeats @
     [[Field ''ring'', Field ''write_''], [Field ''ring'', Field ''read_'']] @
     map (\<lambda>i. [Field ''latest'', Index i, Field ''seq_'']) [0..<unat kMaxSources] @
     map (\<lambda>i. [Field ''window'', Index i, Field ''seq_'']) [0..<unat kMaxSources]"

definition cache_line :: "nat \<Rightarrow> nat" where
  "cache_line off = off div 64"

section \<open>Lemmas\<close>

lemma align_up_ge: "0 < a \<Longrightarrow> n \<le> align_up n a"
  using div_mult_mod_eq [of "n + a - 1" a] mod_less_divisor [of a "n + a - 1"] unfolding align_up_def by linarith

lemma align_up_dvd: "a dvd align_up n a"
  by (simp add: align_up_def)

lemma align_up_mod:
  assumes "0 < a"
  shows "align_up n a = (if n mod a = 0 then n else n + (a - n mod a))"
proof -
  obtain q r where n: "n = q * a + r" "r < a" using assms div_mult_mod_eq [of n a] mod_less_divisor by metis
  have "(n + a - 1) div a = (if r = 0 then q else Suc q)"
    by (rule div_nat_eqI) (use n assms in \<open>auto simp: algebra_simps\<close>)
  with n assms show ?thesis by (simp add: align_up_def algebra_simps)
qed

lemma align_up_eval [simp]:
  "align_up 0 (numeral a) = 0" "align_up n (Suc 0) = n"
  "align_up (numeral m) (numeral a) =
     (if numeral m mod numeral a = (0 :: nat) then numeral m else numeral m + (numeral a - numeral m mod numeral a))"
  "align_up n (Suc (Suc 0)) = align_up n 2"
  by (simp_all add: align_up_mod numeral_2_eq_2)

text \<open>An alignment that is given is positive.\<close>

fun aligned_type :: "ctype \<Rightarrow> bool" and aligned_members :: "(string \<times> nat \<times> ctype) list \<Rightarrow> bool" where
  "aligned_type (Scalar n) \<longleftrightarrow> 0 < n"
| "aligned_type (Arr t n) \<longleftrightarrow> aligned_type t"
| "aligned_type (Struct a ms) \<longleftrightarrow> 0 < a \<and> aligned_members ms"
| "aligned_members [] \<longleftrightarrow> True"
| "aligned_members ((name, a, t) # ms) \<longleftrightarrow> 0 < a \<and> aligned_type t \<and> aligned_members ms"

lemma members_at_ge:
  "aligned_members ms \<Longrightarrow> \<forall>(name, off, t) \<in> set (members_at at ms). at \<le> off \<and> off + ctype_size t \<le> members_end at ms"
  "aligned_members ms \<Longrightarrow> at \<le> members_end at ms"
proof (induction at ms rule: members_at.induct)
  case (2 at name a t ms)
  { case 1
    with 2 align_up_ge [of "max a (ctype_align t)" at] show ?case
      by (fastforce simp: Let_def)
  next
    case 2
    with "2.IH" align_up_ge [of "max a (ctype_align t)" at] show ?case
      by (fastforce simp: Let_def) }
qed simp_all

text \<open>Members follow one another without overlap, inside the structure.\<close>

lemma members_apart:
  "aligned_members ms \<Longrightarrow>
   sorted_wrt (\<lambda>(_, off, t) (_, off', _). off + ctype_size t \<le> off') (members_at at ms)"
proof (induction at ms rule: members_at.induct)
  case (2 at name a t ms)
  then show ?case
    using members_at_ge(1) [of ms "align_up at (max a (ctype_align t)) + ctype_size t"] by (fastforce simp: Let_def)
qed simp

lemma struct_members:
  assumes "aligned_type (Struct a ms)"
  shows "sorted_wrt (\<lambda>(_, off, t) (_, off', _). off + ctype_size t \<le> off') (members_at 0 ms) \<and>
    list_all (\<lambda>(_, off, t). off + ctype_size t \<le> ctype_size (Struct a ms)) (members_at 0 ms)"
proof -
  from assms have ms: "aligned_members ms" and "0 < a" by simp_all
  then have "members_end 0 ms \<le> ctype_size (Struct a ms)" by (simp add: align_up_ge)
  with members_apart [OF ms, of 0] members_at_ge(1) [OF ms, of 0] show ?thesis by (fastforce simp: list_all_iff)
qed

lemma max_sources: "unat kMaxSources = 64"
  by (simp add: kMaxSources_def)

lemma part_sizes:
  "ctype_size Record_t = 32" "ctype_align Record_t = 8" "ctype_size SourceState_t = 40" "ctype_size WindowState_t = 16"
  "ctype_size (Seqlock_t SourceState_t) = 64" "ctype_size (Seqlock_t WindowState_t) = 64"
  "ctype_align (Seqlock_t t) = max 64 (max 4 8)"
  "ctype_size ShmControl_t = 448" "ctype_align ShmControl_t = 64" "ctype_size SupervisorState_t = 64" "ctype_align SupervisorState_t = 64"
  "ctype_size (SpscRing_t Record_t 1024) = 32896" "ctype_align (SpscRing_t Record_t 1024) = 64"
  by (simp_all add: Record_t_def SourceState_t_def WindowState_t_def Seqlock_t_def ShmControl_t_def SupervisorState_t_def
      SpscRing_t_def)

lemma layout_members: "aligned_type Layout_t"
  by (simp add: Layout_t_def ShmControl_t_def SupervisorState_t_def SpscRing_t_def Record_t_def Seqlock_t_def
      TripleBuffer_t_def Snapshot_t_def WindowState_t_def)

lemma control_offsets:
  "map (\<lambda>name. offset_of ShmControl_t [Field name]) heartbeats = map Some [64, 128, 192, 256, 320, 384]"
  by (simp add: ShmControl_t_def heartbeats_def)

lemma zero_plus: "(+) (0 :: nat) = (\<lambda>n. n)"
  by auto

lemma layout_offsets:
  "offset_of Layout_t (Field ''control'' # path) = offset_of ShmControl_t path"
  "offset_of Layout_t (Field ''ring'' # path) = map_option (\<lambda>n. 512 + n) (offset_of (SpscRing_t Record_t 1024) path)"
  "offset_of Layout_t (Field ''latest'' # path) = map_option (\<lambda>n. 33408 + n) (offset_of (Arr (Seqlock_t SourceState_t) 64) path)"
  "offset_of Layout_t (Field ''window'' # path) = map_option (\<lambda>n. 37504 + n) (offset_of (Arr (Seqlock_t WindowState_t) 64) path)"
  by (simp_all add: Layout_t_def part_sizes max_sources zero_plus option.map_ident)

lemma cell_offsets: "i < 64 \<Longrightarrow> ctype_size (Seqlock_t t) = 64 \<Longrightarrow>
    offset_of (Arr (Seqlock_t t) 64) [Index i, Field ''seq_''] = Some (64 * i)"
  by (simp add: Seqlock_t_def)

lemma hot_offsets:
  "map (offset_of Layout_t) hot_words =
     map Some ([64, 128, 192, 256, 320, 384, 33280, 33344] @ map (\<lambda>i. 33408 + 64 * i) [0..<64] @ map (\<lambda>i. 37504 + 64 * i) [0..<64])"
proof -
  have "map (\<lambda>name. offset_of Layout_t [Field ''control'', Field name]) heartbeats = map Some [64, 128, 192, 256, 320, 384]"
    using control_offsets by (simp add: layout_offsets heartbeats_def)
  moreover have "offset_of (SpscRing_t Record_t 1024) [Field ''write_''] = Some 32768"
    "offset_of (SpscRing_t Record_t 1024) [Field ''read_''] = Some 32832"
    by (simp_all add: SpscRing_t_def part_sizes)
  ultimately show ?thesis
    by (simp add: hot_words_def o_def max_sources layout_offsets cell_offsets part_sizes del: upt_rec_numeral offset_of.simps)
qed

section \<open>Properties\<close>

text \<open>
  (C34) The memory layout of the mapping. Each heartbeat starts a cache line, as the
  assertions demand; the six heartbeats, the two ring indexes and the 128
  seqlock cells all start cache lines of their own, so no two of them share
  one; a source state takes 40 bytes and a window row 16, the sizes the
  seqlocks are instantiated with, and each cell is exactly one line; and the
  parts of the mapping follow one another without overlap.
\<close>

theorem region_lines:
  "list_all (\<lambda>name. \<exists>off. offset_of ShmControl_t [Field name] = Some off \<and> off mod 64 = 0) heartbeats \<and>
   list_all (\<lambda>path. \<exists>off. offset_of Layout_t path = Some off \<and> off mod 64 = 0) hot_words \<and>
   distinct (map (\<lambda>path. map_option cache_line (offset_of Layout_t path)) hot_words) \<and>
   map ctype_size [SourceState_t, WindowState_t, Seqlock_t SourceState_t, Seqlock_t WindowState_t] = [40, 16, 64, 64] \<and>
   (case Layout_t of Struct a ms \<Rightarrow>
      sorted_wrt (\<lambda>(_, off, t) (_, off', _). off + ctype_size t \<le> off') (members_at 0 ms) \<and>
      list_all (\<lambda>(_, off, t). off + ctype_size t \<le> ctype_size Layout_t) (members_at 0 ms)
    | _ \<Rightarrow> False)"
proof -
  have "list_all (\<lambda>path. \<exists>off. offset_of Layout_t path = Some off \<and> off mod 64 = 0) hot_words"
  proof -
    have "\<forall>o1 \<in> set (map (offset_of Layout_t) hot_words). \<exists>off. o1 = Some off \<and> off mod 64 = 0"
      unfolding hot_offsets by auto
    then show ?thesis by (simp add: list_all_iff)
  qed
  moreover have "distinct (map (\<lambda>path. map_option cache_line (offset_of Layout_t path)) hot_words)"
  proof -
    have "map (\<lambda>path. map_option cache_line (offset_of Layout_t path)) hot_words =
        map (map_option cache_line) (map (offset_of Layout_t) hot_words)" by simp
    also have "distinct \<dots>" unfolding hot_offsets
      by (auto simp: cache_line_def distinct_map inj_on_def simp del: upt_rec_numeral)
    finally show ?thesis .
  qed
  moreover have "list_all (\<lambda>name. \<exists>off. offset_of ShmControl_t [Field name] = Some off \<and> off mod 64 = 0) heartbeats"
  proof -
    have "\<forall>o1 \<in> set (map (\<lambda>name. offset_of ShmControl_t [Field name]) heartbeats). \<exists>off. o1 = Some off \<and> off mod 64 = 0"
      unfolding control_offsets by auto
    then show ?thesis by (simp add: list_all_iff)
  qed
  moreover have "map ctype_size [SourceState_t, WindowState_t, Seqlock_t SourceState_t, Seqlock_t WindowState_t] = [40, 16, 64, 64]"
    by (simp add: part_sizes)
  moreover have "case Layout_t of Struct a ms \<Rightarrow>
      sorted_wrt (\<lambda>(_, off, t) (_, off', _). off + ctype_size t \<le> off') (members_at 0 ms) \<and>
      list_all (\<lambda>(_, off, t). off + ctype_size t \<le> ctype_size Layout_t) (members_at 0 ms)
    | _ \<Rightarrow> False"
  proof -
    obtain a ms where layout: "Layout_t = Struct a ms" by (simp add: Layout_t_def)
    have "aligned_type (Struct a ms)" using layout_members by (simp only: layout)
    then show ?thesis unfolding layout ctype.case by (rule struct_members)
  qed
  ultimately show ?thesis by blast
qed

end
