(* ===== verification/Bench.thy ===== *)
theory Bench
  imports Decimal Memory_Layout "HOL-Library.Multiset"
begin

text \<open>
  \<^verbatim>\<open>src/bench.cpp\<close>: the two unrolled sums that the benchmark times, its median of
  five, and the value it keeps so that the compiler cannot drop the loops. The
  clock readings are arguments. The two threads of \<open>pound\<close> increment one counter
  each, in every interleaving, on a structure that does or does not keep the
  counters on separate cache lines.
\<close>

section \<open>Sums\<close>

text \<open>The loop of four accumulators, from index \<open>i\<close>, and the loop over what is left.\<close>

type_synonym accumulators = "u64 \<times> u64 \<times> u64 \<times> u64"

function sum_quads :: "(nat \<Rightarrow> i32) \<Rightarrow> nat \<Rightarrow> nat \<Rightarrow> accumulators \<Rightarrow> nat \<times> accumulators" where
  "sum_quads x n i (a, b, c, d) =
     (if i + 4 \<le> n
      then sum_quads x n (i + 4) (a + ucast (x i), b + ucast (x (i + 1)), c + ucast (x (i + 2)), d + ucast (x (i + 3)))
      else (i, a, b, c, d))"
  by pat_completeness auto
termination by (relation "measure (\<lambda>(x, n, i, acc). n - i)") auto

function sum_rest :: "(nat \<Rightarrow> i32) \<Rightarrow> nat \<Rightarrow> nat \<Rightarrow> u64 \<Rightarrow> u64" where
  "sum_rest x n i a = (if i < n then sum_rest x n (i + 1) (a + ucast (x i)) else a)"
  by pat_completeness auto
termination by (relation "measure (\<lambda>(x, n, i, a). n - i)") auto

declare sum_quads.simps [simp del] sum_rest.simps [simp del]

definition sum_pass :: "(nat \<Rightarrow> i32) \<Rightarrow> nat \<Rightarrow> u64" where
  "sum_pass x n =
     (case sum_quads x n 0 (0, 0, 0, 0) of (i, a, b, c, d) \<Rightarrow> sum_rest x n i a + b + c + d)"

fun passes :: "nat \<Rightarrow> (nat \<Rightarrow> i32) \<Rightarrow> nat \<Rightarrow> u64 \<Rightarrow> u64" where
  "passes 0 x n s = s"
| "passes (Suc k) x n s = passes k x n (s + sum_pass x n)"

definition sum_soa :: "i32 list \<Rightarrow> u64" where
  "sum_soa xs = passes 32 (\<lambda>i. xs ! i) (length xs) 0"

record Line =
  line_x :: i32
  line_pad :: "u8 list"

definition sum_aos :: "Line list \<Rightarrow> u64" where
  "sum_aos points = passes 32 (\<lambda>i. line_x (points ! i)) (length points) 0"

section \<open>Median\<close>

text \<open>The two nested loops of the exchange sort: \<open>j\<close> runs from \<open>i + 1\<close>, \<open>i\<close> from 0.\<close>

function exchange :: "nat \<Rightarrow> nat \<Rightarrow> int list \<Rightarrow> int list" where
  "exchange i j xs =
     (if j < length xs
      then exchange i (j + 1) (if xs ! j < xs ! i then xs[i := xs ! j, j := xs ! i] else xs)
      else xs)"
  by pat_completeness auto
termination by (relation "measure (\<lambda>(i, j, xs). length xs - j)") auto

declare exchange.simps [simp del]

lemma length_exchange [simp]: "length (exchange i j xs) = length xs"
proof (induction i j xs rule: exchange.induct)
  case (1 i j xs)
  then show ?case by (subst exchange.simps) auto
qed

function exchange_sort :: "nat \<Rightarrow> int list \<Rightarrow> int list" where
  "exchange_sort i xs = (if i < length xs then exchange_sort (i + 1) (exchange i (i + 1) xs) else xs)"
  by pat_completeness auto
termination by (relation "measure (\<lambda>(i, xs). length xs - i)") auto

declare exchange_sort.simps [simp del]

definition median_ns :: "int list \<Rightarrow> int" where
  "median_ns samples = exchange_sort 0 samples ! 2"

section \<open>Two threads, two counters\<close>

text \<open>The counters and the loop variable of each thread.\<close>

record pound_state =
  pd_left :: u64
  pd_right :: u64
  pd_i :: nat
  pd_j :: nat

definition pound_start :: "u64 \<Rightarrow> u64 \<Rightarrow> pound_state" where
  "pound_start left right = \<lparr>pd_left = left, pd_right = right, pd_i = 0, pd_j = 0\<rparr>"

definition pound_a :: "pound_state \<Rightarrow> pound_state option" where
  "pound_a s = (if pd_i s < 200000 then Some (s\<lparr>pd_left := pd_left s + 1, pd_i := pd_i s + 1\<rparr>) else None)"

definition pound_b :: "pound_state \<Rightarrow> pound_state option" where
  "pound_b s = (if pd_j s < 200000 then Some (s\<lparr>pd_right := pd_right s + 1, pd_j := pd_j s + 1\<rparr>) else None)"

text \<open>\<open>pound\<close> returns when both threads can be joined.\<close>

inductive pound_step :: "pound_state \<Rightarrow> pound_state \<Rightarrow> bool" where
  pound_left: "pound_a s = Some t \<Longrightarrow> pound_step s t"
| pound_right: "pound_b s = Some t \<Longrightarrow> pound_step s t"

definition pound_joined :: "pound_state \<Rightarrow> bool" where
  "pound_joined s \<longleftrightarrow> pound_a s = None \<and> pound_b s = None"

definition Adjacent_t :: ctype where
  "Adjacent_t = Struct 1 [(''left'', 1, u64_t), (''right'', 1, u64_t)]"

definition Padded_t :: ctype where
  "Padded_t = Struct 1 [(''left'', 64, u64_t), (''right'', 64, u64_t)]"

section \<open>The program\<close>

definition kLargeCount :: nat where "kLargeCount = 524288"

definition bench_xs :: "i32 list" where
  "bench_xs = map of_nat [0..<kLargeCount]"

definition bench_points :: "u8 list \<Rightarrow> Line list" where
  "bench_points pad = map (\<lambda>x. \<lparr>line_x = x, line_pad = pad\<rparr>) bench_xs"

text \<open>Each measured function runs once to warm up and five times for the samples.\<close>

definition bench_sink :: "u8 list \<Rightarrow> u64" where
  "bench_sink pad =
     (let sink = ((\<lambda>s. s + sum_soa bench_xs) ^^ 6) 0
      in ((\<lambda>s. s + sum_aos (bench_points pad)) ^^ 6) sink)"

definition bench_exit :: "u8 list \<Rightarrow> nat" where
  "bench_exit pad = (if bench_sink pad = 0 then 1 else 0)"

definition bench_output :: "int \<Rightarrow> int \<Rightarrow> int \<Rightarrow> int \<Rightarrow> u64 \<Rightarrow> string" where
  "bench_output soa aos shared apart sink =
     ''soa_ns '' @ show_int soa @ [CHR 0x0A] @ ''aos_ns '' @ show_int aos @ [CHR 0x0A] @
     ''adjacent_ns '' @ show_int shared @ [CHR 0x0A] @ ''padded_ns '' @ show_int apart @ [CHR 0x0A] @
     ''sink '' @ show_u64 sink @ [CHR 0x0A]"

text \<open>\<open>main\<close>, given the five samples of each measurement.\<close>

definition bench_main :: "u8 list \<Rightarrow> int list \<Rightarrow> int list \<Rightarrow> int list \<Rightarrow> int list \<Rightarrow> string \<times> nat" where
  "bench_main pad soa aos shared apart =
     (bench_output (median_ns soa) (median_ns aos) (median_ns shared) (median_ns apart) (bench_sink pad), bench_exit pad)"

section \<open>Lemmas\<close>

definition plain_sum :: "(nat \<Rightarrow> i32) \<Rightarrow> nat \<Rightarrow> nat \<Rightarrow> u64" where
  "plain_sum x i n = sum_list (map (\<lambda>k. ucast (x k)) [i..<n])"

lemma plain_sum_end [simp]: "n \<le> i \<Longrightarrow> plain_sum x i n = 0"
  by (simp add: plain_sum_def)

lemma plain_sum_step: "i < n \<Longrightarrow> plain_sum x i n = ucast (x i) + plain_sum x (Suc i) n"
  by (simp add: plain_sum_def upt_rec [of i n])

lemma sum_rest_plain: "sum_rest x n i a = a + plain_sum x i n"
proof (induction x n i a rule: sum_rest.induct)
  case (1 x n i a)
  then show ?case by (subst sum_rest.simps) (simp add: plain_sum_step)
qed

lemma sum_quads_plain:
  "case sum_quads x n i (a, b, c, d) of (j, a', b', c', d') \<Rightarrow>
     a' + b' + c' + d' + plain_sum x j n = a + b + c + d + plain_sum x i n"
proof (induction x n i "(a, b, c, d)" arbitrary: a b c d rule: sum_quads.induct)
  case (1 x n i a b c d)
  show ?case
  proof (cases "i + 4 \<le> n")
    case True
    have "plain_sum x i n = ucast (x i) + ucast (x (i + 1)) + ucast (x (i + 2)) + ucast (x (i + 3)) + plain_sum x (i + 4) n"
      using True by (simp add: plain_sum_step eval_nat_numeral algebra_simps)
    then show ?thesis using 1 [OF True] True
      by (subst sum_quads.simps) (simp add: algebra_simps split: prod.splits)
  next
    case False
    then show ?thesis by (subst sum_quads.simps) simp
  qed
qed

lemma sum_pass_plain: "sum_pass x n = plain_sum x 0 n"
  using sum_quads_plain [of x n 0 0 0 0 0]
  by (simp add: sum_pass_def sum_rest_plain algebra_simps split: prod.splits)

lemma passes_plain: "passes k x n s = s + of_nat k * plain_sum x 0 n"
  by (induction k arbitrary: s) (simp_all add: sum_pass_plain algebra_simps)

lemma plain_sum_list: "plain_sum (\<lambda>i. f (xs ! i)) 0 (length xs) = sum_list (map (\<lambda>v. ucast (f v)) xs)"
proof -
  have "map (\<lambda>k. ucast (f (xs ! k)) :: u64) [0..<length xs] = map (\<lambda>v. ucast (f v)) (map ((!) xs) [0..<length xs])"
    by simp
  then show ?thesis unfolding plain_sum_def by (simp only: map_nth)
qed

text \<open>Invariant of the inner loop: position \<open>i\<close> holds the least element of those seen.\<close>

lemma exchange_mset: "i < length xs \<Longrightarrow> i < j \<Longrightarrow> mset (exchange i j xs) = mset xs"
proof (induction i j xs rule: exchange.induct)
  case (1 i j xs)
  show ?case
  proof (cases "j < length xs")
    case True
    then have "mset (xs[i := xs ! j, j := xs ! i]) = mset xs" using 1(2) by (simp add: mset_swap)
    with 1 True show ?thesis by (subst exchange.simps) (auto split: if_splits)
  qed (subst exchange.simps, simp)
qed

lemma exchange_below: "k < i \<Longrightarrow> i < j \<Longrightarrow> exchange i j xs ! k = xs ! k"
proof (induction i j xs rule: exchange.induct)
  case (1 i j xs)
  then show ?case by (subst exchange.simps) auto
qed

lemma exchange_least:
  "i < j \<Longrightarrow> (\<forall>k. i \<le> k \<and> k < j \<and> k < length xs \<longrightarrow> xs ! i \<le> xs ! k) \<Longrightarrow>
   \<forall>k. i \<le> k \<and> k < length xs \<longrightarrow> exchange i j xs ! i \<le> exchange i j xs ! k"
proof (induction i j xs rule: exchange.induct)
  case (1 i j xs)
  show ?case
  proof (cases "j < length xs")
    case True
    let ?ys = "if xs ! j < xs ! i then xs[i := xs ! j, j := xs ! i] else xs"
    have "\<forall>k. i \<le> k \<and> k < j + 1 \<and> k < length ?ys \<longrightarrow> ?ys ! i \<le> ?ys ! k"
      using 1(2,3) True by (auto simp: nth_list_update less_Suc_eq)
    with 1(1) [OF True] 1(2) True show ?thesis by (subst (1 2) exchange.simps) auto
  next
    case False
    with 1(3) show ?thesis by (subst (1 2) exchange.simps) auto
  qed
qed

lemma exchange_sort_mset: "mset (exchange_sort i xs) = mset xs"
proof (induction i xs rule: exchange_sort.induct)
  case (1 i xs)
  then show ?case by (subst exchange_sort.simps) (simp add: exchange_mset)
qed

text \<open>Invariant of the outer loop: the first \<open>i\<close> elements are sorted and below the others.\<close>

definition front_sorted :: "nat \<Rightarrow> int list \<Rightarrow> bool" where
  "front_sorted i xs \<longleftrightarrow> (\<forall>j k. j < i \<and> j \<le> k \<and> k < length xs \<longrightarrow> xs ! j \<le> xs ! k)"

lemma exchange_lower:
  "i < j \<Longrightarrow> i < length xs \<Longrightarrow> \<forall>k. i \<le> k \<and> k < length xs \<longrightarrow> c \<le> xs ! k \<Longrightarrow>
   \<forall>k. i \<le> k \<and> k < length xs \<longrightarrow> c \<le> exchange i j xs ! k"
proof (induction i j xs rule: exchange.induct)
  case (1 i j xs)
  show ?case
  proof (cases "j < length xs")
    case True
    let ?ys = "if xs ! j < xs ! i then xs[i := xs ! j, j := xs ! i] else xs"
    have "\<forall>k. i \<le> k \<and> k < length ?ys \<longrightarrow> c \<le> ?ys ! k"
      using 1(2-4) True by (auto simp: nth_list_update)
    with 1(1) [OF True] 1(2,3) True show ?thesis by (subst exchange.simps) auto
  qed (use 1 in \<open>subst exchange.simps, simp\<close>)
qed

lemma front_sorted_exchange:
  assumes "front_sorted i xs" and "i < length xs"
  shows "front_sorted (i + 1) (exchange i (i + 1) xs)"
  unfolding front_sorted_def
proof (intro allI impI)
  fix j k assume jk: "j < i + 1 \<and> j \<le> k \<and> k < length (exchange i (i + 1) xs)"
  show "exchange i (i + 1) xs ! j \<le> exchange i (i + 1) xs ! k"
  proof (cases "j = i")
    case True
    have "\<forall>k. i \<le> k \<and> k < i + 1 \<and> k < length xs \<longrightarrow> xs ! i \<le> xs ! k" by (auto simp: less_Suc_eq)
    from exchange_least [OF _ this] jk True show ?thesis by simp
  next
    case False
    with jk have j: "j < i" by simp
    with assms(1) have "\<forall>k. i \<le> k \<and> k < length xs \<longrightarrow> xs ! j \<le> xs ! k" by (auto simp: front_sorted_def)
    from exchange_lower [OF _ assms(2) this] j jk assms(1) show ?thesis
      by (cases "k < i") (auto simp: exchange_below front_sorted_def)
  qed
qed

lemma exchange_sort_sorted: "front_sorted i xs \<Longrightarrow> i \<le> length xs \<Longrightarrow> sorted (exchange_sort i xs)"
proof (induction i xs rule: exchange_sort.induct)
  case (1 i xs)
  show ?case
  proof (cases "i < length xs")
    case True
    with 1 front_sorted_exchange show ?thesis by (subst exchange_sort.simps) simp
  next
    case False
    with 1(2) show ?thesis by (subst exchange_sort.simps) (auto simp: front_sorted_def sorted_iff_nth_mono)
  qed
qed

lemma sum_soa_plain: "sum_soa xs = 32 * sum_list (map ucast xs)"
  using plain_sum_list [of id xs] by (simp add: sum_soa_def passes_plain)

lemma sum_aos_plain: "sum_aos points = 32 * sum_list (map (\<lambda>p. ucast (line_x p)) points)"
  using plain_sum_list [of line_x points] by (simp add: sum_aos_def passes_plain)

lemma sum_upto: "sum_list (map of_nat [0..<n]) = (of_nat (n * (n - 1) div 2) :: u64)"
proof -
  have "\<Sum> {0..<n} = n * (n - 1) div 2" using Sum_Ico_nat [of 0 n] by simp
  then have "sum_list [0..<n] = n * (n - 1) div 2" by (simp add: interv_sum_list_conv_sum_set_nat)
  moreover have "sum_list (map of_nat ks) = (of_nat (sum_list ks) :: u64)" for ks by (induction ks) simp_all
  ultimately show ?thesis by simp
qed

lemma bench_sum: "sum_list (map ucast bench_xs) = (137438691328 :: u64)"
proof -
  have "(ucast (of_nat k :: i32) :: u64) = of_nat k" if "k < kLargeCount" for k
    using that by (simp add: kLargeCount_def word_eq_iff_unsigned unsigned_ucast_eq unsigned_of_nat take_bit_nat_eq_self)
  then have eq: "map ucast bench_xs = (map of_nat [0..<kLargeCount] :: u64 list)" by (simp add: bench_xs_def)
  show ?thesis unfolding eq sum_upto by (simp add: kLargeCount_def)
qed

section \<open>Properties\<close>

text \<open>
  (C40) Both unrolled walks compute the plain sum: over any array, with any count that is
  or is not a multiple of four, the sum of the elements read as unsigned, 32
  times, modulo \<open>2 ^ 64\<close>; so on the same elements the two layouts give the same
  value, whatever the padding.
\<close>

theorem bench_sums_equal:
  "sum_soa xs = 32 * sum_list (map ucast xs) \<and>
   sum_aos (map (\<lambda>x. \<lparr>line_x = x, line_pad = pad x\<rparr>) xs) = sum_soa xs"
  by (simp add: sum_soa_plain sum_aos_plain o_def)

text \<open>
  Under every interleaving the two threads of \<open>pound\<close> take 400000 steps in all, no
  increment is lost, and when both have ended each counter has grown by
  200000; the counters share a cache line in one structure and not in the
  other, which is what the benchmark compares.
\<close>

lemma pound_inv:
  "pound_step\<^sup>*\<^sup>* (pound_start left right) s \<Longrightarrow>
   pd_left s = left + of_nat (pd_i s) \<and> pd_right s = right + of_nat (pd_j s) \<and> pd_i s \<le> 200000 \<and> pd_j s \<le> 200000"
proof (induction rule: rtranclp_induct)
  case base
  show ?case by (simp add: pound_start_def)
next
  case (step s t)
  from step(2) show ?case
    by cases (use step(3) in \<open>auto simp: pound_a_def pound_b_def split: if_splits\<close>)
qed

interpretation pounding: ranked_steps pound_step "\<lambda>s t. False" "\<lambda>s. (200000 - pd_i s) + (200000 - pd_j s)"
  by unfold_locales (auto elim!: pound_step.cases simp: pound_a_def pound_b_def split: if_splits)

theorem pound_exact:
  assumes "interleaved pound_step (\<lambda>s t. False) n (pound_start left right) s"
  shows "n \<le> 400000 \<and> (pound_joined s \<longleftrightarrow> (\<nexists>t. pound_step s t)) \<and>
    (pound_joined s \<longrightarrow> pd_left s = left + 200000 \<and> pd_right s = right + 200000)"
proof -
  have "pound_step\<^sup>*\<^sup>* (pound_start left right) s"
    using assms by induction (auto intro: rtranclp.rtrancl_into_rtrancl)
  from pound_inv [OF this] pounding.own_steps_bounded [OF assms] show ?thesis
    by (auto simp: pound_joined_def pound_step.simps pound_a_def pound_b_def pound_start_def split: if_splits)
qed

lemma bench_lines:
  "map_option cache_line (offset_of Adjacent_t [Field ''left'']) = map_option cache_line (offset_of Adjacent_t [Field ''right''])"
  "map_option cache_line (offset_of Padded_t [Field ''left'']) \<noteq> map_option cache_line (offset_of Padded_t [Field ''right''])"
  by (simp_all add: Adjacent_t_def Padded_t_def cache_line_def)

text \<open>
  The nested exchange loops sort, so the benchmark reports the median: the middle
  element of the sorted samples. And its sink is never 0, so it always exits with 0.
\<close>

theorem bench_median_exit:
  "median_ns samples = sort samples ! 2 \<and> bench_exit pad = 0"
proof -
  have "exchange_sort 0 samples = sort samples"
    using exchange_sort_sorted [of 0 samples] exchange_sort_mset [of 0 samples]
    by (intro properties_for_sort [symmetric]) (simp_all add: front_sorted_def)
  moreover have "bench_sink pad = 52776457469952"
    by (simp add: bench_sink_def sum_soa_plain sum_aos_plain bench_points_def o_def bench_sum eval_nat_numeral)
  ultimately show ?thesis by (simp add: median_ns_def bench_exit_def)
qed

end
