(* ===== verification/Spec2Isabelle.thy ===== *)
theory Spec2Isabelle
  imports Session Ingest_Hang Seqlock_Weak Triple_Buffer_Weak Spsc_Ring_Weak Observe Roles Bench
begin

text \<open>
  Verification of \<^bold>\<open>ratehub\<close>, a multi-process telemetry pipeline in C++20.

  \<^bold>\<open>The program.\<close> One executable plays five roles (\<^verbatim>\<open>src/main.cpp\<close>). The supervisor creates
  a POSIX shared mapping, spawns ingest, publish and compute (and optionally
  observe) on it, restarts compute up to three times and at the end stores a
  shutdown flag. Ingest reads 38-byte frames from a replay file in one thread
  and decodes them in another, a bounded queue between them, and pushes the
  records into a single-producer single-consumer ring of the mapping. Compute
  has a 5 ms thread that drains the ring, integrates positions and publishes a
  row per source in a seqlock, a 25 ms thread that copies the rows to a second
  seqlock table, a 100 ms thread that publishes the last state as a snapshot in
  a triple buffer, and a watchdog. Publish waits for that snapshot and writes it
  as text. Observe serves a JSON view of the mapping over HTTP.

  \<^bold>\<open>Theories, and the sources they model.\<close>
  \<^item> \<^verbatim>\<open>Prelude\<close>, \<^verbatim>\<open>Types\<close> (\<^verbatim>\<open>types.hpp\<close>, structs of \<^verbatim>\<open>layout.hpp\<close>), \<^verbatim>\<open>Decimal\<close> (decimal text): integers
    as words, signed 64-bit operations that are \<open>None\<close> on overflow, and the
    interfaces \<open>step_machine\<close> (an invariant of a transition system), \<open>ranked_steps\<close> (a thread
    that finishes whatever the others do) and \<open>ranked_goal\<close> (a goal that stays reachable).
  \<^item> \<^verbatim>\<open>Frame\<close> (\<^verbatim>\<open>frame.cpp\<close>): encoder, decoder, CRC. Round trips in both directions, the exact
    byte image, detection of a changed byte or two adjacent ones, untouched output on rejection.
  \<^item> \<^verbatim>\<open>Fleet\<close> (\<^verbatim>\<open>fleet.cpp\<close>): \<open>step\<close> and \<open>integrate\<close>. No undefined behaviour on any input, exact status, exact move.
  \<^item> \<^verbatim>\<open>Fifo_Contract\<close>, \<^verbatim>\<open>Spsc_Ring\<close> (\<^verbatim>\<open>spsc_ring.hpp\<close>), \<^verbatim>\<open>Bounded_Queue\<close> (\<^verbatim>\<open>bounded_queue.hpp\<close>): the contract
    \<open>bounded_fifo\<close> and both implementations of it; then the ring access by access with
    index loads that may lag behind (nothing lost, duplicated, reordered or raced),
    and the queue as a monitor with sleeping threads and spurious wake-ups.
  \<^item> \<^verbatim>\<open>Seqlock\<close> (\<^verbatim>\<open>seqlock.hpp\<close>), \<^verbatim>\<open>Triple_Buffer\<close> (\<^verbatim>\<open>triple_buffer.hpp\<close>): the contracts \<open>latest_value_cell\<close>
    and \<open>latest_snapshot\<close>, their implementations, and both structures access by access: no torn
    value, bounded loads, exclusive slots, stable reads.
  \<^item> \<^verbatim>\<open>Weak_Memory\<close>, \<^verbatim>\<open>Spsc_Ring_Weak\<close>, \<^verbatim>\<open>Seqlock_Weak\<close>, \<^verbatim>\<open>Triple_Buffer_Weak\<close>: the three lock-free structures with
    the memory order the source gives each access. A location is the history of its stores, a
    thread may read any store its view has not passed, release and acquire accesses and
    fences hand views over. Ring and triple buffer simulate their access-by-access
    machines and their plain slots are never raced; the fences of the seqlock keep torn
    values from any number of readers.
  \<^item> \<^verbatim>\<open>Layout\<close> (\<^verbatim>\<open>shm_control.hpp\<close>, \<^verbatim>\<open>supervisor_state.hpp\<close>, \<^verbatim>\<open>layout.hpp\<close>), \<^verbatim>\<open>Shm_Region\<close> (\<^verbatim>\<open>shm_region.cpp\<close>), \<^verbatim>\<open>Pace\<close>
    (\<^verbatim>\<open>pace.hpp\<close> and \<open>finish_cycle\<close>): the mapping as one record, its creation and release without
    a leak on any path, budgets and the silence test.
  \<^item> \<^verbatim>\<open>Memory_Layout\<close> (the same headers): sizes and offsets of the structures in the mapping;
    heartbeats, ring indexes and seqlock cells have cache lines of their own.
  \<^item> \<^verbatim>\<open>Ingest\<close> (\<^verbatim>\<open>ingest.cpp\<close>), \<^verbatim>\<open>Compute\<close>, \<^verbatim>\<open>Compute_Threads\<close>, \<^verbatim>\<open>Compute_Snapshot\<close> (\<^verbatim>\<open>compute.cpp\<close>), \<^verbatim>\<open>Publish\<close>
    (\<^verbatim>\<open>publish.cpp\<close>), \<^verbatim>\<open>Supervisor\<close> (\<^verbatim>\<open>supervisor.cpp\<close>): each thread is a function from a state to
    its next state, each role the union of its threads. Ingest feeds the decoded
    file; the drain loop refines the per-source specification \<open>track\<close>; a published
    snapshot is complete; the report can be parsed back; attempts and exit status are exact.
  \<^item> \<^verbatim>\<open>Make_Replay\<close> (\<^verbatim>\<open>tools/make_replay.cpp\<close>), \<^verbatim>\<open>Pipeline\<close>, \<^verbatim>\<open>Pipeline_Report\<close>: the three children of a run on
    one mapping. The report is the exact function of the replay file, up to records
    left in the ring; two runs show that records may be left and that a report may be missing.
  \<^item> \<^verbatim>\<open>Completion\<close>: every run can be completed, with a report unless the shutdown came first.
  \<^item> \<^verbatim>\<open>Restart\<close> (the attempts of \<^verbatim>\<open>run_once_pipeline\<close>): compute killed between two operations or failing,
    and started again on the used region. No record is taken twice, rows and generation of
    a report come from the attempts; a writer killed inside a seqlock publish loses its row for good,
    and one killed inside a publish of the triple buffer makes its successor fill the slot that is being read.
  \<^item> \<^verbatim>\<open>Session\<close> (the loop of \<^verbatim>\<open>run_supervisor\<close>): run after run on the same mapping, with the guard on
    observer and pacing, the hold with its polls and the reset, after runs that succeeded or
    failed. A report comes from one attempt of the session and no record is taken twice; when nothing
    failed before, the report is determined by the records its run took and the rows
    earlier runs left. One session shows that a rerun may report the run before it.
  \<^item> \<^verbatim>\<open>Ingest_Hang\<close> (\<^verbatim>\<open>ingest.cpp\<close>): a run from the start of the program to a shutdown that ingest never returns from.
  \<^item> \<^verbatim>\<open>Telemetry\<close> (\<^verbatim>\<open>telemetry.cpp\<close>), \<^verbatim>\<open>Http_Sse\<close> (\<^verbatim>\<open>http_sse.cpp\<close>), \<^verbatim>\<open>Observe\<close> (\<^verbatim>\<open>observe.cpp\<close>), \<^verbatim>\<open>Roles\<close> (\<^verbatim>\<open>main.cpp\<close>), \<^verbatim>\<open>Bench\<close>
    (\<^verbatim>\<open>bench.cpp\<close>): the JSON text fits its buffer, the event a client receives is one whole line that
    reads back to the named fields and rows of the region, which other processes may change between two
    loads; the pump leaks no descriptor, the dashboard file included; routing is exact; the observer stores
    one word, once for each request, beside any other process; every spawned
    argument vector reaches its role, both benchmark sums equal the plain sum and its
    counters lose no increment.

  \<^bold>\<open>Conventions.\<close> What the kernel, the clock, the environment and the other processes do
  is an argument of the function that meets it, so a theorem that does not
  constrain the argument holds for every behaviour. Histories (\<open>ig_fed\<close>, \<open>cp_taken\<close>,
  \<open>cp_snaps\<close> and the like) are recorded beside the state and never read by a step.
  In the roles an operation of the ring, a seqlock row, the triple buffer or the
  queue is one step; that this is sound is what the access-by-access theories show,
  and a seqlock load may also fail while a writer is inside \<open>publish\<close>. Loops that
  wait (\<open>hold\<close>, \<open>observe_loop\<close>, sending, receiving) consume a list of replies and are
  \<open>None\<close>, or a failure, when it ends first; the reader of a report takes the length of
  its text as fuel, and each row takes at least one character of it.

  \<^bold>\<open>Not modelled.\<close> Memory orders of the single flags and counters of the control blocks: in the
  roles each of their accesses takes effect at once. Loads that read a store issued later
  (the language leaves them open, no implementation has them): a load takes a store already
  in the history. Runs after a kill inside a publish: what it leaves is shown, the roles are
  not continued from it; a kill inside \<open>try_pop\<close> has stored nothing, and ingest is not
  restarted. Sleeping times, socket options, messages to the terminal, the dashboard page,
  the tests and the build.
\<close>

end
